(* ===== verification/Prelude.thy ===== *)
theory Prelude
  imports Main "HOL-Library.Word"
begin

text \<open>
  What the components share: the faults that end the process (failed assertions, calls of
  abort, exceptions nobody catches, undefined behaviour) as values of a sum type and the bind
  that propagates them, the indexing operator of \<open>std::map\<close>, the narrowing of an integer to
  \<open>int32_t\<close> and \<open>int64_t\<close>, and the generic lemmas on lists and maps that carry the component
  proofs. The collection \<open>model_defs\<close> gathers the small definitions that proofs unfold.
\<close>

named_theorems model_defs "small definitions of the model that component proofs unfold"

section \<open>Faults\<close>

datatype fault =
    AssertFailed      \<comment> \<open>a failed \<open>assert\<close>: the build does not define NDEBUG\<close>
  | AbortCalled       \<comment> \<open>an explicit call of \<open>abort()\<close>\<close>
  | LengthError       \<comment> \<open>\<open>std::length_error\<close> thrown by \<open>resize\<close> of a negative size\<close>
  | OutOfBounds       \<comment> \<open>a read or write past the end of a buffer\<close>
  | SignedOverflow    \<comment> \<open>overflow of a signed loop counter\<close>
  | Uninitialised     \<comment> \<open>a read of a variable that was never assigned\<close>
  | OutOfRange        \<comment> \<open>\<open>std::out_of_range\<close> thrown by \<open>at\<close>\<close>
  | UnlockNotHeld     \<comment> \<open>a thread unlocks a mutex it does not hold, which POSIX leaves undefined\<close>

type_synonym 'a res = "fault + 'a"

definition bindE :: "'e + 'a \<Rightarrow> ('a \<Rightarrow> 'e + 'b) \<Rightarrow> 'e + 'b" where
  "bindE m f = (case m of Inl e \<Rightarrow> Inl e | Inr x \<Rightarrow> f x)"

definition assertE :: "bool \<Rightarrow> unit res" where
  "assertE b = (if b then Inr () else Inl AssertFailed)"

lemma bindE_simps [simp]:
  "bindE (Inl e) f = Inl e"
  "bindE (Inr x) f = f x"
  by (simp_all add: bindE_def)

lemma bindE_eq_Inr: "bindE m f = Inr y \<longleftrightarrow> (\<exists>x. m = Inr x \<and> f x = Inr y)"
  by (cases m) auto

lemma bindE_InrE:
  assumes "bindE m f = Inr y"
  obtains x where "m = Inr x" and "f x = Inr y"
  using assms by (auto simp: bindE_eq_Inr)

lemma bindE_assoc: "bindE (bindE m f) g = bindE m (\<lambda>x. bindE (f x) g)"
  by (cases m) auto

lemma assertE_simps [simp]:
  "assertE True = Inr ()"
  "assertE False = Inl AssertFailed"
  "assertE b = Inr u \<longleftrightarrow> b"
  by (auto simp: assertE_def)

section \<open>The indexing operator of std::map\<close>

text \<open>
  \<open>m[k]\<close> on a \<open>std::map\<close> inserts a value-initialised element when the key is absent. Its value
  is \<open>at_default\<close>, its effect on the map is \<open>touch\<close>.
\<close>

definition at_default :: "'v \<Rightarrow> ('k \<Rightarrow> 'v option) \<Rightarrow> 'k \<Rightarrow> 'v" where
  "at_default d m k = (case m k of None \<Rightarrow> d | Some v \<Rightarrow> v)"

definition touch :: "'v \<Rightarrow> 'k \<Rightarrow> ('k \<Rightarrow> 'v option) \<Rightarrow> ('k \<Rightarrow> 'v option)" where
  "touch d k m = m(k := Some (at_default d m k))"

lemma at_default_upd [simp]:
  "at_default d (m(k := Some v)) k = v"
  "k' \<noteq> k \<Longrightarrow> at_default d (m(k := x)) k' = at_default d m k'"
  by (simp_all add: at_default_def)

lemma at_default_touch [simp]: "at_default d (touch d k m) k' = at_default d m k'"
  by (simp add: at_default_def touch_def)

lemma at_default_Some [simp]: "m k = Some v \<Longrightarrow> at_default d m k = v"
  by (simp add: at_default_def)

lemma at_default_None [simp]: "m k = None \<Longrightarrow> at_default d m k = d"
  by (simp add: at_default_def)

section \<open>Narrowing to the machine widths\<close>

type_synonym byte = "8 word"

definition i32 :: "int \<Rightarrow> int" where
  "i32 x = sint (word_of_int x :: 32 word)"

definition i64 :: "int \<Rightarrow> int" where
  "i64 x = sint (word_of_int x :: 64 word)"

definition in_i32 :: "int \<Rightarrow> bool" where
  "in_i32 x \<longleftrightarrow> - 2147483648 \<le> x \<and> x \<le> 2147483647"

definition in_i64 :: "int \<Rightarrow> bool" where
  "in_i64 x \<longleftrightarrow> - 9223372036854775808 \<le> x \<and> x \<le> 9223372036854775807"

lemma i32_id: "in_i32 x \<Longrightarrow> i32 x = x"
  unfolding i32_def in_i32_def
  by (simp add: signed_of_int signed_take_bit_int_eq_self)

lemma i64_id: "in_i64 x \<Longrightarrow> i64 x = x"
  unfolding i64_def in_i64_def
  by (simp add: signed_of_int signed_take_bit_int_eq_self)

lemma in_i32_i32: "in_i32 (i32 x)"
  using sint_greater_eq [of "word_of_int x :: 32 word"] sint_less [of "word_of_int x :: 32 word"]
  by (simp add: in_i32_def i32_def)

lemma i32_eq_iff: "i32 x = x \<longleftrightarrow> in_i32 x"
  using in_i32_i32 [of x] i32_id by auto

section \<open>Lists\<close>

lemma nth_append_singleton [simp]: "(xs @ [x]) ! length xs = x"
  by simp

lemma take_Suc_snoc: "i < length xs \<Longrightarrow> take (Suc i) xs = take i xs @ [xs ! i]"
  by (rule take_Suc_conv_app_nth)

lemma last_take_nth: "0 < n \<Longrightarrow> n \<le> length xs \<Longrightarrow> last (take n xs) = xs ! (n - 1)"
  by (cases n) (auto simp: take_Suc_conv_app_nth)

lemma nat_eq_length_iff: "0 \<le> i \<Longrightarrow> nat i = n \<longleftrightarrow> i = int n"
  by auto

end
