(* ===== verification/Codec.thy ===== *)
theory Codec
  imports Prelude
begin

text \<open>
  The data of the binlog (\<open>src/binlog.h\<close>, the enum of \<open>proto/airdb_node.proto\<close>) and its
  encodings (\<open>src/binlog.cc\<close>): slot numbers as decimal strings (\<open>IntToString\<close>,
  \<open>StringToInt\<close>) and entries as length-prefixed byte strings (\<open>DumpBinLogEntry\<close>,
  \<open>LoadBinLogEntry\<close>). A \<open>std::string\<close> is a \<open>string\<close>, whose characters are bytes; integers
  are copied with \<open>memcpy\<close>, on a little-endian host.
\<close>

section \<open>Log entries\<close>

datatype binlog_op =
    kPutOp | kGetOp | kDeleteOp | kLockOp | kUnLockOp | kNop
  | kOtherOp nat  \<comment> \<open>a byte cast to the enum that is none of its enumerators\<close>

fun op_code :: "binlog_op \<Rightarrow> nat" where
  "op_code kPutOp = 1"
| "op_code kGetOp = 2"
| "op_code kDeleteOp = 3"
| "op_code kLockOp = 4"
| "op_code kUnLockOp = 5"
| "op_code kNop = 6"
| "op_code (kOtherOp n) = n"

definition op_of_code :: "nat \<Rightarrow> binlog_op" where
  "op_of_code n =
     (if n = 1 then kPutOp else if n = 2 then kGetOp else if n = 3 then kDeleteOp
      else if n = 4 then kLockOp else if n = 5 then kUnLockOp else if n = 6 then kNop
      else kOtherOp n)"

fun op_ok :: "binlog_op \<Rightarrow> bool" where
  "op_ok (kOtherOp n) = (n < 256 \<and> n \<notin> {1, 2, 3, 4, 5, 6})"
| "op_ok _ = True"

lemma op_of_code_op_code [simp]: "op_ok x \<Longrightarrow> op_of_code (op_code x) = x"
  by (cases x) (auto simp: op_of_code_def)

lemma op_code_bound: "op_ok x \<Longrightarrow> op_code x < 256"
  by (cases x) auto

record binlog_entry =
  be_op :: binlog_op
  be_key :: string
  be_value :: string
  be_term :: int

section \<open>Slot numbers as strings\<close>

definition digit :: "nat \<Rightarrow> char" where
  "digit d = char_of (48 + d)"

fun nat_digits :: "nat \<Rightarrow> string" where
  "nat_digits n = (if n < 10 then [digit n] else nat_digits (n div 10) @ [digit (n mod 10)])"

declare nat_digits.simps [simp del]

definition IntToString :: "int \<Rightarrow> string" where
  "IntToString num =
     (if num < 0 then CHR ''-'' # nat_digits (nat (- num)) else nat_digits (nat num))"

definition is_space :: "char \<Rightarrow> bool" where
  "is_space c \<longleftrightarrow> (let n = of_char c in n = (32::nat) \<or> (9 \<le> n \<and> n \<le> 13))"

definition is_digit :: "char \<Rightarrow> bool" where
  "is_digit c \<longleftrightarrow> (let n = of_char c in (48::nat) \<le> n \<and> n \<le> 57)"

fun digits_value :: "nat \<Rightarrow> string \<Rightarrow> nat" where
  "digits_value acc [] = acc"
| "digits_value acc (c # cs) = digits_value (10 * acc + (of_char c - 48)) cs"

definition clamp_i32 :: "int \<Rightarrow> int" where
  "clamp_i32 x = max (- 2147483648) (min 2147483647 x)"

text \<open>
  Extraction of an \<open>int\<close> from a stream skips white space, takes an optional sign and the
  longest run of digits. It stores 0 when there is no digit and the nearest limit of \<open>int\<close>
  on overflow, and leaves the variable alone when nothing but white space is left.
\<close>

definition StringToInt :: "string \<Rightarrow> int res" where
  "StringToInt s =
     (case dropWhile is_space s of
        [] \<Rightarrow> Inl Uninitialised
      | c # cs \<Rightarrow>
          (let neg = (c = CHR ''-'');
               rest = (if neg \<or> c = CHR ''+'' then cs else c # cs);
               ds = takeWhile is_digit rest;
               v = int (digits_value 0 ds)
           in if ds = [] then Inr 0 else Inr (clamp_i32 (if neg then - v else v))))"

lemma of_char_digit: "d < 10 \<Longrightarrow> (of_char (digit d) :: nat) = 48 + d"
  by (simp add: digit_def)

lemma is_digit_digit [simp]: "d < 10 \<Longrightarrow> is_digit (digit d)"
  by (simp add: is_digit_def of_char_digit Let_def)

lemma nat_digits_all_digits: "\<forall>c \<in> set (nat_digits n). is_digit c"
proof (induction n rule: nat_digits.induct)
  case (1 n)
  then show ?case by (cases "n < 10") (auto simp: nat_digits.simps [of n])
qed

lemma nat_digits_nonempty [simp]: "nat_digits n \<noteq> []"
  by (subst nat_digits.simps) simp

lemma digits_value_append:
  "digits_value acc (xs @ [c]) = 10 * digits_value acc xs + (of_char c - 48)"
  by (induction xs arbitrary: acc) auto

lemma digits_value_nat_digits [simp]: "digits_value 0 (nat_digits n) = n"
proof (induction n rule: nat_digits.induct)
  case (1 n)
  show ?case
  proof (cases "n < 10")
    case True
    then show ?thesis by (simp add: nat_digits.simps [of n] of_char_digit)
  next
    case False
    with 1 show ?thesis
      by (simp add: nat_digits.simps [of n] of_char_digit digits_value_append)
  qed
qed

lemma nat_digits_inj: "nat_digits m = nat_digits n \<Longrightarrow> m = n"
  by (metis digits_value_nat_digits)

lemma takeWhile_nat_digits [simp]: "takeWhile is_digit (nat_digits n) = nat_digits n"
  using nat_digits_all_digits by (simp add: takeWhile_eq_all_conv)

lemma nat_digits_Cons:
  obtains c cs where "nat_digits n = c # cs" and "is_digit c"
  using nat_digits_all_digits [of n] by (cases "nat_digits n") auto

lemma is_digit_facts:
  assumes "is_digit c"
  shows "\<not> is_space c" and "c \<noteq> CHR ''-''" and "c \<noteq> CHR ''+''" and "c \<noteq> CHR ''#''"
  using assms by (auto simp: is_digit_def is_space_def Let_def)

lemma IntToString_inj: "IntToString x = IntToString y \<Longrightarrow> x = y"
proof (rule nat_digits_Cons [of "nat x"], rule nat_digits_Cons [of "nat y"])
  fix c cs d ds
  assume "IntToString x = IntToString y"
    and "nat_digits (nat x) = c # cs" "is_digit c" "nat_digits (nat y) = d # ds" "is_digit d"
  then show "x = y"
    using nat_digits_inj [of "nat x" "nat y"] nat_digits_inj [of "nat (- x)" "nat (- y)"]
      is_digit_facts(2) [of c] is_digit_facts(2) [of d]
    by (auto simp: IntToString_def split: if_splits)
qed

lemma IntToString_eq_iff [simp]: "IntToString x = IntToString y \<longleftrightarrow> x = y"
  using IntToString_inj by auto

lemma IntToString_not_tag: "IntToString x \<noteq> CHR ''#'' # s"
  by (rule nat_digits_Cons [of "nat x"]) (auto simp: IntToString_def is_digit_def Let_def)

lemma StringToInt_IntToString: "StringToInt (IntToString x) = Inr (clamp_i32 x)"
proof (cases "x < 0")
  case True
  then show ?thesis
    by (simp add: StringToInt_def IntToString_def is_space_def Let_def)
next
  case False
  obtain c cs where c: "nat_digits (nat x) = c # cs" and "is_digit c" by (rule nat_digits_Cons)
  have tw: "takeWhile is_digit (c # cs) = c # cs"
    using takeWhile_nat_digits [of "nat x"] by (simp only: c)
  have dv: "digits_value 0 (c # cs) = nat x"
    using digits_value_nat_digits [of "nat x"] by (simp only: c)
  from False is_digit_facts [OF \<open>is_digit c\<close>] show ?thesis
    by (simp add: StringToInt_def IntToString_def c Let_def tw dv
        del: takeWhile.simps digits_value.simps)
qed

section \<open>Integers as bytes\<close>

fun le_bytes :: "nat \<Rightarrow> int \<Rightarrow> string" where
  "le_bytes 0 x = []"
| "le_bytes (Suc n) x = char_of (x mod 256) # le_bytes n (x div 256)"

fun le_value :: "string \<Rightarrow> int" where
  "le_value [] = 0"
| "le_value (c # cs) = of_char c + 256 * le_value cs"

lemma length_le_bytes [simp]: "length (le_bytes n x) = n"
  by (induction n arbitrary: x) auto

lemma le_value_le_bytes: "le_value (le_bytes n x) = x mod 256 ^ n"
proof (induction n arbitrary: x)
  case 0
  then show ?case by simp
next
  case (Suc n)
  then show ?case by (simp add: mod_mult2_eq zmod_zmult2_eq)
qed

lemma i32_mod: "i32 (x mod 256 ^ 4) = i32 x"
proof -
  have "(word_of_int (x mod 256 ^ 4) :: 32 word) = word_of_int x"
    by (simp add: word_of_int_eq_iff take_bit_eq_mod)
  then show ?thesis by (simp only: i32_def)
qed

lemma i64_mod: "i64 (x mod 256 ^ 8) = i64 x"
proof -
  have "(word_of_int (x mod 256 ^ 8) :: 64 word) = word_of_int x"
    by (simp add: word_of_int_eq_iff take_bit_eq_mod)
  then show ?thesis by (simp only: i64_def)
qed

lemma i32_le_value: "i32 (le_value (le_bytes 4 x)) = i32 x"
  by (simp only: le_value_le_bytes i32_mod)

lemma i64_le_value: "i64 (le_value (le_bytes 8 x)) = i64 x"
  by (simp only: le_value_le_bytes i64_mod)

section \<open>Entries as bytes\<close>

text \<open>
  \<open>DumpBinLogEntry\<close> sizes its buffer with an \<open>int32_t\<close>: a sum that wraps to a negative number
  makes \<open>resize\<close> throw, one that wraps to a smaller number makes the copies run past the buffer.
\<close>

definition entry_size :: "binlog_entry \<Rightarrow> int" where
  "entry_size e = 1 + (4 + int (length (be_key e))) + (4 + int (length (be_value e))) + 8"

definition DumpBinLogEntry :: "binlog_entry \<Rightarrow> string res" where
  "DumpBinLogEntry e =
     (let total_len = i32 (entry_size e);
          key_size = i32 (int (length (be_key e)));
          value_size = i32 (int (length (be_value e)))
      in if total_len < 0 then Inl LengthError
         else if total_len < entry_size e then Inl OutOfBounds
         else Inr ([char_of (op_code (be_op e))]
                   @ le_bytes 4 key_size @ be_key e
                   @ le_bytes 4 value_size @ be_value e
                   @ le_bytes 8 (be_term e)))"

definition read_bytes :: "nat \<Rightarrow> string \<Rightarrow> (string \<times> string) res" where
  "read_bytes n p = (if length p < n then Inl OutOfBounds else Inr (take n p, drop n p))"

text \<open>
  \<open>data()\<close> is followed by a terminating NUL, which may be read; anything beyond is out of
  bounds. A size read from the buffer that is negative makes \<open>resize\<close> throw.
\<close>

definition LoadBinLogEntry :: "string \<Rightarrow> binlog_entry res" where
  "LoadBinLogEntry buf =
     bindE (read_bytes 1 (buf @ [CHR 0x00])) (\<lambda>(opcode, p).
     bindE (read_bytes 4 p) (\<lambda>(ks, p).
       let key_size = i32 (le_value ks) in
       if key_size < 0 then Inl LengthError else
     bindE (read_bytes (nat key_size) p) (\<lambda>(key, p).
     bindE (read_bytes 4 p) (\<lambda>(vs, p).
       let value_size = i32 (le_value vs) in
       if value_size < 0 then Inl LengthError else
     bindE (read_bytes (nat value_size) p) (\<lambda>(val, p).
     bindE (read_bytes 8 p) (\<lambda>(tm, p).
       Inr \<lparr>be_op = op_of_code (of_char (opcode ! 0)), be_key = key, be_value = val,
            be_term = i64 (le_value tm)\<rparr>))))))"

text \<open>The entries that fit: a defined opcode byte, an \<open>int64_t\<close> term, a size an \<open>int32_t\<close> holds.\<close>

definition entry_ok :: "binlog_entry \<Rightarrow> bool" where
  "entry_ok e \<longleftrightarrow> op_ok (be_op e) \<and> in_i64 (be_term e) \<and> in_i32 (entry_size e)"

lemma read_bytes_append [simp]: "read_bytes (length xs) (xs @ ys) = Inr (xs, ys)"
  by (simp add: read_bytes_def)

lemma read_bytes_appendI: "length xs = n \<Longrightarrow> read_bytes n (xs @ ys) = Inr (xs, ys)"
  by (auto simp: read_bytes_def)

lemma read_bytes_1 [simp]: "read_bytes (Suc 0) (c # cs) = Inr ([c], cs)"
  by (simp add: read_bytes_def)

lemma entry_ok_sizes:
  assumes "entry_ok e"
  shows "i32 (int (length (be_key e))) = int (length (be_key e))"
    and "i32 (int (length (be_value e))) = int (length (be_value e))"
    and "i32 (entry_size e) = entry_size e"
  using assms by (auto intro!: i32_id simp: entry_ok_def in_i32_def entry_size_def)

lemma Dump_ok:
  "entry_ok e \<Longrightarrow> DumpBinLogEntry e =
     Inr ([char_of (op_code (be_op e))]
          @ le_bytes 4 (int (length (be_key e))) @ be_key e
          @ le_bytes 4 (int (length (be_value e))) @ be_value e
          @ le_bytes 8 (be_term e))"
  by (simp add: DumpBinLogEntry_def entry_ok_sizes) (simp add: entry_size_def)

lemma Load_Dump:
  assumes ok: "entry_ok e" and dump: "DumpBinLogEntry e = Inr buf"
  shows "LoadBinLogEntry buf = Inr e"
proof -
  let ?k = "be_key e" and ?v = "be_value e"
  let ?tm = "le_bytes 8 (be_term e) @ [CHR 0x00]"
  have buf: "buf @ [CHR 0x00] = [char_of (op_code (be_op e))] @ le_bytes 4 (int (length ?k)) @
      ?k @ le_bytes 4 (int (length ?v)) @ ?v @ ?tm"
    using dump by (simp add: Dump_ok [OF ok])
  have op: "op_of_code (op_code (be_op e) mod 256) = be_op e"
    using ok op_code_bound [of "be_op e"] by (simp add: entry_ok_def)
  have tm: "i64 (be_term e) = be_term e"
    using ok by (auto intro: i64_id simp: entry_ok_def)
  show ?thesis
    unfolding LoadBinLogEntry_def buf
    by (simp add: read_bytes_appendI Let_def i32_le_value i64_le_value entry_ok_sizes [OF ok] op tm)
qed

lemma Dump_total: "entry_ok e \<Longrightarrow> \<exists>buf. DumpBinLogEntry e = Inr buf"
  by (simp add: Dump_ok)

lemma Dump_Inr_iff: "(\<exists>buf. DumpBinLogEntry e = Inr buf) \<longleftrightarrow> in_i32 (entry_size e)"
proof
  assume "\<exists>buf. DumpBinLogEntry e = Inr buf"
  then have "\<not> i32 (entry_size e) < entry_size e"
    by (auto simp: DumpBinLogEntry_def Let_def split: if_splits)
  moreover have "i32 (entry_size e) \<le> 2147483647"
    using in_i32_i32 by (simp add: in_i32_def)
  moreover have "0 \<le> entry_size e" by (simp add: entry_size_def)
  ultimately show "in_i32 (entry_size e)" by (simp add: in_i32_def)
next
  assume "in_i32 (entry_size e)"
  moreover have "0 \<le> entry_size e" by (simp add: entry_size_def)
  ultimately show "\<exists>buf. DumpBinLogEntry e = Inr buf"
    by (simp add: DumpBinLogEntry_def Let_def i32_id)
qed

section \<open>Properties\<close>

text \<open>
  C26: An entry that fits (a defined opcode byte, an \<open>int64_t\<close> term and a total size an
  \<open>int32_t\<close> holds) is encoded without fault, and decoding the bytes gives the same entry back.
\<close>

theorem entry_round_trip:
  assumes "entry_ok e"
  shows "bindE (DumpBinLogEntry e) LoadBinLogEntry = Inr e"
  using Dump_total [OF assms] Load_Dump [OF assms] by auto

definition sample_entry :: binlog_entry where
  "sample_entry = \<lparr>be_op = kPutOp, be_key = ''k'', be_value = ''value'', be_term = 7\<rparr>"

lemma sample_entry_ok [simp]: "entry_ok sample_entry"
  by (simp add: entry_ok_def sample_entry_def entry_size_def in_i32_def in_i64_def)

theorem entry_round_trip_witness:
  "bindE (DumpBinLogEntry sample_entry) LoadBinLogEntry = Inr sample_entry"
  by (rule entry_round_trip) simp

text \<open>
  The encoder succeeds exactly when the total size of the entry fits an \<open>int32_t\<close>, and then
  its output has exactly that size; otherwise the size wraps and the process dies.
\<close>

lemma dump_size:
  "(case DumpBinLogEntry e of
      Inl f \<Rightarrow> \<not> in_i32 (entry_size e) \<and> f \<in> {LengthError, OutOfBounds}
    | Inr buf \<Rightarrow> in_i32 (entry_size e) \<and> int (length buf) = entry_size e)"
proof (cases "in_i32 (entry_size e)")
  case True
  then obtain buf where buf: "DumpBinLogEntry e = Inr buf" using Dump_Inr_iff by blast
  then have "int (length buf) = entry_size e"
    by (auto simp: DumpBinLogEntry_def Let_def entry_size_def split: if_splits)
  with buf True show ?thesis by simp
next
  case False
  then have "DumpBinLogEntry e \<noteq> Inr buf" for buf using Dump_Inr_iff by blast
  then obtain f where f: "DumpBinLogEntry e = Inl f" by (cases "DumpBinLogEntry e") auto
  then have "f \<in> {LengthError, OutOfBounds}"
    by (auto simp: DumpBinLogEntry_def Let_def split: if_splits)
  with f False show ?thesis by simp
qed

text \<open>
  The keys of the log are unambiguous (different slots have different keys, none is the
  length's key) and a number is read back from its decimal form exactly when it fits an \<open>int\<close>;
  any other is read as the nearest limit.
\<close>

lemma slot_keys:
  "(IntToString x = IntToString y \<longleftrightarrow> x = y) \<and> IntToString x \<noteq> CHR ''#'' # s \<and>
   StringToInt (IntToString x) = Inr (clamp_i32 x) \<and>
   (StringToInt (IntToString x) = Inr x \<longleftrightarrow> in_i32 x)"
  using IntToString_not_tag
  by (auto simp: StringToInt_IntToString clamp_i32_def in_i32_def)

end
