(* ===== verification/LevelDB.thy ===== *)
theory LevelDB
  imports Codec
begin

text \<open>
  LevelDB is not part of the repository (the Makefile links a patched copy from
  \<open>thirdparty/leveldb\<close>). Its operations are a parameter of the model: a record of functions on
  an unknown database type, passed to every definition that calls them. The locale
  \<open>leveldb_laws\<close> states what the code relies on for calls that report success, in terms of the
  database's content; \<open>leveldb_available\<close> adds that no call reports an I/O error. The operation
  \<open>ldb_gc\<close> is the patched-in \<open>SetDBGCKey\<close>: all the code relies on is that it never touches a key
  other than a slot number below the given index.
\<close>

datatype get_result = Got string | NotFound | GetFailed

record 'db leveldb =
  ldb_get :: "'db \<Rightarrow> string \<Rightarrow> get_result"
  ldb_put :: "'db \<Rightarrow> string \<Rightarrow> string \<Rightarrow> 'db \<times> bool"
  ldb_delete :: "'db \<Rightarrow> string \<Rightarrow> 'db \<times> bool"
  ldb_write :: "'db \<Rightarrow> (string \<times> string) list \<Rightarrow> 'db \<times> bool"
  ldb_gc :: "'db \<Rightarrow> int \<Rightarrow> 'db"

text \<open>The effect of a write batch of puts, in the order they were added.\<close>

fun put_all :: "(string \<Rightarrow> string option) \<Rightarrow> (string \<times> string) list \<Rightarrow> (string \<Rightarrow> string option)" where
  "put_all m [] = m"
| "put_all m ((k, v) # kvs) = put_all (m(k := Some v)) kvs"

lemma put_all_append [simp]: "put_all m (xs @ ys) = put_all (put_all m xs) ys"
  by (induction xs arbitrary: m) auto

lemma put_all_other: "k \<notin> fst ` set kvs \<Longrightarrow> put_all m kvs k = m k"
  by (induction kvs arbitrary: m) auto

section \<open>The laws\<close>

locale leveldb_laws =
  fixes L :: "'db leveldb"
    and content :: "'db \<Rightarrow> string \<Rightarrow> string option"
  assumes get_found: "ldb_get L d k = Got v \<Longrightarrow> content d k = Some v"
    and get_missing: "ldb_get L d k = NotFound \<Longrightarrow> content d k = None"
    and put_ok: "ldb_put L d k v = (d', True) \<Longrightarrow> content d' = (content d)(k := Some v)"
    and delete_ok: "ldb_delete L d k = (d', True) \<Longrightarrow> content d' = (content d)(k := None)"
    and write_ok: "ldb_write L d kvs = (d', True) \<Longrightarrow> content d' = put_all (content d) kvs"
    and gc_keeps: "(\<And>i. i < n \<Longrightarrow> k \<noteq> IntToString i) \<Longrightarrow> content (ldb_gc L d n) k = content d k"
begin

lemma get_cases:
  obtains v where "ldb_get L d k = Got v" and "content d k = Some v"
  | "ldb_get L d k = NotFound" and "content d k = None"
  | "ldb_get L d k = GetFailed"
  by (cases "ldb_get L d k") (auto dest: get_found get_missing)

end

text \<open>No call reports an I/O error.\<close>

locale leveldb_available = leveldb_laws +
  assumes get_avail: "ldb_get L d k \<noteq> GetFailed"
    and put_avail: "snd (ldb_put L d k v)"
    and delete_avail: "snd (ldb_delete L d k)"
    and write_avail: "snd (ldb_write L d kvs)"
begin

lemma get_eq: "ldb_get L d k = (case content d k of Some v \<Rightarrow> Got v | None \<Rightarrow> NotFound)"
  using get_avail [of d k] by (cases rule: get_cases [of d k]) auto

lemma put_content [simp]: "content (fst (ldb_put L d k v)) = (content d)(k := Some v)"
  using put_ok [of d k v "fst (ldb_put L d k v)"] put_avail [of d k v]
  by (metis prod.collapse)

lemma delete_content [simp]: "content (fst (ldb_delete L d k)) = (content d)(k := None)"
  using delete_ok [of d k "fst (ldb_delete L d k)"] delete_avail [of d k]
  by (metis prod.collapse)

lemma write_content [simp]: "content (fst (ldb_write L d kvs)) = put_all (content d) kvs"
  using write_ok [of d kvs "fst (ldb_write L d kvs)"] write_avail [of d kvs]
  by (metis prod.collapse)

end

section \<open>A concrete database\<close>

text \<open>
  An association list with the newest binding first satisfies the laws. It instantiates the
  parameter in the witnesses, where definitions are evaluated; no property is about it.
\<close>

type_synonym mem_db = "(string \<times> string) list"

definition mem_get :: "mem_db \<Rightarrow> string \<Rightarrow> get_result" where
  "mem_get d k = (case map_of d k of Some v \<Rightarrow> Got v | None \<Rightarrow> NotFound)"

definition mem_put :: "mem_db \<Rightarrow> string \<Rightarrow> string \<Rightarrow> mem_db \<times> bool" where
  "mem_put d k v = ((k, v) # filter (\<lambda>b. fst b \<noteq> k) d, True)"

definition mem_delete :: "mem_db \<Rightarrow> string \<Rightarrow> mem_db \<times> bool" where
  "mem_delete d k = (filter (\<lambda>b. fst b \<noteq> k) d, True)"

fun mem_write_all :: "mem_db \<Rightarrow> (string \<times> string) list \<Rightarrow> mem_db" where
  "mem_write_all d [] = d"
| "mem_write_all d ((k, v) # kvs) = mem_write_all (fst (mem_put d k v)) kvs"

definition mem_gc :: "mem_db \<Rightarrow> int \<Rightarrow> mem_db" where
  "mem_gc d n = filter (\<lambda>b. fst b \<notin> set (map IntToString [0..n - 1])) d"

definition mem_leveldb :: "mem_db leveldb" where
  "mem_leveldb = \<lparr>ldb_get = mem_get, ldb_put = mem_put, ldb_delete = mem_delete,
     ldb_write = (\<lambda>d kvs. (mem_write_all d kvs, True)), ldb_gc = mem_gc\<rparr>"

lemma map_of_filter_neq: "map_of (filter (\<lambda>b. fst b \<noteq> k) d) = (map_of d)(k := None)"
  by (induction d) (auto simp: fun_eq_iff)

lemma mem_put_content: "map_of (fst (mem_put d k v)) = (map_of d)(k := Some v)"
  by (simp add: mem_put_def map_of_filter_neq fun_eq_iff)

lemma mem_write_content: "map_of (mem_write_all d kvs) = put_all (map_of d) kvs"
  by (induction kvs arbitrary: d) (auto simp: mem_put_content)

lemma map_of_filter_key: "P k \<Longrightarrow> map_of (filter (\<lambda>b. P (fst b)) d) k = map_of d k"
  by (induction d) auto

lemma mem_gc_content: "(\<And>i. i < n \<Longrightarrow> k \<noteq> IntToString i) \<Longrightarrow> map_of (mem_gc d n) k = map_of d k"
  unfolding mem_gc_def by (rule map_of_filter_key) fastforce

interpretation mem: leveldb_available mem_leveldb map_of
  by unfold_locales
    (auto simp: mem_leveldb_def mem_get_def mem_delete_def map_of_filter_neq mem_write_content
      mem_put_def mem_gc_content split: option.splits)

end
