(* ===== verification/Binlog.thy ===== *)
theory Binlog
  imports LevelDB
begin

text \<open>
  \<open>BinLogger\<close> of \<open>src/binlog.h\<close> and \<open>src/binlog.cc\<close>: the replicated log kept in a LevelDB
  database, one record per slot under its decimal number, and the length of the log under
  \<open>length_tag\<close>. The length and the term of the last entry are cached in memory. The
  entries arrive over the wire as \<open>Entry\<close> messages.
\<close>

section \<open>State and operations\<close>

definition length_tag :: string where
  "length_tag = ''#BINLOG_LEN#''"

record 'db binlogger =
  bl_db :: 'db
  bl_length :: int
  bl_last_log_term :: int

text \<open>The \<open>Entry\<close> message; an unset \<open>op\<close> reads as the first enumerator.\<close>

record pb_entry =
  pe_key :: string
  pe_value :: string
  pe_term :: int
  pe_op :: "binlog_op option"

definition pe_get_op :: "pb_entry \<Rightarrow> binlog_op" where
  "pe_get_op p = (case pe_op p of None \<Rightarrow> kPutOp | Some x \<Rightarrow> x)"

definition ReadSlot :: "'db leveldb \<Rightarrow> 'db binlogger \<Rightarrow> int \<Rightarrow> binlog_entry option res" where
  "ReadSlot L b slot_index =
     (case ldb_get L (bl_db b) (IntToString slot_index) of
        Got value \<Rightarrow> bindE (LoadBinLogEntry value) (\<lambda>e. Inr (Some e))
      | NotFound \<Rightarrow> Inr None
      | GetFailed \<Rightarrow> Inl AbortCalled)"

text \<open>The read that the code follows with \<open>assert(slot_ok)\<close>.\<close>

definition ReadSlot_assert :: "'db leveldb \<Rightarrow> 'db binlogger \<Rightarrow> int \<Rightarrow> binlog_entry res" where
  "ReadSlot_assert L b i =
     bindE (ReadSlot L b i) (\<lambda>r. case r of None \<Rightarrow> Inl AssertFailed | Some e \<Rightarrow> Inr e)"

text \<open>The constructor, on the database that was opened.\<close>

definition BinLogger_open :: "'db leveldb \<Rightarrow> 'db \<Rightarrow> 'db binlogger res" where
  "BinLogger_open L db =
     (let b0 = \<lparr>bl_db = db, bl_length = 0, bl_last_log_term = -1\<rparr> in
      case ldb_get L db length_tag of
        Got value \<Rightarrow>
          if value = [] then Inr b0
          else bindE (StringToInt value) (\<lambda>len.
            if len > 0
            then bindE (ReadSlot_assert L b0 (len - 1)) (\<lambda>e.
                   Inr (b0\<lparr>bl_length := len, bl_last_log_term := be_term e\<rparr>))
            else Inr (b0\<lparr>bl_length := len\<rparr>))
      | _ \<Rightarrow> Inr b0)"

definition Truncate :: "'db leveldb \<Rightarrow> 'db binlogger \<Rightarrow> int \<Rightarrow> 'db binlogger res" where
  "Truncate L b trunk_slot_index =
     (let len = (if trunk_slot_index < -1 then -1 else trunk_slot_index) + 1;
          (db', ok) = ldb_put L (bl_db b) length_tag (IntToString len);
          b' = b\<lparr>bl_db := db', bl_length := len\<rparr>
      in if \<not> ok then Inl AssertFailed
         else if len > 0
         then bindE (ReadSlot_assert L b' (len - 1)) (\<lambda>e.
                Inr (b'\<lparr>bl_last_log_term := be_term e\<rparr>))
         else Inr b')"

definition GetLastLogIndexAndTerm :: "'db binlogger \<Rightarrow> int \<times> int" where
  "GetLastLogIndexAndTerm b = (bl_length b - 1, bl_last_log_term b)"

definition GetLength :: "'db binlogger \<Rightarrow> int" where
  "GetLength b = bl_length b"

definition WriteEntry :: "'db leveldb \<Rightarrow> 'db binlogger \<Rightarrow> binlog_entry \<Rightarrow> 'db binlogger res" where
  "WriteEntry L b e =
     bindE (DumpBinLogEntry e) (\<lambda>log_str.
       let (db', ok) = ldb_write L (bl_db b)
             [(IntToString (bl_length b), log_str), (length_tag, IntToString (bl_length b + 1))]
       in if ok
          then Inr (b\<lparr>bl_db := db', bl_length := bl_length b + 1, bl_last_log_term := be_term e\<rparr>)
          else Inl AssertFailed)"

definition entry_of_pb :: "pb_entry \<Rightarrow> binlog_entry" where
  "entry_of_pb p =
     \<lparr>be_op = pe_get_op p, be_key = pe_key p, be_value = pe_value p, be_term = pe_term p\<rparr>"

text \<open>The loop that fills the write batch; \<open>i\<close> is the slot of the next entry.\<close>

fun entry_batch :: "int \<Rightarrow> pb_entry list \<Rightarrow> (string \<times> string) list res" where
  "entry_batch i [] = Inr []"
| "entry_batch i (p # ps) =
     bindE (DumpBinLogEntry (entry_of_pb p)) (\<lambda>log_str.
     bindE (entry_batch (i + 1) ps) (\<lambda>kvs. Inr ((IntToString i, log_str) # kvs)))"

definition WriteEntryList :: "'db leveldb \<Rightarrow> 'db binlogger \<Rightarrow> pb_entry list \<Rightarrow> 'db binlogger res" where
  "WriteEntryList L b entries =
     (let n = int (length entries) in
      bindE (entry_batch (bl_length b) entries) (\<lambda>kvs.
        let (db', ok) = ldb_write L (bl_db b) (kvs @ [(length_tag, IntToString (bl_length b + n))])
        in if ok
           then Inr (b\<lparr>bl_db := db', bl_length := bl_length b + n,
                  bl_last_log_term := (if entries = [] then bl_last_log_term b
                                       else pe_term (last entries))\<rparr>)
           else Inl AssertFailed))"

definition RemoveSlotBefore :: "'db leveldb \<Rightarrow> 'db binlogger \<Rightarrow> int \<Rightarrow> 'db binlogger" where
  "RemoveSlotBefore L b slot_gc_index = b\<lparr>bl_db := ldb_gc L (bl_db b) slot_gc_index\<rparr>"

lemma length_tag_not_slot [simp]: "IntToString i \<noteq> length_tag" "length_tag \<noteq> IntToString i"
  unfolding length_tag_def using IntToString_not_tag by (blast, metis)

end
