(* ===== verification/BinlogSpec.thy ===== *)
theory BinlogSpec
  imports Binlog
begin

text \<open>
  What a \<open>BinLogger\<close> promises. The relation \<open>binlog_rel\<close> says which list of entries a logger
  holds; under the laws of LevelDB the operations refine \<open>append\<close>, \<open>take\<close> and \<open>nth\<close> on that
  list, and reopening the database gives the list back.
\<close>

section \<open>The list a logger holds\<close>

text \<open>
  \<open>lo\<close> is the first slot that garbage collection has not given up; the entries below it are
  history. An empty log says nothing about the cached term: \<open>Truncate\<close> leaves it alone.
\<close>

definition slot_holds ::
  "('db \<Rightarrow> string \<Rightarrow> string option) \<Rightarrow> 'db \<Rightarrow> int \<Rightarrow> binlog_entry \<Rightarrow> bool" where
  "slot_holds content d i e \<longleftrightarrow>
     (\<exists>buf. content d (IntToString i) = Some buf \<and> DumpBinLogEntry e = Inr buf)"

definition length_saved :: "('db \<Rightarrow> string \<Rightarrow> string option) \<Rightarrow> 'db binlogger \<Rightarrow> bool" where
  "length_saved content b \<longleftrightarrow>
     content (bl_db b) length_tag = Some (IntToString (bl_length b)) \<or>
     content (bl_db b) length_tag = None \<and> bl_length b = 0"

definition binlog_rel ::
  "('db \<Rightarrow> string \<Rightarrow> string option) \<Rightarrow> int \<Rightarrow> 'db binlogger \<Rightarrow> binlog_entry list \<Rightarrow> bool" where
  "binlog_rel content lo b log \<longleftrightarrow>
     0 \<le> lo \<and> bl_length b = int (length log) \<and> length_saved content b \<and>
     (\<forall>e \<in> set log. entry_ok e) \<and>
     (\<forall>i < length log. lo \<le> int i \<longrightarrow> slot_holds content (bl_db b) (int i) (log ! i)) \<and>
     (log \<noteq> [] \<longrightarrow> bl_last_log_term b = be_term (last log))"

lemma binlog_relI [intro?]:
  assumes "0 \<le> lo" and "bl_length b = int (length log)" and "length_saved content b"
    and "\<And>e. e \<in> set log \<Longrightarrow> entry_ok e"
    and "\<And>i. i < length log \<Longrightarrow> lo \<le> int i \<Longrightarrow> slot_holds content (bl_db b) (int i) (log ! i)"
    and "log \<noteq> [] \<Longrightarrow> bl_last_log_term b = be_term (last log)"
  shows "binlog_rel content lo b log"
  using assms by (simp add: binlog_rel_def)

lemma binlog_rel_lo: "binlog_rel content lo b log \<Longrightarrow> 0 \<le> lo"
  by (simp add: binlog_rel_def)

lemma binlog_rel_length: "binlog_rel content lo b log \<Longrightarrow> bl_length b = int (length log)"
  by (simp add: binlog_rel_def)

lemma binlog_rel_ok: "binlog_rel content lo b log \<Longrightarrow> e \<in> set log \<Longrightarrow> entry_ok e"
  by (simp add: binlog_rel_def)

lemma binlog_rel_last:
  "binlog_rel content lo b log \<Longrightarrow> log \<noteq> [] \<Longrightarrow> bl_last_log_term b = be_term (last log)"
  by (simp add: binlog_rel_def)

lemma binlog_rel_slot:
  "binlog_rel content lo b log \<Longrightarrow> lo \<le> i \<Longrightarrow> i < int (length log) \<Longrightarrow>
     slot_holds content (bl_db b) i (log ! nat i)"
  unfolding binlog_rel_def by (elim conjE, drule spec [of _ "nat i"]) auto

lemma binlog_rel_lo_mono:
  "binlog_rel content lo b log \<Longrightarrow> lo \<le> lo' \<Longrightarrow> binlog_rel content lo' b log"
  by (auto simp: binlog_rel_def)

lemma slot_holds_upd:
  "slot_holds content d' i e" if "content d' = (content d)(k := x)" "k \<noteq> IntToString i"
    "slot_holds content d i e"
  using that by (auto simp: slot_holds_def)

section \<open>Write batches\<close>

definition pb_of_entry :: "binlog_entry \<Rightarrow> pb_entry" where
  "pb_of_entry e = \<lparr>pe_key = be_key e, pe_value = be_value e, pe_term = be_term e,
     pe_op = Some (be_op e)\<rparr>"

lemma entry_of_pb_of_entry [simp]: "entry_of_pb (pb_of_entry e) = e"
  by (simp add: entry_of_pb_def pb_of_entry_def pe_get_op_def)

lemma be_term_entry_of_pb [simp]: "be_term (entry_of_pb p) = pe_term p"
  by (simp add: entry_of_pb_def)

lemma pe_term_pb_of_entry [simp]: "pe_term (pb_of_entry e) = be_term e"
  by (simp add: pb_of_entry_def)

lemma WriteEntry_as_list: "WriteEntry L b e = WriteEntryList L b [pb_of_entry e]"
  by (cases "DumpBinLogEntry e")
    (simp_all add: WriteEntry_def WriteEntryList_def Let_def cong: if_cong split: prod.split)

lemma entry_batch_total:
  "\<forall>p \<in> set ps. entry_ok (entry_of_pb p) \<Longrightarrow> \<exists>kvs. entry_batch i ps = Inr kvs"
proof (induction ps arbitrary: i)
  case Nil
  then show ?case by simp
next
  case (Cons p ps)
  then obtain buf kvs where "DumpBinLogEntry (entry_of_pb p) = Inr buf"
    and "entry_batch (i + 1) ps = Inr kvs"
    using Dump_total [of "entry_of_pb p"] by fastforce
  then show ?case by simp
qed

lemma entry_batch_other:
  assumes "entry_batch i ps = Inr kvs" and "\<And>j. i \<le> j \<Longrightarrow> j < i + int (length ps) \<Longrightarrow> k \<noteq> IntToString j"
  shows "put_all m kvs k = m k"
  using assms
proof (induction ps arbitrary: i kvs m)
  case Nil
  then show ?case by simp
next
  case (Cons p ps)
  from Cons.prems(1) obtain buf kvs' where "entry_batch (i + 1) ps = Inr kvs'"
    and kvs: "kvs = (IntToString i, buf) # kvs'"
    by (auto simp: bindE_eq_Inr)
  have "k \<noteq> IntToString j" if "i + 1 \<le> j" "j < i + 1 + int (length ps)" for j
    using Cons.prems(2) [of j] that by simp
  with \<open>entry_batch (i + 1) ps = Inr kvs'\<close>
  have "put_all (m(IntToString i := Some buf)) kvs' k = (m(IntToString i := Some buf)) k"
    by (rule Cons.IH)
  moreover have "k \<noteq> IntToString i" using Cons.prems(2) [of i] by simp
  ultimately show ?case by (simp add: kvs)
qed

lemma entry_batch_slot:
  assumes "entry_batch i ps = Inr kvs" and "j < length ps"
  shows "\<exists>buf. put_all m kvs (IntToString (i + int j)) = Some buf \<and>
           DumpBinLogEntry (entry_of_pb (ps ! j)) = Inr buf"
  using assms
proof (induction ps arbitrary: i j kvs m)
  case Nil
  then show ?case by simp
next
  case (Cons p ps)
  from Cons.prems(1) obtain buf kvs' where buf: "DumpBinLogEntry (entry_of_pb p) = Inr buf"
    and kvs': "entry_batch (i + 1) ps = Inr kvs'" and kvs: "kvs = (IntToString i, buf) # kvs'"
    by (auto simp: bindE_eq_Inr)
  show ?case
  proof (cases j)
    case 0
    have "put_all (m(IntToString i := Some buf)) kvs' (IntToString i) = Some buf"
      by (subst entry_batch_other [OF kvs']) auto
    with 0 buf show ?thesis by (simp add: kvs)
  next
    case (Suc j')
    with Cons.prems(2) have "j' < length ps" by simp
    from Cons.IH [OF kvs' this] obtain b where
      "put_all (m(IntToString i := Some buf)) kvs' (IntToString (i + 1 + int j')) = Some b"
      "DumpBinLogEntry (entry_of_pb (ps ! j')) = Inr b" by blast
    then show ?thesis by (auto simp: kvs Suc algebra_simps)
  qed
qed

lemma WriteEntryList_InrE:
  assumes "WriteEntryList L b ps = Inr b'"
  obtains kvs d' where "entry_batch (bl_length b) ps = Inr kvs"
    and "ldb_write L (bl_db b) (kvs @ [(length_tag, IntToString (bl_length b + int (length ps)))]) =
      (d', True)"
    and "b' = b\<lparr>bl_db := d', bl_length := bl_length b + int (length ps),
      bl_last_log_term := (if ps = [] then bl_last_log_term b else pe_term (last ps))\<rparr>"
proof -
  from assms obtain kvs where kvs: "entry_batch (bl_length b) ps = Inr kvs"
    and r: "(let (db', ok) = ldb_write L (bl_db b)
              (kvs @ [(length_tag, IntToString (bl_length b + int (length ps)))])
        in if ok
           then Inr (b\<lparr>bl_db := db', bl_length := bl_length b + int (length ps),
                  bl_last_log_term := (if ps = [] then bl_last_log_term b
                                       else pe_term (last ps))\<rparr>)
           else Inl AssertFailed) = Inr b'"
    unfolding WriteEntryList_def Let_def by (rule bindE_InrE)
  obtain d' ok where "ldb_write L (bl_db b)
      (kvs @ [(length_tag, IntToString (bl_length b + int (length ps)))]) = (d', ok)"
    by fastforce
  with r kvs show thesis by (cases ok) (auto intro: that)
qed

section \<open>Refinement under the laws of LevelDB\<close>

context leveldb_laws
begin

lemma ReadSlot_holds:
  assumes "slot_holds content (bl_db b) i e" and "entry_ok e" and "ReadSlot L b i = Inr r"
  shows "r = Some e"
  using assms
  by (cases rule: get_cases [of "bl_db b" "IntToString i"])
    (auto simp: ReadSlot_def slot_holds_def Load_Dump)

lemma WriteEntryList_rel:
  assumes rel: "binlog_rel content lo b log"
    and ok: "\<forall>p \<in> set ps. entry_ok (entry_of_pb p)"
    and run: "WriteEntryList L b ps = Inr b'"
  shows "binlog_rel content lo b' (log @ map entry_of_pb ps)"
proof -
  let ?n = "int (length log)"
  from run obtain kvs d' where batch: "entry_batch ?n ps = Inr kvs"
    and wr: "ldb_write L (bl_db b) (kvs @ [(length_tag, IntToString (?n + int (length ps)))]) =
      (d', True)"
    and b': "b' = b\<lparr>bl_db := d', bl_length := ?n + int (length ps),
      bl_last_log_term := (if ps = [] then bl_last_log_term b else pe_term (last ps))\<rparr>"
    unfolding binlog_rel_length [OF rel, symmetric] by (rule WriteEntryList_InrE)
  have c: "content d' = (put_all (content (bl_db b)) kvs)
      (length_tag := Some (IntToString (?n + int (length ps))))"
    using write_ok [OF wr] by simp
  have "slot_holds content d' (int i) ((log @ map entry_of_pb ps) ! i)"
    if i: "i < length log + length ps" "lo \<le> int i" for i
  proof (cases "i < length log")
    case True
    have "put_all (content (bl_db b)) kvs (IntToString (int i)) =
        content (bl_db b) (IntToString (int i))"
      using True by (intro entry_batch_other [OF batch]) auto
    with binlog_rel_slot [OF rel, of "int i"] i True show ?thesis
      by (simp add: slot_holds_def c nth_append)
  next
    case False
    then obtain j where j: "i = length log + j" by (metis le_iff_add not_le)
    with i have "j < length ps" by simp
    from entry_batch_slot [OF batch this, of "content (bl_db b)"] \<open>j < length ps\<close>
    show ?thesis by (simp add: slot_holds_def c j)
  qed
  moreover have "bl_last_log_term b' = be_term (last (log @ map entry_of_pb ps))"
    if "log @ map entry_of_pb ps \<noteq> []"
    using that binlog_rel_last [OF rel] by (cases "ps = []") (simp_all add: b' last_map)
  moreover have "length_saved content b'" by (simp add: length_saved_def b' c)
  ultimately show ?thesis
    using binlog_rel_ok [OF rel] ok binlog_rel_lo [OF rel]
    by (intro binlog_relI) (auto simp: b')
qed

lemma WriteEntry_rel:
  assumes "binlog_rel content lo b log" and "entry_ok e" and "WriteEntry L b e = Inr b'"
  shows "binlog_rel content lo b' (log @ [e])"
  using WriteEntryList_rel [OF assms(1), of "[pb_of_entry e]" b'] assms(2,3)
  by (simp add: WriteEntry_as_list)

lemma Truncate_rel:
  assumes rel: "binlog_rel content lo b log" and i: "i + 1 \<le> bl_length b" "lo \<le> i \<or> i \<le> -1"
    and run: "Truncate L b i = Inr b'"
  shows "binlog_rel content lo b' (take (nat (i + 1)) log)"
proof -
  let ?i = "if i < -1 then -1 else i"
  let ?log = "take (nat (i + 1)) log"
  from run obtain d' where put: "ldb_put L (bl_db b) length_tag (IntToString (?i + 1)) = (d', True)"
    and len: "bl_length b' = ?i + 1" and db: "bl_db b' = d'"
    and t: "?i + 1 > 0 \<Longrightarrow> \<exists>e b''. bl_db b'' = d' \<and> ReadSlot L b'' ?i = Inr (Some e) \<and>
      bl_last_log_term b' = be_term e"
    by (fastforce simp: Truncate_def Let_def bindE_eq_Inr ReadSlot_assert_def
        split: prod.splits if_splits option.splits)
  have c: "content d' = (content (bl_db b))(length_tag := Some (IntToString (?i + 1)))"
    using put_ok [OF put] .
  have n: "length ?log = nat (i + 1)" "bl_length b' = int (length ?log)"
    using i len binlog_rel_length [OF rel] by auto
  have slots: "slot_holds content d' (int k) (?log ! k)" if "k < length ?log" "lo \<le> int k" for k
    using binlog_rel_slot [OF rel, of "int k"] that n by (simp add: slot_holds_def c)
  have "bl_last_log_term b' = be_term (last ?log)" if "?log \<noteq> []"
  proof -
    from that have pos: "0 \<le> i" "i < int (length log)" using i binlog_rel_length [OF rel] by auto
    with t obtain e b'' where e: "bl_db b'' = d'" "ReadSlot L b'' i = Inr (Some e)"
      "bl_last_log_term b' = be_term e" by auto
    have last: "last ?log = log ! nat i"
      using pos by (simp add: last_take_nth nat_add_distrib)
    moreover have "slot_holds content (bl_db b'') i (log ! nat i)"
      using slots [of "nat i"] pos n i e(1) by simp
    ultimately show ?thesis
      using ReadSlot_holds [of b'' i "log ! nat i" "Some e"] e binlog_rel_ok [OF rel, of "log ! nat i"] pos
      by simp
  qed
  moreover have "length_saved content b'" using len by (simp add: length_saved_def db c)
  ultimately show ?thesis
    using binlog_rel_lo [OF rel] binlog_rel_ok [OF rel] slots n
    by (intro binlog_relI) (auto simp: db dest: in_set_takeD)
qed

lemma RemoveSlotBefore_rel:
  assumes "binlog_rel content lo b log"
  shows "binlog_rel content (max lo n) (RemoveSlotBefore L b n) log"
proof -
  have "content (ldb_gc L (bl_db b) n) (IntToString (int i)) = content (bl_db b) (IntToString (int i))"
    if "n \<le> int i" for i
    using that by (intro gc_keeps) auto
  moreover have "content (ldb_gc L (bl_db b) n) length_tag = content (bl_db b) length_tag"
    by (intro gc_keeps) auto
  ultimately show ?thesis
    using assms by (auto simp: binlog_rel_def RemoveSlotBefore_def slot_holds_def length_saved_def)
qed

text \<open>Reopening a log: the parsed length must fit an \<open>int\<close>, which \<open>StringToInt\<close> reads into.\<close>

lemma BinLogger_open_rel:
  assumes rel: "binlog_rel content lo b log"
    and len: "in_i32 (bl_length b)" and lo: "log \<noteq> [] \<Longrightarrow> lo < bl_length b"
    and found: "ldb_get L (bl_db b) length_tag \<noteq> GetFailed"
    and run: "BinLogger_open L (bl_db b) = Inr b'"
  shows "binlog_rel content lo b' log"
proof (cases "content (bl_db b) length_tag")
  case None
  then have "ldb_get L (bl_db b) length_tag = NotFound" and "log = []"
    using found rel
    by (cases rule: get_cases [of "bl_db b" length_tag]; auto simp: binlog_rel_def length_saved_def)+
  then show ?thesis
    using run rel None by (auto simp: BinLogger_open_def Let_def binlog_rel_def length_saved_def)
next
  case (Some v)
  let ?n = "bl_length b"
  have v: "v = IntToString ?n" using Some rel by (simp add: binlog_rel_def length_saved_def)
  have nonempty: "IntToString ?n \<noteq> []" by (simp add: IntToString_def)
  have parse: "StringToInt (IntToString ?n) = Inr ?n"
    using len by (simp add: StringToInt_IntToString clamp_i32_def in_i32_def)
  have got: "ldb_get L (bl_db b) length_tag = Got (IntToString ?n)"
    using Some found v by (cases rule: get_cases [of "bl_db b" length_tag]) auto
  let ?b0 = "\<lparr>bl_db = bl_db b, bl_length = 0, bl_last_log_term = -1\<rparr>"
  show ?thesis
  proof (cases "log = []")
    case True
    then show ?thesis
      using run rel
      by (auto simp: BinLogger_open_def got nonempty parse Let_def binlog_rel_def length_saved_def)
  next
    case False
    with binlog_rel_length [OF rel] have "?n > 0" by simp
    with run obtain e where e: "ReadSlot L ?b0 (?n - 1) = Inr (Some e)"
      and b': "b' = ?b0\<lparr>bl_length := ?n, bl_last_log_term := be_term e\<rparr>"
      by (auto simp: BinLogger_open_def got nonempty parse Let_def ReadSlot_assert_def bindE_eq_Inr
          split: option.splits)
    have last: "last log = log ! nat (?n - 1)"
      using False binlog_rel_length [OF rel] by (simp add: last_conv_nth nat_diff_distrib')
    have "slot_holds content (bl_db ?b0) (?n - 1) (last log)"
      using binlog_rel_slot [OF rel, of "?n - 1"] lo [OF False] binlog_rel_length [OF rel]
      by (simp add: last)
    then have "e = last log"
      using ReadSlot_holds [OF _ _ e] binlog_rel_ok [OF rel last_in_set [OF False]] by blast
    with rel show ?thesis by (auto simp: binlog_rel_def length_saved_def b')
  qed
qed

end

section \<open>The log as an abstract store\<close>

text \<open>
  The interface \<open>AirDBImpl\<close> uses: the operations succeed and act on a list of entries. The
  facts proved from it hold for whatever implements it.
\<close>

locale log_store =
  fixes write_one :: "'s \<Rightarrow> binlog_entry \<Rightarrow> 's res"
    and write_many :: "'s \<Rightarrow> pb_entry list \<Rightarrow> 's res"
    and truncate_to :: "'s \<Rightarrow> int \<Rightarrow> 's res"
    and read_at :: "'s \<Rightarrow> int \<Rightarrow> binlog_entry option res"
    and len_of :: "'s \<Rightarrow> int"
    and holds :: "int \<Rightarrow> 's \<Rightarrow> binlog_entry list \<Rightarrow> bool"
  assumes len_holds: "holds lo s log \<Longrightarrow> len_of s = int (length log)"
    and lo_holds: "holds lo s log \<Longrightarrow> 0 \<le> lo"
    and read_holds: "holds lo s log \<Longrightarrow> lo \<le> i \<Longrightarrow> i < int (length log) \<Longrightarrow>
      read_at s i = Inr (Some (log ! nat i))"
    and write_one_holds: "holds lo s log \<Longrightarrow> entry_ok e \<Longrightarrow>
      \<exists>s'. write_one s e = Inr s' \<and> holds lo s' (log @ [e])"
    and write_many_holds: "holds lo s log \<Longrightarrow> \<forall>p \<in> set ps. entry_ok (entry_of_pb p) \<Longrightarrow>
      \<exists>s'. write_many s ps = Inr s' \<and> holds lo s' (log @ map entry_of_pb ps)"
    and truncate_holds: "holds lo s log \<Longrightarrow> i < int (length log) \<Longrightarrow> lo \<le> i \<or> i \<le> -1 \<Longrightarrow>
      \<exists>s'. truncate_to s i = Inr s' \<and> holds lo s' (take (nat (i + 1)) log)"
begin

text \<open>Cutting the log after slot \<open>i\<close> and writing replaces the suffix.\<close>

lemma overwrite_suffix:
  assumes "holds lo s log" and "i < int (length log)" and "lo \<le> i \<or> i \<le> -1"
    and "\<forall>p \<in> set ps. entry_ok (entry_of_pb p)"
  shows "\<exists>s'. bindE (truncate_to s i) (\<lambda>t. write_many t ps) = Inr s' \<and>
           holds lo s' (take (nat (i + 1)) log @ map entry_of_pb ps)"
  using truncate_holds [OF assms(1-3)] write_many_holds [OF _ assms(4)] by fastforce

text \<open>Written entries are read back, and the ones before them are left alone.\<close>

lemma write_many_read:
  assumes "holds lo s log" and "\<forall>p \<in> set ps. entry_ok (entry_of_pb p)"
    and "write_many s ps = Inr s'"
  shows "lo \<le> i \<Longrightarrow> i < int (length log) \<Longrightarrow> read_at s' i = read_at s i"
    and "j < length ps \<Longrightarrow> lo \<le> len_of s \<Longrightarrow>
      read_at s' (len_of s + int j) = Inr (Some (entry_of_pb (ps ! j)))"
    and "len_of s' = len_of s + int (length ps)"
proof -
  have h: "holds lo s' (log @ map entry_of_pb ps)"
    using write_many_holds [OF assms(1,2)] assms(3) by auto
  show "len_of s' = len_of s + int (length ps)"
    using len_holds [OF h] len_holds [OF assms(1)] by simp
  show "read_at s' i = read_at s i" if "lo \<le> i" "i < int (length log)"
    using read_holds [OF h, of i] read_holds [OF assms(1) that] lo_holds [OF assms(1)] that
    by (simp add: nth_append nat_less_iff)
  show "read_at s' (len_of s + int j) = Inr (Some (entry_of_pb (ps ! j)))"
    if "j < length ps" "lo \<le> len_of s"
    using read_holds [OF h, of "len_of s + int j"] len_holds [OF assms(1)] that
    by (simp add: nth_append nat_add_distrib)
qed

end

text \<open>The binlog on an available database implements the interface.\<close>

sublocale leveldb_available \<subseteq> log: log_store "WriteEntry L" "WriteEntryList L" "Truncate L"
  "ReadSlot L" GetLength "binlog_rel content"
proof unfold_locales
  fix lo s log i e ps
  assume rel: "binlog_rel content lo s log"
  show "GetLength s = int (length log)" using rel by (simp add: GetLength_def binlog_rel_def)
  show "0 \<le> lo" using rel by (rule binlog_rel_lo)
  show read: "ReadSlot L s i = Inr (Some (log ! nat i))" if "lo \<le> i" "i < int (length log)"
  proof -
    have "entry_ok (log ! nat i)"
      using binlog_rel_ok [OF rel] that binlog_rel_lo [OF rel] by (simp add: nat_less_iff)
    then show ?thesis
      using binlog_rel_slot [OF rel that] by (auto simp: ReadSlot_def get_eq slot_holds_def Load_Dump)
  qed
  have wr: "\<exists>s'. WriteEntryList L s ps = Inr s'" if ok: "\<forall>p \<in> set ps. entry_ok (entry_of_pb p)" for ps
  proof -
    obtain kvs where kvs: "entry_batch (bl_length s) ps = Inr kvs"
      using entry_batch_total [OF ok] by blast
    show ?thesis
      using write_avail [of "bl_db s" "kvs @ [(length_tag, IntToString (bl_length s + int (length ps)))]"]
      by (auto simp: WriteEntryList_def kvs Let_def split: prod.split)
  qed
  show "\<exists>s'. WriteEntryList L s ps = Inr s' \<and> binlog_rel content lo s' (log @ map entry_of_pb ps)"
    if "\<forall>p \<in> set ps. entry_ok (entry_of_pb p)"
    using wr [OF that] WriteEntryList_rel [OF rel that] by blast
  show "\<exists>s'. WriteEntry L s e = Inr s' \<and> binlog_rel content lo s' (log @ [e])" if "entry_ok e"
    using wr [of "[pb_of_entry e]"] WriteEntry_rel [OF rel that] that
    by (auto simp: WriteEntry_as_list)
  show "\<exists>s'. Truncate L s i = Inr s' \<and> binlog_rel content lo s' (take (nat (i + 1)) log)"
    if i: "i < int (length log)" "lo \<le> i \<or> i \<le> -1"
  proof -
    have "ReadSlot L (s\<lparr>bl_db := fst (ldb_put L (bl_db s) length_tag x), bl_length := n\<rparr>) i =
        Inr (Some (log ! nat i))" if "0 \<le> i" for x n
    proof -
      have lo: "lo \<le> i" using i that by auto
      have "entry_ok (log ! nat i)" using binlog_rel_ok [OF rel] i that by (simp add: nat_less_iff)
      then show ?thesis
        using binlog_rel_slot [OF rel lo i(1)]
        by (auto simp: ReadSlot_def get_eq slot_holds_def Load_Dump)
    qed
    then have "\<exists>s'. Truncate L s i = Inr s'"
      using put_avail [of "bl_db s" length_tag]
      by (auto simp: Truncate_def Let_def ReadSlot_assert_def case_prod_beta)
    then obtain s' where s': "Truncate L s i = Inr s'" ..
    from Truncate_rel [OF rel _ i(2) s'] i(1) binlog_rel_length [OF rel] s' show ?thesis by simp
  qed
qed

section \<open>Reopening\<close>

context leveldb_available
begin

lemmas append_holds = log.write_many_holds
lemmas append_one_holds = log.write_one_holds
lemmas overwrite_holds = log.overwrite_suffix
lemmas read_log = log.read_holds
lemmas length_log = log.len_holds

text \<open>The length is read into an \<open>int\<close>: a longer log is cut at the largest one.\<close>

lemma BinLogger_open_holds:
  assumes rel: "binlog_rel content lo b log"
    and lo: "log \<noteq> [] \<Longrightarrow> lo < clamp_i32 (int (length log))"
  shows "\<exists>b'. BinLogger_open L (bl_db b) = Inr b' \<and> bl_length b' = clamp_i32 (int (length log)) \<and>
    (in_i32 (int (length log)) \<longrightarrow> binlog_rel content lo b' log)"
proof -
  let ?n = "clamp_i32 (int (length log))"
  let ?b0 = "\<lparr>bl_db = bl_db b, bl_length = 0, bl_last_log_term = -1\<rparr>"
  have n: "0 \<le> ?n" "?n \<le> int (length log)" "?n = 0 \<longleftrightarrow> log = []"
    by (auto simp: clamp_i32_def min_def split: if_splits)
  have b: "bl_length b = int (length log)" using rel by (rule binlog_rel_length)
  have "\<exists>b'. BinLogger_open L (bl_db b) = Inr b' \<and> bl_length b' = ?n"
  proof (cases "content (bl_db b) length_tag")
    case None
    then have "log = []" using rel b by (auto simp: binlog_rel_def length_saved_def)
    then show ?thesis using None n(3) by (simp add: BinLogger_open_def get_eq Let_def)
  next
    case (Some v)
    then have v: "v = IntToString (int (length log))"
      using rel by (simp add: binlog_rel_def length_saved_def)
    then have v': "v \<noteq> []" by (simp add: IntToString_def)
    have "ReadSlot_assert L ?b0 (?n - 1) = Inr (log ! nat (?n - 1))" if "log \<noteq> []"
    proof -
      have "entry_ok (log ! nat (?n - 1))"
        using that n by (intro binlog_rel_ok [OF rel]) (auto intro!: nth_mem simp: nat_less_iff)
      then show ?thesis
        using binlog_rel_slot [OF rel, of "?n - 1"] lo n that
        by (auto simp: ReadSlot_assert_def ReadSlot_def get_eq slot_holds_def Load_Dump)
    qed
    then show ?thesis
      using Some v v' n by (cases "log = []")
        (auto simp: BinLogger_open_def get_eq StringToInt_IntToString Let_def le_less)
  qed
  then obtain b' where b': "BinLogger_open L (bl_db b) = Inr b'" "bl_length b' = ?n" by blast
  have "binlog_rel content lo b' log" if "in_i32 (int (length log))"
    using BinLogger_open_rel [OF rel _ _ get_avail b'(1)] that b lo
    by (auto simp: in_i32_def clamp_i32_def)
  with b' show ?thesis by blast
qed

end

section \<open>A concrete log\<close>

definition mem_binlog :: "binlog_entry list \<Rightarrow> mem_db binlogger" where
  "mem_binlog es =
     (case WriteEntryList mem_leveldb \<lparr>bl_db = [], bl_length = 0, bl_last_log_term = -1\<rparr>
             (map pb_of_entry es) of
        Inr b \<Rightarrow> b | Inl f \<Rightarrow> \<lparr>bl_db = [], bl_length = 0, bl_last_log_term = -1\<rparr>)"

lemma mem_binlog_rel:
  assumes "\<forall>e \<in> set es. entry_ok e"
  shows "binlog_rel map_of 0 (mem_binlog es) es"
proof -
  have "binlog_rel map_of 0 \<lparr>bl_db = [], bl_length = 0, bl_last_log_term = -1\<rparr> []"
    by (simp add: binlog_rel_def length_saved_def)
  from mem.log.write_many_holds [OF this, of "map pb_of_entry es"] assms show ?thesis
    by (auto simp: mem_binlog_def comp_def)
qed

section \<open>Properties\<close>

text \<open>
  Writing entries appends them: afterwards every slot that is kept reads back its entry,
  the length is the number of entries and the cached position and term are the last entry's.
\<close>

lemma binlog_append:
  assumes "leveldb_available L content" and "binlog_rel content lo b log"
    and "\<forall>p \<in> set ps. entry_ok (entry_of_pb p)"
  shows "\<exists>b'. WriteEntryList L b ps = Inr b' \<and>
    binlog_rel content lo b' (log @ map entry_of_pb ps) \<and>
    GetLength b' = int (length log + length ps) \<and>
    (ps \<noteq> [] \<longrightarrow> GetLastLogIndexAndTerm b' = (int (length log + length ps) - 1, pe_term (last ps))) \<and>
    (\<forall>i. lo \<le> i \<and> i < int (length log + length ps) \<longrightarrow>
       ReadSlot L b' i = Inr (Some ((log @ map entry_of_pb ps) ! nat i)))"
proof -
  obtain b' where b': "WriteEntryList L b ps = Inr b'"
    "binlog_rel content lo b' (log @ map entry_of_pb ps)"
    using leveldb_available.append_holds [OF assms] by blast
  moreover have "ReadSlot L b' i = Inr (Some ((log @ map entry_of_pb ps) ! nat i))"
    if "lo \<le> i" "i < int (length log + length ps)" for i
    using leveldb_available.read_log [OF assms(1) b'(2)] that by simp
  ultimately show ?thesis
    using binlog_rel_length [OF b'(2)] binlog_rel_last [OF b'(2)]
    by (auto simp: GetLength_def GetLastLogIndexAndTerm_def last_map)
qed

text \<open>
  C24: Cutting the log after a slot and writing entries leaves the kept prefix followed by the
  new entries: its length and every slot up to its end are those of that list. (What a longer old
  log had beyond the new end is not erased from the database.)
\<close>

theorem binlog_overwrite:
  assumes "leveldb_available L content" and "binlog_rel content lo b log"
    and "i < int (length log)" and "lo \<le> i \<or> i \<le> -1" and "\<forall>p \<in> set ps. entry_ok (entry_of_pb p)"
  shows "\<exists>b'. bindE (Truncate L b i) (\<lambda>t. WriteEntryList L t ps) = Inr b' \<and>
    binlog_rel content lo b' (take (nat (i + 1)) log @ map entry_of_pb ps)"
  using assms by (rule leveldb_available.overwrite_holds)

theorem binlog_overwrite_witness:
  "\<exists>b'. bindE (Truncate mem_leveldb (mem_binlog [sample_entry, sample_entry]) 0)
     (\<lambda>t. WriteEntryList mem_leveldb t [pb_of_entry sample_entry]) = Inr b'"
  using binlog_overwrite [OF mem.leveldb_available_axioms mem_binlog_rel,
      of "[sample_entry, sample_entry]" 0 "[pb_of_entry sample_entry]"]
  by auto

text \<open>
  C25: A restarted server finds its log again: opening the database of a log gives the same
  list of entries, as long as its length fits an \<open>int\<close>; a longer log is cut to 2147483647.
\<close>

theorem binlog_reopen:
  assumes "leveldb_available L content" and "binlog_rel content lo b log"
    and "log \<noteq> [] \<Longrightarrow> lo < clamp_i32 (int (length log))"
  shows "\<exists>b'. BinLogger_open L (bl_db b) = Inr b' \<and>
    GetLength b' = clamp_i32 (int (length log)) \<and>
    (in_i32 (int (length log)) \<longrightarrow> binlog_rel content lo b' log)"
  using leveldb_available.BinLogger_open_holds [OF assms] by (simp add: GetLength_def)

theorem binlog_reopen_witness:
  "\<exists>b'. BinLogger_open mem_leveldb (bl_db (mem_binlog [sample_entry])) = Inr b' \<and> GetLength b' = 1"
  using binlog_reopen [OF mem.leveldb_available_axioms mem_binlog_rel, of "[sample_entry]"]
  by (auto simp: clamp_i32_def)

text \<open>
  Garbage collection below a slot loses nothing at or above it: every entry from there on
  is read as before and the length stays.
\<close>

lemma binlog_gc_keeps:
  assumes "leveldb_available L content" and "binlog_rel content lo b log"
    and "max lo n \<le> i" and "i < int (length log)"
  shows "ReadSlot L (RemoveSlotBefore L b n) i = Inr (Some (log ! nat i)) \<and>
    GetLength (RemoveSlotBefore L b n) = int (length log)"
proof -
  have rel: "binlog_rel content (max lo n) (RemoveSlotBefore L b n) log"
    using assms(1,2) leveldb_available.axioms(1) leveldb_laws.RemoveSlotBefore_rel by blast
  show ?thesis
    using leveldb_available.read_log [OF assms(1) rel assms(3,4)]
      leveldb_available.length_log [OF assms(1) rel] by simp
qed

end
