(* ===== verification/Storage.thy ===== *)
theory Storage
  imports LevelDB
begin

text \<open>
  \<open>StorageKV\<close> of \<open>src/storage_kv.cc\<close>, the database the committed entries are applied to, and
  the form of the values in it: the byte of the operation that wrote the value, then the value
  (\<open>CommitIndex\<close> builds it, \<open>ParseValue\<close> of \<open>src/airdb_impl.cc\<close> takes it apart). The locale
  \<open>kv_store\<close> is the contract its clients rely on.
\<close>

section \<open>Operations\<close>

text \<open>The return code, and the value stored through the pointer when there is one.\<close>

definition StorageKV_Get :: "'db leveldb \<Rightarrow> 'db \<Rightarrow> string \<Rightarrow> int \<times> string option" where
  "StorageKV_Get L d key =
     (case ldb_get L d key of Got v \<Rightarrow> (0, Some v) | NotFound \<Rightarrow> (-1, None) | GetFailed \<Rightarrow> (-1, None))"

definition StorageKV_Put :: "'db leveldb \<Rightarrow> 'db \<Rightarrow> string \<Rightarrow> string \<Rightarrow> 'db \<times> int" where
  "StorageKV_Put L d key val = (let (d', ok) = ldb_put L d key val in (d', if ok then 0 else -1))"

definition StorageKV_Delete :: "'db leveldb \<Rightarrow> 'db \<Rightarrow> string \<Rightarrow> 'db \<times> int" where
  "StorageKV_Delete L d key = (let (d', ok) = ldb_delete L d key in (d', if ok then 0 else -1))"

definition type_and_value :: "binlog_op \<Rightarrow> string \<Rightarrow> string" where
  "type_and_value x val = [char_of (op_code x)] @ val"

text \<open>An empty value leaves both outputs alone, and the caller's operation is unassigned.\<close>

definition ParseValue :: "string \<Rightarrow> (binlog_op \<times> string) res" where
  "ParseValue val =
     (if length val \<ge> 1 then Inr (op_of_code (of_char (val ! 0)), drop 1 val)
      else Inl Uninitialised)"

lemma ParseValue_type_and_value:
  "op_ok x \<Longrightarrow> ParseValue (type_and_value x v) = Inr (x, v)"
  using op_code_bound [of x] by (simp add: ParseValue_def type_and_value_def)

section \<open>The contract\<close>

locale kv_store =
  fixes kv_get :: "'s \<Rightarrow> string \<Rightarrow> int \<times> string option"
    and kv_put :: "'s \<Rightarrow> string \<Rightarrow> string \<Rightarrow> 's \<times> int"
    and kv_delete :: "'s \<Rightarrow> string \<Rightarrow> 's \<times> int"
    and view :: "'s \<Rightarrow> string \<Rightarrow> string option"
  assumes get_view: "kv_get s k = (case view s k of Some v \<Rightarrow> (0, Some v) | None \<Rightarrow> (-1, None))"
    and put_view: "view (fst (kv_put s k v)) = (view s)(k := Some v)"
    and put_code: "snd (kv_put s k v) = 0"
    and delete_view: "view (fst (kv_delete s k)) = (view s)(k := None)"
    and delete_code: "snd (kv_delete s k) = 0"
begin

lemma get_put: "kv_get (fst (kv_put s k v)) k' = (if k' = k then (0, Some v) else kv_get s k')"
  by (simp add: get_view put_view)

lemma get_delete: "kv_get (fst (kv_delete s k)) k' = (if k' = k then (-1, None) else kv_get s k')"
  by (simp add: get_view delete_view)

lemma get_code: "fst (kv_get s k) = 0 \<longleftrightarrow> view s k \<noteq> None"
  by (simp add: get_view split: option.split)

end

sublocale leveldb_available \<subseteq> store: kv_store "StorageKV_Get L" "StorageKV_Put L"
  "StorageKV_Delete L" content
  using put_avail delete_avail put_content delete_content
  by unfold_locales
    (simp_all add: StorageKV_Get_def StorageKV_Put_def StorageKV_Delete_def get_eq case_prod_beta Let_def
      split: option.split)

end
