(* ===== verification/Node.thy ===== *)
theory Node
  imports BinlogSpec Storage
begin

text \<open>
  The state of a server (\<open>AirDBImpl\<close> of \<open>src/airdb_impl.h\<close>), the messages it exchanges
  (\<open>proto/airdb_node.proto\<close>) and the effects its handlers have besides changing the state:
  asynchronous calls, tasks given to the thread pools, signals, and the closures that answer
  clients. Each handler runs under the mutex \<open>mu_\<close>, so a handler, or the part of it between an
  acquisition and the next release, is one atomic function on the state.
\<close>

section \<open>Messages\<close>

datatype db_node_status = kLeader | kCandidate | kFollower | kOffline

record vote_request =
  vq_term :: int
  vq_candidate_addr :: string
  vq_last_log_index :: int
  vq_last_log_term :: int

record vote_response =
  vr_term :: int
  vr_vote_pass :: bool

text \<open>Optional fields hold the value their getter returns: the default when unset.\<close>

record append_entries_request =
  aq_term :: int
  aq_leader_id :: string
  aq_prev_log_index :: int
  aq_prev_log_term :: int
  aq_leader_commit_index :: int
  aq_entries :: "pb_entry list"

record append_entries_response =
  ar_current_term :: int
  ar_success :: bool
  ar_log_length :: int
  ar_is_busy :: bool

record show_status_response =
  sr_status :: db_node_status
  sr_term :: int
  sr_last_log_index :: int
  sr_last_log_term :: int
  sr_commit_index :: int
  sr_last_applied :: int

section \<open>Acknowledgements\<close>

text \<open>
  \<open>SdkAck\<close> holds pointers to the response objects and to the closure of a client call. They are
  modelled by the identity of the call; a null pointer is \<open>None\<close>.
\<close>

type_synonym call = nat

record sdk_ack =
  put_res :: "call option"
  del_res :: "call option"
  lock_res :: "call option"
  unlock_res :: "call option"
  ack_done :: "call option"

definition empty_ack :: sdk_ack where
  "empty_ack = \<lparr>put_res = None, del_res = None, lock_res = None, unlock_res = None, ack_done = None\<rparr>"

section \<open>The server\<close>

record 'db node =
  binlogger :: "'db binlogger"
  stop :: bool
  status :: db_node_status
  headbeat_cnt :: int
  current_term :: int
  self_addr :: string
  cur_leader_addr :: string
  commit_index :: int
  last_applied_index :: int
  last_safe_clean_index :: int
  all_server_addr :: "string list"
  vote_for :: "int \<Rightarrow> string option"
  vote_pass :: "int \<Rightarrow> int option"
  next_index :: "string \<Rightarrow> int option"
  match_index :: "string \<Rightarrow> int option"
  replicating :: "string set"
  sdk_ack_map :: "int \<Rightarrow> sdk_ack option"
  data_store :: 'db

text \<open>What a handler does besides changing the state.\<close>

datatype effect =
    AsyncVote string vote_request               \<comment> \<open>\<open>AsyncRequest\<close> of \<open>Vote\<close> to a server\<close>
  | AsyncAppend string append_entries_request   \<comment> \<open>\<open>AsyncRequest\<close> of a heartbeat\<close>
  | DelayVoteLeader int                         \<comment> \<open>\<open>DelayTask\<close> of \<open>VoteLeader\<close>\<close>
  | AddBroadCastHeartBeat
  | DelayBroadCastHeartBeat int
  | AddReplicateLog string
  | AddAppendEntriesImpl append_entries_request
  | AddCommitIndex
  | AddGarbageClean
  | DelayGarbageClean int
  | AddDelBinlog int
  | SyncCleanBinlog string int                  \<comment> \<open>\<open>SendRequest\<close> of \<open>CleanBinlog\<close> to a server\<close>
  | SignalCommit                                \<comment> \<open>\<open>commit_cond_->Signal()\<close>\<close>
  | BroadcastReplica                            \<comment> \<open>\<open>replica_cond_->Broadcast()\<close>\<close>
  | SetSuccess call                             \<comment> \<open>\<open>set_success(true)\<close> on a waiting response\<close>
  | SetLeaderId call string
  | RunDone "call option"                       \<comment> \<open>\<open>done->Run()\<close> of a waiting call\<close>

definition GetLocalLogTermIndex :: "'db node \<Rightarrow> int \<times> int" where
  "GetLocalLogTermIndex n = GetLastLogIndexAndTerm (binlogger n)"

definition log_length :: "'db node \<Rightarrow> int" where
  "log_length n = GetLength (binlogger n)"

text \<open>
  The constructor, on the opened binlog and data store; it also starts the commit and cleaner
  threads and arms the first election timer, whose delay is the argument.
\<close>

definition tag_last_applied_index :: string where
  "tag_last_applied_index = ''#TAG_LAST_APPLIED_INDEX#''"

definition LoopVoteLeader :: "'db node \<Rightarrow> int \<Rightarrow> effect list" where
  "LoopVoteLeader n vote_delay_time = (if stop n then [] else [DelayVoteLeader vote_delay_time])"

definition AirDBImpl_init ::
  "'db leveldb \<Rightarrow> string \<Rightarrow> string list \<Rightarrow> 'db binlogger \<Rightarrow> 'db \<Rightarrow> int \<Rightarrow> ('db node \<times> effect list) res"
where
  "AirDBImpl_init L server_id members b ds delay =
     (let n0 = \<lparr>binlogger = b, stop = False, status = kFollower, headbeat_cnt = 0,
             current_term = 0, self_addr = server_id, cur_leader_addr = [], commit_index = -1,
             last_applied_index = -1, last_safe_clean_index = -1, all_server_addr = members,
             vote_for = (\<lambda>_. None), vote_pass = (\<lambda>_. None), next_index = (\<lambda>_. None),
             match_index = (\<lambda>_. None), replicating = {}, sdk_ack_map = (\<lambda>_. None),
             data_store = ds\<rparr>
      in case StorageKV_Get L ds tag_last_applied_index of
           (ret, Some tag_value) \<Rightarrow>
             bindE (StringToInt tag_value) (\<lambda>i.
               let n = n0\<lparr>last_applied_index := i\<rparr>
               in Inr (n, [AddCommitIndex, AddGarbageClean] @ LoopVoteLeader n delay))
         | (ret, None) \<Rightarrow> Inr (n0, [AddCommitIndex, AddGarbageClean] @ LoopVoteLeader n0 delay))"

definition SwitchToFollower :: "'db node \<Rightarrow> int \<Rightarrow> 'db node" where
  "SwitchToFollower n term = n\<lparr>status := kFollower, current_term := term\<rparr>"

definition ShowStatus :: "'db node \<Rightarrow> show_status_response" where
  "ShowStatus n =
     (let (last_log_index, last_log_term) = GetLocalLogTermIndex n
      in \<lparr>sr_status = status n, sr_term = current_term n, sr_last_log_index = last_log_index,
          sr_last_log_term = last_log_term, sr_commit_index = commit_index n,
          sr_last_applied = last_applied_index n\<rparr>)"

lemma SwitchToFollower_simps [simp]:
  "status (SwitchToFollower n t) = kFollower"
  "current_term (SwitchToFollower n t) = t"
  "vote_for (SwitchToFollower n t) = vote_for n"
  "vote_pass (SwitchToFollower n t) = vote_pass n"
  "self_addr (SwitchToFollower n t) = self_addr n"
  "all_server_addr (SwitchToFollower n t) = all_server_addr n"
  "binlogger (SwitchToFollower n t) = binlogger n"
  "data_store (SwitchToFollower n t) = data_store n"
  "commit_index (SwitchToFollower n t) = commit_index n"
  "last_applied_index (SwitchToFollower n t) = last_applied_index n"
  "next_index (SwitchToFollower n t) = next_index n"
  "match_index (SwitchToFollower n t) = match_index n"
  "sdk_ack_map (SwitchToFollower n t) = sdk_ack_map n"
  "replicating (SwitchToFollower n t) = replicating n"
  by (simp_all add: SwitchToFollower_def)

section \<open>What election sees of the other handlers\<close>

text \<open>
  A handler that does not vote or count votes leaves the votes alone and either keeps the role
  and the term or becomes a follower, never lowering the term.
\<close>

definition steps_down :: "'db node \<Rightarrow> 'db node \<Rightarrow> bool" where
  "steps_down n n' \<longleftrightarrow>
     self_addr n' = self_addr n \<and> all_server_addr n' = all_server_addr n \<and>
     vote_for n' = vote_for n \<and> vote_pass n' = vote_pass n \<and>
     (status n' = status n \<and> current_term n' = current_term n \<or>
      status n' = kFollower \<and> current_term n \<le> current_term n')"

lemma steps_down_refl [simp, intro]: "steps_down n n"
  by (simp add: steps_down_def)

lemma steps_down_trans [trans]: "steps_down a b \<Longrightarrow> steps_down b c \<Longrightarrow> steps_down a c"
  by (auto simp: steps_down_def)

lemma steps_down_updates [simp]:
  "steps_down n (n\<lparr>binlogger := b\<rparr>)"
  "steps_down n (n\<lparr>data_store := d\<rparr>)"
  "steps_down n (n\<lparr>commit_index := i\<rparr>)"
  "steps_down n (n\<lparr>next_index := m\<rparr>)"
  "steps_down n (n\<lparr>match_index := m'\<rparr>)"
  "steps_down n (n\<lparr>replicating := r\<rparr>)"
  "steps_down n (n\<lparr>sdk_ack_map := a\<rparr>)"
  "steps_down n (n\<lparr>last_safe_clean_index := i\<rparr>)"
  by (simp_all add: steps_down_def)

lemma steps_down_SwitchToFollower [simp]:
  "current_term n \<le> t \<Longrightarrow> steps_down n (SwitchToFollower n t)"
  by (simp add: steps_down_def)

lemma tag_neq_simps [simp]: "tag_last_applied_index \<noteq> []"
  by (simp add: tag_last_applied_index_def)

section \<open>A concrete server\<close>

text \<open>A follower just started on empty databases, but for its log.\<close>

definition sample_node :: "string \<Rightarrow> string list \<Rightarrow> binlog_entry list \<Rightarrow> mem_db node" where
  "sample_node a M es =
     \<lparr>binlogger = mem_binlog es, stop = False, status = kFollower, headbeat_cnt = 0,
      current_term = 0, self_addr = a, cur_leader_addr = [], commit_index = -1,
      last_applied_index = -1, last_safe_clean_index = -1, all_server_addr = M,
      vote_for = (\<lambda>_. None), vote_pass = (\<lambda>_. None), next_index = (\<lambda>_. None),
      match_index = (\<lambda>_. None), replicating = {}, sdk_ack_map = (\<lambda>_. None), data_store = []\<rparr>"

lemma sample_node_simps [simp]:
  "binlogger (sample_node a M es) = mem_binlog es"
  "stop (sample_node a M es) = False"
  "status (sample_node a M es) = kFollower"
  "headbeat_cnt (sample_node a M es) = 0"
  "current_term (sample_node a M es) = 0"
  "self_addr (sample_node a M es) = a"
  "cur_leader_addr (sample_node a M es) = []"
  "commit_index (sample_node a M es) = -1"
  "last_applied_index (sample_node a M es) = -1"
  "last_safe_clean_index (sample_node a M es) = -1"
  "all_server_addr (sample_node a M es) = M"
  "vote_for (sample_node a M es) = (\<lambda>_. None)"
  "vote_pass (sample_node a M es) = (\<lambda>_. None)"
  "next_index (sample_node a M es) = (\<lambda>_. None)"
  "match_index (sample_node a M es) = (\<lambda>_. None)"
  "replicating (sample_node a M es) = {}"
  "sdk_ack_map (sample_node a M es) = (\<lambda>_. None)"
  "data_store (sample_node a M es) = []"
  by (simp_all add: sample_node_def)

lemma sample_node_init:
  "AirDBImpl_init mem_leveldb a M (mem_binlog es) [] d =
     Inr (sample_node a M es, [AddCommitIndex, AddGarbageClean, DelayVoteLeader d])"
  by (simp add: AirDBImpl_init_def sample_node_def StorageKV_Get_def mem_leveldb_def mem_get_def
      LoopVoteLeader_def Let_def)

end
