(* ===== verification/Election.thy ===== *)
theory Election
  imports Node
begin

text \<open>
  Leader election of \<open>src/airdb_impl.cc\<close>: the election timer (\<open>VoteLeader\<close>), the vote of a
  server (\<open>Vote\<close>), the counting of the votes (\<open>VoteCallBack\<close>) and the change to leader
  (\<open>SwitchToLeader\<close>, \<open>StartReplicaLog\<close>).
\<close>

section \<open>The handlers\<close>

definition vote_request_of :: "'db node \<Rightarrow> vote_request" where
  "vote_request_of n =
     (let (last_log_index, last_log_term) = GetLocalLogTermIndex n
      in \<lparr>vq_term = current_term n, vq_candidate_addr = self_addr n,
          vq_last_log_index = last_log_index, vq_last_log_term = last_log_term\<rparr>)"

text \<open>The random delay for the next round is an argument.\<close>

definition VoteLeader :: "'db node \<Rightarrow> int \<Rightarrow> 'db node \<times> effect list" where
  "VoteLeader n delay =
     (if status n = kLeader then (n, LoopVoteLeader n delay)
      else if status n = kFollower \<and> headbeat_cnt n > 0
      then let n' = n\<lparr>headbeat_cnt := 0\<rparr> in (n', LoopVoteLeader n' delay)
      else
        let t = current_term n + 1;
            n' = n\<lparr>current_term := t, status := kCandidate,
                   vote_for := (vote_for n)(t := Some (self_addr n)),
                   vote_pass := (vote_pass n)(t := Some (at_default 0 (vote_pass n) t + 1))\<rparr>
        in (n', map (\<lambda>addr. AsyncVote addr (vote_request_of n'))
                  (filter (\<lambda>addr. addr \<noteq> self_addr n) (all_server_addr n'))
                @ LoopVoteLeader n' delay))"

text \<open>A leader returns without running the closure: \<open>None\<close>.\<close>

definition Vote :: "'db node \<Rightarrow> vote_request \<Rightarrow> 'db node \<times> vote_response option" where
  "Vote n req =
     (let reject = (\<lambda>n. (n, Some \<lparr>vr_term = current_term n, vr_vote_pass = False\<rparr>));
          (last_log_index, last_log_term) = GetLocalLogTermIndex n
      in if status n = kLeader then (n, None)
         else if vq_term req < current_term n then reject n
         else if vq_last_log_term req < last_log_term then reject n
         else if vq_last_log_term req = last_log_term \<and> vq_last_log_index req < last_log_index
         then reject n
         else
           let n' = (if vq_term req > current_term n then SwitchToFollower n (vq_term req) else n);
               t = current_term n'
           in if vote_for n' t \<noteq> None \<and> vote_for n' t \<noteq> Some (vq_candidate_addr req)
              then reject n'
              else (n'\<lparr>vote_for := (vote_for n')(t := Some (vq_candidate_addr req))\<rparr>,
                    Some \<lparr>vr_term = t, vr_vote_pass = True\<rparr>))"

text \<open>The loop of \<open>StartReplicaLog\<close> over the servers.\<close>

fun start_replica_loop :: "'db node \<Rightarrow> string list \<Rightarrow> 'db node \<times> effect list" where
  "start_replica_loop n [] = (n, [])"
| "start_replica_loop n (addr # addrs) =
     (if addr = self_addr n then start_replica_loop n addrs
      else if addr \<in> replicating n then start_replica_loop n addrs
      else
        let n' = n\<lparr>next_index := (next_index n)(addr := Some (log_length n)),
                   match_index := (match_index n)(addr := Some (-1))\<rparr>;
            (n'', es) = start_replica_loop n' addrs
        in (n'', AddReplicateLog addr # es))"

definition nop_entry :: "int \<Rightarrow> binlog_entry" where
  "nop_entry t = \<lparr>be_op = kNop, be_key = ''Ping'', be_value = [], be_term = t\<rparr>"

definition StartReplicaLog :: "'db leveldb \<Rightarrow> 'db node \<Rightarrow> ('db node \<times> effect list) res" where
  "StartReplicaLog L n =
     (let (n', es) = start_replica_loop n (all_server_addr n)
      in bindE (WriteEntry L (binlogger n') (nop_entry (current_term n'))) (\<lambda>b.
           Inr (n'\<lparr>binlogger := b\<rparr>, es)))"

definition SwitchToLeader :: "'db leveldb \<Rightarrow> 'db node \<Rightarrow> ('db node \<times> effect list) res" where
  "SwitchToLeader L n =
     bindE (StartReplicaLog L (n\<lparr>status := kLeader, cur_leader_addr := self_addr n\<rparr>)) (\<lambda>(n', es).
       Inr (n', AddBroadCastHeartBeat # es))"

definition VoteCallBack ::
  "'db leveldb \<Rightarrow> 'db node \<Rightarrow> vote_response \<Rightarrow> bool \<Rightarrow> ('db node \<times> effect list) res" where
  "VoteCallBack L n res failed =
     (if status n = kCandidate \<and> \<not> failed then
        let others_term = vr_term res; t = current_term n in
        if others_term = t \<and> vr_vote_pass res then
          let votes = at_default 0 (vote_pass n) t + 1;
              n' = n\<lparr>vote_pass := (vote_pass n)(t := Some votes)\<rparr>
          in if votes > int (length (all_server_addr n) div 2)
             then SwitchToLeader L n' else Inr (n', [])
        else if others_term > t then Inr (SwitchToFollower n others_term, [])
        else Inr (n, [])
      else Inr (n, []))"

section \<open>What the handlers do to the votes\<close>

definition starts_round :: "'db node \<Rightarrow> bool" where
  "starts_round n \<longleftrightarrow> status n \<noteq> kLeader \<and> \<not> (status n = kFollower \<and> headbeat_cnt n > 0)"

definition vote_counts :: "'db node \<Rightarrow> vote_response \<Rightarrow> bool \<Rightarrow> bool" where
  "vote_counts n res failed \<longleftrightarrow>
     status n = kCandidate \<and> \<not> failed \<and> vr_term res = current_term n \<and> vr_vote_pass res"

lemma vote_request_of_simps [simp]:
  "vq_term (vote_request_of n) = current_term n"
  "vq_candidate_addr (vote_request_of n) = self_addr n"
  by (simp_all add: vote_request_of_def GetLocalLogTermIndex_def GetLastLogIndexAndTerm_def)

lemma AsyncVote_not_LoopVoteLeader [simp]: "AsyncVote b r \<notin> set (LoopVoteLeader n d)"
  by (simp add: LoopVoteLeader_def)

lemma VoteLeader_idle:
  assumes "\<not> starts_round n" and "VoteLeader n d = (n', es)"
  shows "steps_down n n'" and "AsyncVote b r \<notin> set es"
  using assms by (auto simp: VoteLeader_def starts_round_def Let_def steps_down_def split: if_splits)

lemma VoteLeader_round:
  assumes "starts_round n" and "VoteLeader n d = (n', es)"
  shows "self_addr n' = self_addr n" and "all_server_addr n' = all_server_addr n"
    and "current_term n' = current_term n + 1" and "status n' = kCandidate"
    and "vote_for n' = (vote_for n)(current_term n' := Some (self_addr n))"
    and "vote_pass n' = (vote_pass n)
           (current_term n' := Some (at_default 0 (vote_pass n) (current_term n') + 1))"
    and "AsyncVote b r \<in> set es \<longleftrightarrow>
           b \<in> set (all_server_addr n) \<and> b \<noteq> self_addr n \<and> r = vote_request_of n'"
  using assms by (auto simp: VoteLeader_def starts_round_def Let_def split: if_splits)

text \<open>A server rejects, or records its vote for the candidate in the term of the request.\<close>

lemma Vote_cases:
  assumes "Vote n req = (n', resp)"
  obtains (rejects) "steps_down n n'" and "\<And>x. resp = Some x \<Longrightarrow> \<not> vr_vote_pass x"
  | (grants) "resp = Some \<lparr>vr_term = vq_term req, vr_vote_pass = True\<rparr>"
      and "self_addr n' = self_addr n" and "all_server_addr n' = all_server_addr n"
      and "vote_pass n' = vote_pass n" and "current_term n' = vq_term req"
      and "status n' = status n \<and> current_term n' = current_term n \<or>
           status n' = kFollower \<and> current_term n \<le> current_term n'"
      and "status n' \<noteq> kLeader"
      and "vote_for n (vq_term req) \<in> {None, Some (vq_candidate_addr req)}"
      and "vote_for n' = (vote_for n)(vq_term req := Some (vq_candidate_addr req))"
proof -
  define n1 where "n1 = (if vq_term req > current_term n then SwitchToFollower n (vq_term req) else n)"
  let ?t = "current_term n1" and ?c = "vq_candidate_addr req"
  have n1: "steps_down n n1" by (simp add: n1_def)
  consider "n' = n" and "\<forall>x. resp = Some x \<longrightarrow> \<not> vr_vote_pass x"
    | "n' = n1" and "\<forall>x. resp = Some x \<longrightarrow> \<not> vr_vote_pass x"
    | "status n \<noteq> kLeader" and "\<not> vq_term req < current_term n"
      and "vote_for n1 ?t = None \<or> vote_for n1 ?t = Some ?c"
      and "n' = n1\<lparr>vote_for := (vote_for n1)(?t := Some ?c)\<rparr>"
      and "resp = Some \<lparr>vr_term = ?t, vr_vote_pass = True\<rparr>"
    using assms unfolding Vote_def Let_def case_prod_beta n1_def [symmetric]
    by (simp split: if_splits) auto
  then show ?thesis
  proof cases
    case 1
    then show ?thesis by (intro rejects) auto
  next
    case 2
    then show ?thesis using n1 by (intro rejects) auto
  next
    case 3
    from 3(2) have t: "?t = vq_term req" by (simp add: n1_def)
    have st: "status n1 \<noteq> kLeader" using 3(1) by (simp add: n1_def)
    have "self_addr n' = self_addr n" "all_server_addr n' = all_server_addr n"
      "vote_pass n' = vote_pass n" "current_term n' = vq_term req" "status n' = status n1"
      using n1 t by (simp_all add: 3(4) steps_down_def)
    moreover have "vote_for n1 = vote_for n" using n1 by (simp add: steps_down_def)
    moreover have "status n1 = status n \<and> ?t = current_term n \<or>
        status n1 = kFollower \<and> current_term n \<le> ?t" using n1 by (auto simp: steps_down_def)
    ultimately show ?thesis
      using 3(3) st by (intro grants) (auto simp: 3(4,5) t)
  qed
qed

lemma start_replica_loop_frame:
  "\<exists>ni mi. fst (start_replica_loop n addrs) = n\<lparr>next_index := ni, match_index := mi\<rparr>"
proof (induction addrs arbitrary: n)
  case Nil
  have "n = n\<lparr>next_index := next_index n, match_index := match_index n\<rparr>" by simp
  then show ?case by (metis fst_conv start_replica_loop.simps(1))
next
  case (Cons addr addrs)
  let ?n' = "n\<lparr>next_index := (next_index n)(addr := Some (log_length n)),
      match_index := (match_index n)(addr := Some (-1))\<rparr>"
  obtain ni mi where "fst (start_replica_loop ?n' addrs) =
      ?n'\<lparr>next_index := ni, match_index := mi\<rparr>" using Cons.IH by blast
  then have "fst (start_replica_loop ?n' addrs) = n\<lparr>next_index := ni, match_index := mi\<rparr>" by simp
  with Cons.IH [of n] show ?case
    by (cases "addr = self_addr n \<or> addr \<in> replicating n")
      (fastforce simp: Let_def case_prod_beta)+
qed

lemma SwitchToLeader_frame:
  assumes "SwitchToLeader L n = Inr (n', es)"
  obtains ni mi b where "n' = n\<lparr>status := kLeader, cur_leader_addr := self_addr n,
    next_index := ni, match_index := mi, binlogger := b\<rparr>"
proof -
  let ?n = "n\<lparr>status := kLeader, cur_leader_addr := self_addr n\<rparr>"
  obtain ni mi where "fst (start_replica_loop ?n (all_server_addr n)) =
      ?n\<lparr>next_index := ni, match_index := mi\<rparr>" using start_replica_loop_frame by blast
  with assms show thesis
    by (auto simp: SwitchToLeader_def StartReplicaLog_def bindE_eq_Inr Let_def case_prod_beta
        intro: that)
qed

lemma VoteCallBack_other:
  assumes "\<not> vote_counts n res failed" and "VoteCallBack L n res failed = Inr (n', es)"
  shows "steps_down n n'"
  using assms by (auto simp: VoteCallBack_def vote_counts_def Let_def split: if_splits)

lemma VoteCallBack_counts:
  assumes "vote_counts n res failed" and "VoteCallBack L n res failed = Inr (n', es)"
  defines "votes \<equiv> at_default 0 (vote_pass n) (current_term n) + 1"
  shows "self_addr n' = self_addr n" and "all_server_addr n' = all_server_addr n"
    and "current_term n' = current_term n" and "vote_for n' = vote_for n"
    and "vote_pass n' = (vote_pass n)(current_term n := Some votes)"
    and "status n' = (if votes > int (length (all_server_addr n) div 2) then kLeader else kCandidate)"
proof -
  let ?m = "n\<lparr>vote_pass := (vote_pass n)(current_term n := Some votes)\<rparr>"
  have "VoteCallBack L n res failed =
      (if votes > int (length (all_server_addr n) div 2) then SwitchToLeader L ?m else Inr (?m, []))"
    using assms(1) by (simp add: VoteCallBack_def vote_counts_def votes_def Let_def)
  with assms(1,2) have "(if votes > int (length (all_server_addr n) div 2)
      then SwitchToLeader L ?m = Inr (n', es) else n' = ?m)" and "status n = kCandidate"
    by (auto simp: vote_counts_def split: if_splits)
  then have "self_addr n' = self_addr n \<and> all_server_addr n' = all_server_addr n \<and>
      current_term n' = current_term n \<and> vote_for n' = vote_for n \<and>
      vote_pass n' = (vote_pass n)(current_term n := Some votes) \<and>
      status n' = (if votes > int (length (all_server_addr n) div 2) then kLeader else kCandidate)"
    by (auto split: if_splits elim!: SwitchToLeader_frame)
  then show "self_addr n' = self_addr n" and "all_server_addr n' = all_server_addr n"
    and "current_term n' = current_term n" and "vote_for n' = vote_for n"
    and "vote_pass n' = (vote_pass n)(current_term n := Some votes)"
    and "status n' = (if votes > int (length (all_server_addr n) div 2) then kLeader else kCandidate)"
    by blast+
qed

section \<open>Properties\<close>

text \<open>
  C21: A server answers a vote request unless it leads, and it grants the vote exactly when the
  request's term is not older than its own, the candidate's log is at least as up to date (last
  term, then last index), and it has not voted for another candidate in that term. A grant
  moves it to the request's term and records the vote; the answer carries its new term.
\<close>

theorem vote_granted_iff:
  assumes "Vote n req = (n', resp)"
    and "GetLastLogIndexAndTerm (binlogger n) = (last_index, last_term)"
  shows "(resp = None \<longleftrightarrow> status n = kLeader) \<and>
    ((\<exists>r. resp = Some r \<and> vr_vote_pass r) \<longleftrightarrow>
       status n \<noteq> kLeader \<and> current_term n \<le> vq_term req \<and>
       (last_term < vq_last_log_term req \<or>
        last_term = vq_last_log_term req \<and> last_index \<le> vq_last_log_index req) \<and>
       vote_for n (vq_term req) \<in> {None, Some (vq_candidate_addr req)}) \<and>
    (\<forall>r. resp = Some r \<longrightarrow> vr_term r = current_term n') \<and>
    (\<forall>r. resp = Some r \<and> vr_vote_pass r \<longrightarrow>
       current_term n' = vq_term req \<and>
       vote_for n' = (vote_for n)(vq_term req := Some (vq_candidate_addr req)))"
  using assms
  by (auto simp: Vote_def GetLocalLogTermIndex_def Let_def split: if_splits)

theorem vote_granted_iff_witness:
  "vr_vote_pass (the (snd (Vote (sample_node ''b'' [''a'', ''b''] [])
     \<lparr>vq_term = 1, vq_candidate_addr = ''a'', vq_last_log_index = -1, vq_last_log_term = -1\<rparr>)))"
proof -
  let ?n = "sample_node ''b'' [''a'', ''b''] []"
  let ?r = "\<lparr>vq_term = 1, vq_candidate_addr = ''a'', vq_last_log_index = -1, vq_last_log_term = -1\<rparr>"
  have log: "GetLastLogIndexAndTerm (binlogger ?n) = (-1, -1)"
    by (simp add: GetLastLogIndexAndTerm_def mem_binlog_def WriteEntryList_def mem_leveldb_def Let_def)
  obtain n' resp where v: "Vote ?n ?r = (n', resp)" by fastforce
  from vote_granted_iff [OF v log] have "\<exists>r. resp = Some r \<and> vr_vote_pass r" by simp
  with v show ?thesis by auto
qed

text \<open>
  A candidate becomes leader by a vote's answer exactly when the answer grants the vote in
  its current term and brings the votes of that term above half of the members; an answer with
  a newer term makes it a follower of that term, every other answer leaves its role and term.
\<close>

lemma vote_callback_role:
  assumes "VoteCallBack L n res failed = Inr (n', es)" and "status n \<noteq> kLeader"
  shows "(status n' = kLeader \<longleftrightarrow>
      status n = kCandidate \<and> \<not> failed \<and> vr_term res = current_term n \<and> vr_vote_pass res \<and>
      int (length (all_server_addr n)) < 2 * (at_default 0 (vote_pass n) (current_term n) + 1)) \<and>
    current_term n' =
      (if status n = kCandidate \<and> \<not> failed then max (current_term n) (vr_term res) else current_term n) \<and>
    (current_term n < current_term n' \<longrightarrow> status n' = kFollower)"
proof (cases "vote_counts n res failed")
  case True
  let ?v = "at_default 0 (vote_pass n) (current_term n) + 1"
  have half: "int (length (all_server_addr n) div 2) < ?v \<longleftrightarrow> int (length (all_server_addr n)) < 2 * ?v"
    by (auto simp: zdiv_int)
  show ?thesis
    using VoteCallBack_counts(3,6) [OF True assms(1)] True half
    by (auto simp: vote_counts_def)
next
  case False
  then show ?thesis
    using assms by (auto simp: VoteCallBack_def vote_counts_def Let_def split: if_splits)
qed

end
