(* ===== verification/Replication.thy ===== *)
theory Replication
  imports Node BinlogSpec
begin

text \<open>
  Log replication of \<open>src/airdb_impl.cc\<close>. On a follower: \<open>AppendEntriesImpl\<close>, which releases
  the mutex while it writes the entries, so it is three atomic parts. On a leader: one turn of
  the loop of \<open>ReplicateLog\<close> (prepare the request under the mutex, collect the entries without
  it, call, digest the answer under it again), \<open>UpdateCommitIndex\<close>, and the heartbeats.
\<close>

section \<open>The follower\<close>

definition ae_reply :: "'db node \<Rightarrow> bool \<Rightarrow> int \<Rightarrow> bool \<Rightarrow> append_entries_response" where
  "ae_reply n success len busy =
     \<lparr>ar_current_term = current_term n, ar_success = success, ar_log_length = len,
      ar_is_busy = busy\<rparr>"

definition prev_term_of :: "'db leveldb \<Rightarrow> 'db node \<Rightarrow> int \<Rightarrow> int res" where
  "prev_term_of L n prev_index =
     (if prev_index \<ge> 0
      then bindE (ReadSlot_assert L (binlogger n) prev_index) (\<lambda>e. Inr (be_term e))
      else Inr (-1))"

text \<open>Up to the release of the mutex: an answer, or \<open>None\<close> when the handler goes on.\<close>

definition AppendEntries_check ::
  "'db leveldb \<Rightarrow> 'db node \<Rightarrow> append_entries_request
     \<Rightarrow> ('db node \<times> append_entries_response option) res"
where
  "AppendEntries_check L n0 req =
     (if aq_term req < current_term n0
      then Inr (n0, Some (ae_reply n0 False (log_length n0) False))
      else
        let n1 = n0\<lparr>status := kFollower, current_term := aq_term req\<rparr> in
        if status n1 \<noteq> kFollower then Inl AbortCalled
        else
          let n = n1\<lparr>cur_leader_addr := aq_leader_id req, headbeat_cnt := headbeat_cnt n1 + 1\<rparr>;
              prev = aq_prev_log_index req
          in if aq_entries req = [] then Inr (n, None)
             else if prev \<ge> log_length n
             then Inr (n, Some (ae_reply n False (log_length n) False))
             else bindE (prev_term_of L n prev) (\<lambda>prev_log_term.
               if prev_log_term \<noteq> aq_prev_log_term req
               then bindE (Truncate L (binlogger n) (prev - 1)) (\<lambda>b.
                      let n' = n\<lparr>binlogger := b\<rparr>
                      in Inr (n', Some (ae_reply n' False (log_length n') False)))
               else if commit_index n - last_applied_index n > 100000
               then Inr (n, Some (ae_reply n False (log_length n) True))
               else Inr (n, None)))"

text \<open>The write, without the mutex.\<close>

definition AppendEntries_write ::
  "'db leveldb \<Rightarrow> 'db node \<Rightarrow> append_entries_request \<Rightarrow> 'db node res"
where
  "AppendEntries_write L n req =
     (if aq_entries req = [] then Inr n
      else bindE (WriteEntryList L (binlogger n) (aq_entries req)) (\<lambda>b. Inr (n\<lparr>binlogger := b\<rparr>)))"

text \<open>After the mutex is taken again.\<close>

definition AppendEntries_finish ::
  "'db node \<Rightarrow> append_entries_request \<Rightarrow> 'db node \<times> effect list \<times> append_entries_response"
where
  "AppendEntries_finish n req =
     (let old_commit_index = commit_index n;
          n' = n\<lparr>commit_index := min (log_length n - 1) (aq_leader_commit_index req)\<rparr>
      in (n', if commit_index n' > old_commit_index then [SignalCommit] else [],
          ae_reply n' True 0 False))"

text \<open>The handler when nothing else runs between its parts.\<close>

definition AppendEntriesImpl ::
  "'db leveldb \<Rightarrow> 'db node \<Rightarrow> append_entries_request
     \<Rightarrow> ('db node \<times> effect list \<times> append_entries_response) res"
where
  "AppendEntriesImpl L n0 req =
     bindE (AppendEntries_check L n0 req) (\<lambda>(n, reply).
       case reply of
         Some res \<Rightarrow> Inr (n, [], res)
       | None \<Rightarrow> bindE (AppendEntries_write L n req) (\<lambda>n'. Inr (AppendEntries_finish n' req)))"

text \<open>The RPC handler gives the request to a pool of workers.\<close>

definition AppendEntries :: "append_entries_request \<Rightarrow> effect list" where
  "AppendEntries req = [AddAppendEntriesImpl req]"

section \<open>The leader\<close>

text \<open>The loop of \<open>UpdateCommitIndex\<close>; \<open>match_index_[addr]\<close> inserts 0 for a missing address.\<close>

fun update_commit_loop ::
  "'db node \<Rightarrow> int \<Rightarrow> nat \<Rightarrow> nat \<Rightarrow> string list \<Rightarrow> 'db node \<times> effect list"
where
  "update_commit_loop n index half match_cnt [] = (n, [])"
| "update_commit_loop n index half match_cnt (addr # addrs) =
     (let n1 = n\<lparr>match_index := touch 0 addr (match_index n)\<rparr>;
          cnt = (if at_default 0 (match_index n) addr = index then match_cnt + 1 else match_cnt);
          adv = (cnt \<ge> half \<and> index > commit_index n1);
          n2 = (if adv then n1\<lparr>commit_index := index\<rparr> else n1);
          (n3, es) = update_commit_loop n2 index half cnt addrs
      in (n3, (if adv then [SignalCommit] else []) @ es))"

definition UpdateCommitIndex :: "'db node \<Rightarrow> int \<Rightarrow> 'db node \<times> effect list" where
  "UpdateCommitIndex n index =
     update_commit_loop n index (length (all_server_addr n) div 2) 0 (all_server_addr n)"

text \<open>What a turn of \<open>ReplicateLog\<close> remembers across the call.\<close>

record repl_ctx =
  rc_index :: int
  rc_term :: int
  rc_prev_index :: int
  rc_prev_term :: int
  rc_commit :: int
  rc_batch :: int

datatype repl_step = ReplExit | ReplWait | ReplSend repl_ctx

definition ReplicateLog_enter :: "'db node \<Rightarrow> string \<Rightarrow> 'db node" where
  "ReplicateLog_enter n addr = n\<lparr>replicating := insert addr (replicating n)\<rparr>"

definition ReplicateLog_exit :: "'db node \<Rightarrow> string \<Rightarrow> 'db node" where
  "ReplicateLog_exit n addr = n\<lparr>replicating := replicating n - {addr}\<rparr>"

text \<open>
  From the head of the loop to the release of the mutex. A thread that finds nothing to send
  sleeps on \<open>replica_cond_\<close> and, when it wakes up, is at the head again.
\<close>

definition ReplicateLog_prepare ::
  "'db leveldb \<Rightarrow> 'db node \<Rightarrow> string \<Rightarrow> bool \<Rightarrow> ('db node \<times> repl_step) res"
where
  "ReplicateLog_prepare L n0 addr latest_replicating_ok =
     (if stop n0 \<or> status n0 \<noteq> kLeader then Inr (n0, ReplExit)
      else
        let n = n0\<lparr>next_index := touch 0 addr (next_index n0)\<rparr>;
            index = at_default 0 (next_index n0) addr
        in if log_length n \<le> index then Inr (n, ReplWait)
           else
             let prev_index = index - 1;
                 range = log_length n - index;
                 batch_range = (if latest_replicating_ok then range else min 1 range);
                 send = (\<lambda>prev_term. ReplSend \<lparr>rc_index = index, rc_term = current_term n,
                   rc_prev_index = prev_index, rc_prev_term = prev_term,
                   rc_commit = commit_index n, rc_batch = batch_range\<rparr>)
             in if prev_index > -1
                then bindE (ReadSlot L (binlogger n) prev_index) (\<lambda>r.
                       case r of None \<Rightarrow> Inr (n, ReplExit)
                       | Some e \<Rightarrow> Inr (n, send (be_term e)))
                else Inr (n, send (-1)))"

text \<open>The loop that copies the entries into the request; \<open>None\<close> is a bad slot.\<close>

fun collect_entries ::
  "'db leveldb \<Rightarrow> 'db binlogger \<Rightarrow> int \<Rightarrow> nat \<Rightarrow> (pb_entry list \<times> int) option res"
where
  "collect_entries L b idx 0 = Inr (Some ([], -1))"
| "collect_entries L b idx (Suc k) =
     bindE (ReadSlot L b idx) (\<lambda>r.
       case r of None \<Rightarrow> Inr None
       | Some e \<Rightarrow> bindE (collect_entries L b (idx + 1) k) (\<lambda>rest.
           case rest of None \<Rightarrow> Inr None
           | Some (ps, mt) \<Rightarrow> Inr (Some (pb_of_entry e # ps, max (be_term e) mt))))"

definition ReplicateLog_collect ::
  "'db leveldb \<Rightarrow> 'db node \<Rightarrow> repl_ctx \<Rightarrow> (append_entries_request \<times> int) option res"
where
  "ReplicateLog_collect L n c =
     bindE (collect_entries L (binlogger n) (rc_index c) (nat (rc_batch c))) (\<lambda>r.
       case r of None \<Rightarrow> Inr None
       | Some (ps, max_term) \<Rightarrow>
           Inr (Some (\<lparr>aq_term = rc_term c, aq_leader_id = self_addr n,
             aq_prev_log_index = rc_prev_index c, aq_prev_log_term = rc_prev_term c,
             aq_leader_commit_index = rc_commit c, aq_entries = ps\<rparr>, max_term)))"

text \<open>
  After the call: the new state, the new \<open>latest_replicating_ok\<close>, the effects, and whether the
  loop goes on. \<open>None\<close> is a failed call.
\<close>

definition ReplicateLog_finish ::
  "'db node \<Rightarrow> string \<Rightarrow> repl_ctx \<Rightarrow> int \<Rightarrow> bool \<Rightarrow> append_entries_response option
     \<Rightarrow> 'db node \<times> bool \<times> effect list \<times> bool"
where
  "ReplicateLog_finish n0 addr c max_term latest_ok ret =
     (let n = (case ret of Some res \<Rightarrow>
                   if ar_current_term res > current_term n0
                   then SwitchToFollower n0 (ar_current_term res) else n0
               | None \<Rightarrow> n0)
      in if status n \<noteq> kLeader then (n, latest_ok, [], False)
         else case ret of
           None \<Rightarrow> (n, False, [], True)
         | Some res \<Rightarrow>
             if ar_success res then
               let e = rc_index c + rc_batch c;
                   n1 = n\<lparr>next_index := (next_index n)(addr := Some e),
                          match_index := (match_index n)(addr := Some (e - 1))\<rparr>;
                   (n2, es) = (if max_term = current_term n1 then UpdateCommitIndex n1 (e - 1)
                               else (n1, []))
               in (n2, True, es, True)
             else if ar_is_busy res then (n, True, [], True)
             else
               let i = min (at_default 0 (next_index n) addr - 1) (ar_log_length res);
                   i' = (if i < 0 then 0 else i)
               in (n\<lparr>next_index := (next_index n)(addr := Some i')\<rparr>, latest_ok, [], True))"

section \<open>Heartbeats\<close>

definition heartbeat_request :: "'db node \<Rightarrow> append_entries_request" where
  "heartbeat_request n =
     \<lparr>aq_term = current_term n, aq_leader_id = self_addr n, aq_prev_log_index = 0,
      aq_prev_log_term = 0, aq_leader_commit_index = commit_index n, aq_entries = []\<rparr>"

definition BroadCastHeartBeat :: "int \<Rightarrow> 'db node \<Rightarrow> effect list" where
  "BroadCastHeartBeat heartbeat_delay n =
     (if stop n \<or> status n \<noteq> kLeader then []
      else map (\<lambda>addr. AsyncAppend addr (heartbeat_request n))
             (filter (\<lambda>addr. addr \<noteq> self_addr n) (all_server_addr n))
           @ [DelayBroadCastHeartBeat heartbeat_delay])"

definition HeartBeatCallBack :: "'db node \<Rightarrow> append_entries_response \<Rightarrow> bool \<Rightarrow> 'db node" where
  "HeartBeatCallBack n res failed =
     (if status n \<noteq> kLeader then n
      else if \<not> failed \<and> ar_current_term res > current_term n
      then SwitchToFollower n (ar_current_term res)
      else n)"

section \<open>Frame lemmas\<close>

lemma AppendEntries_check_steps_down:
  "AppendEntries_check L n req = Inr (n', r) \<Longrightarrow> steps_down n n'"
  by (auto simp: AppendEntries_check_def steps_down_def bindE_eq_Inr Let_def split: if_splits)

lemma AppendEntries_write_steps_down:
  "AppendEntries_write L n req = Inr n' \<Longrightarrow> steps_down n n'"
  by (auto simp: AppendEntries_write_def bindE_eq_Inr split: if_splits)

lemma AppendEntries_finish_steps_down: "steps_down n (fst (AppendEntries_finish n req))"
  by (simp add: AppendEntries_finish_def Let_def)

text \<open>\<open>UpdateCommitIndex\<close> changes nothing but the commit index and the inserted match indices.\<close>

lemma update_commit_loop_frame:
  "\<exists>c m. fst (update_commit_loop n index half k addrs) = n\<lparr>commit_index := c, match_index := m\<rparr>"
proof (induction addrs arbitrary: n k)
  case Nil
  have "n = n\<lparr>commit_index := commit_index n, match_index := match_index n\<rparr>" by simp
  then show ?case by (metis fst_conv update_commit_loop.simps(1))
next
  case (Cons addr addrs)
  let ?n1 = "n\<lparr>match_index := touch 0 addr (match_index n)\<rparr>"
  let ?cnt = "if at_default 0 (match_index n) addr = index then k + 1 else k"
  let ?n2 = "if ?cnt \<ge> half \<and> index > commit_index ?n1 then ?n1\<lparr>commit_index := index\<rparr> else ?n1"
  from Cons.IH [of ?n2 ?cnt] obtain c m where
    "fst (update_commit_loop ?n2 index half ?cnt addrs) = ?n2\<lparr>commit_index := c, match_index := m\<rparr>"
    by blast
  moreover have "?n2\<lparr>commit_index := c, match_index := m\<rparr> = n\<lparr>commit_index := c, match_index := m\<rparr>"
    by simp
  moreover have "fst (update_commit_loop n index half k (addr # addrs)) =
      fst (update_commit_loop ?n2 index half ?cnt addrs)"
    by (simp only: update_commit_loop.simps Let_def case_prod_beta fst_conv)
  ultimately show ?case by metis
qed

lemma UpdateCommitIndex_frame:
  obtains c m where "fst (UpdateCommitIndex n i) = n\<lparr>commit_index := c, match_index := m\<rparr>"
  unfolding UpdateCommitIndex_def using update_commit_loop_frame by blast

lemma UpdateCommitIndex_steps_down: "UpdateCommitIndex n i = (n', es) \<Longrightarrow> steps_down n n'"
  by (rule UpdateCommitIndex_frame [of n i]) (auto simp: steps_down_def)

lemma ReplicateLog_prepare_steps_down:
  "ReplicateLog_prepare L n addr ok = Inr (n', r) \<Longrightarrow> steps_down n n'"
  by (auto simp: ReplicateLog_prepare_def Let_def bindE_eq_Inr split: if_splits option.splits)

lemma ReplicateLog_finish_steps_down:
  assumes "ReplicateLog_finish n addr c mt ok ret = (n', ok', es, go)"
  shows "steps_down n n'"
proof -
  let ?n = "case ret of Some res \<Rightarrow>
      if ar_current_term res > current_term n then SwitchToFollower n (ar_current_term res) else n
    | None \<Rightarrow> n"
  have "steps_down n ?n" by (auto split: option.split)
  also have "steps_down ?n n'"
    using assms
    by (auto simp: ReplicateLog_finish_def Let_def steps_down_def
        dest!: UpdateCommitIndex_steps_down split: if_splits option.splits prod.splits)
  finally show ?thesis .
qed

lemma HeartBeatCallBack_steps_down: "steps_down n (HeartBeatCallBack n res failed)"
  by (simp add: HeartBeatCallBack_def)

end
