(* ===== verification/Service.thy ===== *)
theory Service
  imports Node BinlogSpec
begin

text \<open>
  What clients see of \<open>src/airdb_impl.cc\<close>: the calls \<open>Put\<close>, \<open>Get\<close>, \<open>Delete\<close>, \<open>Lock\<close> and
  \<open>UnLock\<close>, and the thread \<open>CommitIndex\<close> that applies committed entries to the data store and
  answers the waiting calls.
\<close>

section \<open>Client calls\<close>

record sdk_reply =
  rp_success :: bool
  rp_leader_id :: string

record get_response =
  gr_hit :: bool
  gr_success :: bool
  gr_value :: string
  gr_leader_id :: string

text \<open>The common tail of the writing calls: log the entry, remember the call, wake the threads.\<close>

definition write_and_wait ::
  "'db leveldb \<Rightarrow> 'db node \<Rightarrow> binlog_entry \<Rightarrow> (sdk_ack \<Rightarrow> sdk_ack) \<Rightarrow> ('db node \<times> effect list) res"
where
  "write_and_wait L n log_entry set_ack =
     bindE (WriteEntry L (binlogger n) log_entry) (\<lambda>b.
       let n1 = n\<lparr>binlogger := b\<rparr>;
           cur_index = log_length n1 - 1;
           ack = at_default empty_ack (sdk_ack_map n1) cur_index
       in Inr (n1\<lparr>sdk_ack_map := (sdk_ack_map n1)(cur_index := Some (set_ack ack))\<rparr>,
               [BroadcastReplica]))"

text \<open>An answer at once (\<open>Inl\<close>), or a call that waits for its entry to be applied.\<close>

type_synonym 'db call_result = "(sdk_reply + 'db node \<times> effect list) res"

definition waiting :: "('db node \<times> effect list) res \<Rightarrow> 'db call_result" where
  "waiting r = bindE r (\<lambda>x. Inr (Inr x))"

definition Put :: "'db leveldb \<Rightarrow> 'db node \<Rightarrow> call \<Rightarrow> string \<Rightarrow> string \<Rightarrow> 'db call_result" where
  "Put L n c key val =
     (if status n \<noteq> kLeader then Inr (Inl \<lparr>rp_success = False, rp_leader_id = []\<rparr>)
      else waiting (write_and_wait L n
             \<lparr>be_op = kPutOp, be_key = key, be_value = val, be_term = current_term n\<rparr>
             (\<lambda>ack. ack\<lparr>ack_done := Some c, put_res := Some c\<rparr>)))"

definition not_leader_reply :: "'db node \<Rightarrow> sdk_reply option" where
  "not_leader_reply n =
     (if status n = kFollower then Some \<lparr>rp_success = False, rp_leader_id = cur_leader_addr n\<rparr>
      else if status n = kCandidate then Some \<lparr>rp_success = False, rp_leader_id = []\<rparr>
      else None)"

definition Delete :: "'db leveldb \<Rightarrow> 'db node \<Rightarrow> call \<Rightarrow> string \<Rightarrow> 'db call_result" where
  "Delete L n c key =
     (case not_leader_reply n of
        Some r \<Rightarrow> Inr (Inl r)
      | None \<Rightarrow> waiting (write_and_wait L n
             \<lparr>be_op = kDeleteOp, be_key = key, be_value = [], be_term = current_term n\<rparr>
             (\<lambda>ack. ack\<lparr>ack_done := Some c, del_res := Some c\<rparr>)))"

definition Lock :: "'db leveldb \<Rightarrow> 'db node \<Rightarrow> call \<Rightarrow> string \<Rightarrow> 'db call_result" where
  "Lock L n c lock_key =
     (case not_leader_reply n of
        Some r \<Rightarrow> Inr (Inl r)
      | None \<Rightarrow> waiting (write_and_wait L n
             \<lparr>be_op = kLockOp, be_key = lock_key, be_value = lock_key, be_term = current_term n\<rparr>
             (\<lambda>ack. ack\<lparr>ack_done := Some c, lock_res := Some c\<rparr>)))"

text \<open>The entry \<open>UnLock\<close> writes has the operation \<open>kLockOp\<close>, as in the source.\<close>

definition UnLock :: "'db leveldb \<Rightarrow> 'db node \<Rightarrow> call \<Rightarrow> string \<Rightarrow> 'db call_result" where
  "UnLock L n c unlock_key =
     (case not_leader_reply n of
        Some r \<Rightarrow> Inr (Inl r)
      | None \<Rightarrow> waiting (write_and_wait L n
             \<lparr>be_op = kLockOp, be_key = unlock_key, be_value = unlock_key, be_term = current_term n\<rparr>
             (\<lambda>ack. ack\<lparr>ack_done := Some c, unlock_res := Some c\<rparr>)))"

text \<open>\<open>None\<close>: the handler returns without running the closure.\<close>

definition Get :: "'db leveldb \<Rightarrow> 'db node \<Rightarrow> string \<Rightarrow> get_response option res" where
  "Get L n key =
     (if status n \<noteq> kLeader
      then Inr (Some \<lparr>gr_hit = False, gr_success = False, gr_value = [],
                      gr_leader_id = cur_leader_addr n\<rparr>)
      else case StorageKV_Get L (data_store n) key of
        (ret, None) \<Rightarrow> Inr None
      | (ret, Some value) \<Rightarrow>
          bindE (ParseValue value) (\<lambda>(op, real_value).
            Inr (Some (if op = kLockOp
              then \<lparr>gr_hit = False, gr_success = False, gr_value = [], gr_leader_id = self_addr n\<rparr>
              else if op = kPutOp
              then \<lparr>gr_hit = True, gr_success = True, gr_value = real_value,
                    gr_leader_id = self_addr n\<rparr>
              else \<lparr>gr_hit = False, gr_success = False, gr_value = [],
                    gr_leader_id = self_addr n\<rparr>))))"

section \<open>Applying committed entries\<close>

text \<open>The \<open>switch\<close> on the operation; the return codes of the store are not looked at.\<close>

definition apply_entry :: "'db leveldb \<Rightarrow> 'db \<Rightarrow> binlog_entry \<Rightarrow> 'db" where
  "apply_entry L ds e =
     (case be_op e of
        kPutOp \<Rightarrow> fst (StorageKV_Put L ds (be_key e) (type_and_value (be_op e) (be_value e)))
      | kLockOp \<Rightarrow> fst (StorageKV_Put L ds (be_key e) (type_and_value (be_op e) (be_value e)))
      | kDeleteOp \<Rightarrow> fst (StorageKV_Delete L ds (be_key e))
      | kUnLockOp \<Rightarrow> fst (StorageKV_Delete L ds (be_key e))
      | _ \<Rightarrow> ds)"

text \<open>The answers to the calls an acknowledgement remembers, in the order of the code.\<close>

definition ack_effects :: "string \<Rightarrow> sdk_ack \<Rightarrow> effect list" where
  "ack_effects leader ack =
     (case put_res ack of None \<Rightarrow> [] | Some r \<Rightarrow> [SetSuccess r, RunDone (ack_done ack)]) @
     (case del_res ack of None \<Rightarrow> []
      | Some r \<Rightarrow> [SetSuccess r, SetLeaderId r leader, RunDone (ack_done ack)]) @
     (case lock_res ack of None \<Rightarrow> []
      | Some r \<Rightarrow> [SetSuccess r, SetLeaderId r leader, RunDone (ack_done ack)]) @
     (case unlock_res ack of None \<Rightarrow> []
      | Some r \<Rightarrow> [SetSuccess r, SetLeaderId r leader, RunDone (ack_done ack)])"

text \<open>One turn of the loop: the part without the mutex, then the part under it.\<close>

definition CommitIndex_apply :: "'db leveldb \<Rightarrow> 'db node \<Rightarrow> int \<Rightarrow> 'db node res" where
  "CommitIndex_apply L n i =
     bindE (ReadSlot_assert L (binlogger n) i) (\<lambda>e.
       Inr (n\<lparr>data_store := apply_entry L (data_store n) e\<rparr>))"

definition CommitIndex_ack :: "'db leveldb \<Rightarrow> 'db node \<Rightarrow> int \<Rightarrow> 'db node \<times> effect list" where
  "CommitIndex_ack L n i =
     (let (n1, es) =
            (case (status n = kLeader, sdk_ack_map n i) of
               (True, Some ack) \<Rightarrow>
                 (n\<lparr>sdk_ack_map := (sdk_ack_map n)(i := None)\<rparr>, ack_effects (cur_leader_addr n) ack)
             | _ \<Rightarrow> (n, []));
          applied = last_applied_index n1 + 1
      in (n1\<lparr>last_applied_index := applied,
             data_store := fst (StorageKV_Put L (data_store n1) tag_last_applied_index
                                  (IntToString applied))\<rparr>, es))"

definition CommitIndex_one :: "'db leveldb \<Rightarrow> 'db node \<Rightarrow> int \<Rightarrow> ('db node \<times> effect list) res" where
  "CommitIndex_one L n i = bindE (CommitIndex_apply L n i) (\<lambda>n'. Inr (CommitIndex_ack L n' i))"

text \<open>The loop variable is an \<open>int\<close>; incrementing the largest one overflows.\<close>

function commit_loop ::
  "'db leveldb \<Rightarrow> 'db node \<Rightarrow> int \<Rightarrow> int \<Rightarrow> ('db node \<times> effect list) res"
where
  "commit_loop L n i end_idx =
     (if i \<le> end_idx then
        bindE (CommitIndex_one L n i) (\<lambda>(n', es).
          if i = 2147483647 then Inl SignedOverflow
          else bindE (commit_loop L n' (i + 1) end_idx) (\<lambda>(n'', es'). Inr (n'', es @ es')))
      else Inr (n, []))"
  by pat_completeness auto
termination
  by (relation "measure (\<lambda>(L, n, i, end_idx). nat (end_idx + 1 - i))") auto

declare commit_loop.simps [simp del]

text \<open>One round of the thread, from a wake-up with committed entries to apply.\<close>

definition CommitIndex :: "'db leveldb \<Rightarrow> 'db node \<Rightarrow> ('db node \<times> effect list) res" where
  "CommitIndex L n =
     (if stop n \<or> commit_index n \<le> last_applied_index n then Inr (n, [])
      else commit_loop L n (i32 (last_applied_index n + 1)) (commit_index n))"

section \<open>Frame lemmas\<close>

lemma write_and_wait_steps_down: "write_and_wait L n e f = Inr (n', es) \<Longrightarrow> steps_down n n'"
  by (auto simp: write_and_wait_def bindE_eq_Inr Let_def steps_down_def)

lemma waiting_eq [simp]: "waiting r = Inr x \<longleftrightarrow> (\<exists>y. r = Inr y \<and> x = Inr y)"
  by (auto simp: waiting_def bindE_eq_Inr)

lemma client_call_steps_down:
  "Put L n c k v = Inr (Inr (n', es)) \<Longrightarrow> steps_down n n'"
  "Delete L n c k = Inr (Inr (n', es)) \<Longrightarrow> steps_down n n'"
  "Lock L n c k = Inr (Inr (n', es)) \<Longrightarrow> steps_down n n'"
  "UnLock L n c k = Inr (Inr (n', es)) \<Longrightarrow> steps_down n n'"
  by (auto simp: Put_def Delete_def Lock_def UnLock_def dest: write_and_wait_steps_down
      split: if_splits option.splits)

lemma CommitIndex_apply_steps_down: "CommitIndex_apply L n i = Inr n' \<Longrightarrow> steps_down n n'"
  by (auto simp: CommitIndex_apply_def bindE_eq_Inr)

lemma CommitIndex_ack_steps_down: "steps_down n (fst (CommitIndex_ack L n i))"
  by (auto simp: CommitIndex_ack_def Let_def steps_down_def split: option.split bool.split)

end
