(* ===== verification/GarbageCollection.thy ===== *)
theory GarbageCollection
  imports Service
begin

text \<open>
  Deletion of applied log entries (\<open>GarbageClean\<close>, \<open>CleanBinlog\<close>, \<open>DelBinlog\<close> of
  \<open>src/airdb_impl.cc\<close>). The leader asks every server how far it has applied the log and tells
  all of them to delete what everybody has applied.
\<close>

definition int64_max :: int where
  "int64_max = 9223372036854775807"

text \<open>The loop over the servers' answers; a failed call (\<open>None\<close>) ends the round.\<close>

fun gc_min_applied :: "int \<Rightarrow> show_status_response option list \<Rightarrow> int option" where
  "gc_min_applied m [] = Some m"
| "gc_min_applied m (None # rs) = None"
| "gc_min_applied m (Some r # rs) = gc_min_applied (min m (sr_last_applied r)) rs"

text \<open>
  A round, given the servers' answers: the new state, the \<open>CleanBinlog\<close> calls and the timer of
  the next round (\<open>db_gc_interval\<close> is in seconds, an \<open>int32_t\<close>).
\<close>

definition GarbageClean ::
  "int \<Rightarrow> 'db node \<Rightarrow> show_status_response option list \<Rightarrow> 'db node \<times> effect list"
where
  "GarbageClean db_gc_interval n answers =
     (let again = [DelayGarbageClean (i32 (db_gc_interval * 1000))] in
      if status n \<noteq> kLeader then (n, again)
      else case gc_min_applied int64_max answers of
        None \<Rightarrow> (n, again)
      | Some min_applied_index \<Rightarrow>
          let safe_clean_index = min_applied_index - 1;
              old_index = last_safe_clean_index n;
              n' = n\<lparr>last_safe_clean_index := safe_clean_index\<rparr>
          in (n', (if old_index \<noteq> safe_clean_index
                   then map (\<lambda>addr. SyncCleanBinlog addr safe_clean_index) (all_server_addr n')
                   else []) @ again))"

text \<open>The answer, and the task that deletes.\<close>

definition CleanBinlog :: "'db node \<Rightarrow> int \<Rightarrow> bool \<times> effect list" where
  "CleanBinlog n del_end_index =
     (if last_applied_index n < del_end_index then (False, [])
      else (True, [AddDelBinlog (del_end_index - 1)]))"

definition DelBinlog :: "'db leveldb \<Rightarrow> 'db node \<Rightarrow> int \<Rightarrow> 'db node" where
  "DelBinlog L n index = n\<lparr>binlogger := RemoveSlotBefore L (binlogger n) index\<rparr>"

lemma GarbageClean_steps_down: "steps_down n (fst (GarbageClean interval n answers))"
  by (simp add: GarbageClean_def Let_def split: option.split)

lemma DelBinlog_steps_down [simp]: "steps_down n (DelBinlog L n i)"
  by (simp add: DelBinlog_def)

end
