(* ===== verification/Cluster.thy ===== *)
theory Cluster
  imports Election Replication Service GarbageCollection
begin

text \<open>
  A cluster of servers that exchange the messages of leader election over a network that may
  lose, delay and reorder them. Every other message (log entries, heartbeats, client calls,
  answers to all of these) is arbitrary: the network may deliver any content at any time, so
  the invariants need no assumption on what the other handlers send. The record also keeps two
  history variables that no handler reads: the votes that were counted and the elections that
  were won. The servers do not restart: a restarted server forgets its term and its votes.
\<close>

section \<open>Majorities\<close>

text \<open>What a voting system rests on: two quorums share a member, and a member votes once.\<close>

locale voting =
  fixes members :: "'p set" and quorum :: "'p set \<Rightarrow> bool"
  assumes intersect: "quorum Q \<Longrightarrow> quorum R \<Longrightarrow> Q \<subseteq> members \<Longrightarrow> R \<subseteq> members \<Longrightarrow> Q \<inter> R \<noteq> {}"
begin

lemma unique_winner:
  assumes "quorum Q" and "quorum R" and "Q \<subseteq> members" and "R \<subseteq> members"
    and "\<forall>p \<in> Q. vote p = Some a" and "\<forall>p \<in> R. vote p = Some b"
  shows "a = b"
proof -
  from assms(1-4) intersect obtain p where "p \<in> Q" and "p \<in> R" by blast
  with assms(5,6) show ?thesis by force
qed

end

definition majority :: "string list \<Rightarrow> string set \<Rightarrow> bool" where
  "majority M Q \<longleftrightarrow> length M div 2 < card Q"

interpretation majority: voting "set M" "majority M" for M
proof
  fix Q R assume q: "majority M Q" "majority M R" and sub: "Q \<subseteq> set M" "R \<subseteq> set M"
  show "Q \<inter> R \<noteq> {}"
  proof
    assume "Q \<inter> R = {}"
    then have "card Q + card R = card (Q \<union> R)"
      using sub by (simp add: card_Un_disjoint finite_subset)
    also have "\<dots> \<le> card (set M)" using sub by (intro card_mono) auto
    also have "\<dots> \<le> length M" by (rule card_length)
    finally show False using q unfolding majority_def by linarith
  qed
qed

section \<open>The steps of a server that are not about votes\<close>

inductive server_step :: "'db leveldb \<Rightarrow> 'db node \<Rightarrow> 'db node \<Rightarrow> bool" for L where
  ae_check: "AppendEntries_check L n req = Inr (n', r) \<Longrightarrow> server_step L n n'"
| ae_write: "AppendEntries_write L n req = Inr n' \<Longrightarrow> server_step L n n'"
| ae_finish: "AppendEntries_finish n req = (n', es, r) \<Longrightarrow> server_step L n n'"
| repl_enter: "server_step L n (ReplicateLog_enter n addr)"
| repl_exit: "server_step L n (ReplicateLog_exit n addr)"
| repl_prepare: "ReplicateLog_prepare L n addr ok = Inr (n', r) \<Longrightarrow> server_step L n n'"
| repl_finish: "ReplicateLog_finish n addr c mt ok ret = (n', ok', es, go) \<Longrightarrow> server_step L n n'"
| heartbeat: "server_step L n (HeartBeatCallBack n res failed)"
| put: "Put L n c k v = Inr (Inr (n', es)) \<Longrightarrow> server_step L n n'"
| del: "Delete L n c k = Inr (Inr (n', es)) \<Longrightarrow> server_step L n n'"
| lock: "Lock L n c k = Inr (Inr (n', es)) \<Longrightarrow> server_step L n n'"
| unlock: "UnLock L n c k = Inr (Inr (n', es)) \<Longrightarrow> server_step L n n'"
| commit_apply: "CommitIndex_apply L n i = Inr n' \<Longrightarrow> server_step L n n'"
| commit_ack: "CommitIndex_ack L n i = (n', es) \<Longrightarrow> server_step L n n'"
| gc: "GarbageClean interval n answers = (n', es) \<Longrightarrow> server_step L n n'"
| del_binlog: "server_step L n (DelBinlog L n i)"

lemma server_step_steps_down: "server_step L n n' \<Longrightarrow> steps_down n n'"
proof (induction rule: server_step.induct)
  case (ae_finish n req n' es r)
  then show ?case using AppendEntries_finish_steps_down [of n req] by simp
next
  case (commit_ack n i n' es)
  then show ?case using CommitIndex_ack_steps_down [of n L i] by simp
next
  case (gc interval n answers n' es)
  then show ?case using GarbageClean_steps_down [of n interval answers] by simp
qed (auto simp: ReplicateLog_enter_def ReplicateLog_exit_def
    dest: AppendEntries_check_steps_down AppendEntries_write_steps_down client_call_steps_down
      ReplicateLog_prepare_steps_down ReplicateLog_finish_steps_down CommitIndex_apply_steps_down
    intro: HeartBeatCallBack_steps_down)

section \<open>The cluster\<close>

text \<open>A vote call is identified by the candidate, its term and the server called.\<close>

type_synonym vote_call = "string \<times> int \<times> string"

record 'db cluster =
  cl_node :: "string \<Rightarrow> 'db node"
  cl_requests :: "(string \<times> vote_request) set"
  cl_calls :: "vote_call set"                       \<comment> \<open>calls whose callback has not run\<close>
  cl_replies :: "(vote_call \<times> vote_response) set"
  cl_counted :: "vote_call set"                     \<comment> \<open>history: votes that were counted\<close>
  cl_elected :: "(int \<times> string) set"               \<comment> \<open>history: elections that were won\<close>

definition vote_counted :: "'db cluster \<Rightarrow> string \<Rightarrow> int \<Rightarrow> string set" where
  "vote_counted c a t = {b. (a, t, b) \<in> cl_counted c}"

inductive cluster_step :: "'db leveldb \<Rightarrow> string list \<Rightarrow> 'db cluster \<Rightarrow> 'db cluster \<Rightarrow> bool"
  for L M where
  timeout: "a \<in> set M \<Longrightarrow> VoteLeader (cl_node c a) d = (n', es) \<Longrightarrow>
     cluster_step L M c (c\<lparr>cl_node := (cl_node c)(a := n'),
       cl_requests := cl_requests c \<union> {(b, r). AsyncVote b r \<in> set es},
       cl_calls := cl_calls c \<union> {(a, t, b) | t b. \<exists>r. AsyncVote b r \<in> set es \<and> t = vq_term r}\<rparr>)"
| vote: "(b, r) \<in> cl_requests c \<Longrightarrow> b \<in> set M \<Longrightarrow> Vote (cl_node c b) r = (n', resp) \<Longrightarrow>
     cluster_step L M c (c\<lparr>cl_node := (cl_node c)(b := n'),
       cl_replies := cl_replies c \<union>
         {((vq_candidate_addr r, vq_term r, b), x) | x. resp = Some x}\<rparr>)"
| callback: "a \<in> set M \<Longrightarrow> (a, t, b) \<in> cl_calls c \<Longrightarrow> failed \<or> ((a, t, b), res) \<in> cl_replies c \<Longrightarrow>
     VoteCallBack L (cl_node c a) res failed = Inr (n', es) \<Longrightarrow>
     cluster_step L M c (c\<lparr>cl_node := (cl_node c)(a := n'),
       cl_calls := cl_calls c - {(a, t, b)},
       cl_counted := cl_counted c \<union>
         (if vote_counts (cl_node c a) res failed then {(a, t, b)} else {}),
       cl_elected := cl_elected c \<union>
         (if vote_counts (cl_node c a) res failed \<and> status n' = kLeader
          then {(current_term n', a)} else {})\<rparr>)"
| server: "a \<in> set M \<Longrightarrow> server_step L (cl_node c a) n' \<Longrightarrow>
     cluster_step L M c (c\<lparr>cl_node := (cl_node c)(a := n')\<rparr>)"

definition cluster_init :: "'db leveldb \<Rightarrow> string list \<Rightarrow> 'db cluster \<Rightarrow> bool" where
  "cluster_init L M c \<longleftrightarrow>
     (\<forall>a \<in> set M. \<exists>b ds d es. AirDBImpl_init L a M b ds d = Inr (cl_node c a, es)) \<and>
     cl_requests c = {} \<and> cl_calls c = {} \<and> cl_replies c = {} \<and> cl_counted c = {} \<and>
     cl_elected c = {}"

inductive cluster_reachable :: "'db leveldb \<Rightarrow> string list \<Rightarrow> 'db cluster \<Rightarrow> bool" for L M where
  start: "cluster_init L M c \<Longrightarrow> cluster_reachable L M c"
| step: "cluster_reachable L M c \<Longrightarrow> cluster_step L M c c' \<Longrightarrow> cluster_reachable L M c'"

section \<open>The invariant\<close>

text \<open>What a server's own state says about its votes.\<close>

definition node_inv :: "string list \<Rightarrow> string \<Rightarrow> 'db node \<Rightarrow> bool" where
  "node_inv M a n \<longleftrightarrow>
     self_addr n = a \<and> all_server_addr n = M \<and>
     (\<forall>t. current_term n < t \<longrightarrow> vote_for n t = None \<and> vote_pass n t = None) \<and>
     (\<forall>t. vote_pass n t \<noteq> None \<longrightarrow> vote_for n t = Some a) \<and>
     (status n = kCandidate \<longrightarrow> vote_pass n (current_term n) \<noteq> None)"

text \<open>How a server's count agrees with the votes that were counted for it.\<close>

definition count_inv :: "string \<Rightarrow> 'db node \<Rightarrow> (int \<Rightarrow> string set) \<Rightarrow> bool" where
  "count_inv a n V \<longleftrightarrow>
     (\<forall>t. finite (V t) \<and> a \<notin> V t \<and>
        (case vote_pass n t of None \<Rightarrow> V t = {} | Some k \<Rightarrow> k = 1 + int (card (V t))))"

definition nodes_inv :: "string list \<Rightarrow> 'db cluster \<Rightarrow> bool" where
  "nodes_inv M c \<longleftrightarrow>
     (\<forall>a \<in> set M. node_inv M a (cl_node c a) \<and>
        count_inv a (cl_node c a) (vote_counted c a) \<and>
        (status (cl_node c a) = kLeader \<longrightarrow> (current_term (cl_node c a), a) \<in> cl_elected c))"

definition calls_inv :: "string list \<Rightarrow> 'db cluster \<Rightarrow> bool" where
  "calls_inv M c \<longleftrightarrow>
     (\<forall>a t b. (a, t, b) \<in> cl_calls c \<longrightarrow>
        a \<in> set M \<and> b \<in> set M \<and> b \<noteq> a \<and> t \<le> current_term (cl_node c a) \<and> (a, t, b) \<notin> cl_counted c)"

definition replies_inv :: "string list \<Rightarrow> 'db cluster \<Rightarrow> bool" where
  "replies_inv M c \<longleftrightarrow>
     (\<forall>a t b x. ((a, t, b), x) \<in> cl_replies c \<and> vr_vote_pass x \<longrightarrow>
        vr_term x = t \<and> b \<in> set M \<and> vote_for (cl_node c b) t = Some a)"

definition counted_inv :: "string list \<Rightarrow> 'db cluster \<Rightarrow> bool" where
  "counted_inv M c \<longleftrightarrow>
     (\<forall>a t b. (a, t, b) \<in> cl_counted c \<longrightarrow>
        a \<in> set M \<and> b \<in> set M \<and> t \<le> current_term (cl_node c a) \<and> vote_for (cl_node c b) t = Some a)"

definition elected_inv :: "string list \<Rightarrow> 'db cluster \<Rightarrow> bool" where
  "elected_inv M c \<longleftrightarrow>
     (\<forall>t a. (t, a) \<in> cl_elected c \<longrightarrow> a \<in> set M \<and>
        (\<exists>k. vote_pass (cl_node c a) t = Some k \<and> int (length M div 2) < k))"

definition cluster_inv :: "string list \<Rightarrow> 'db cluster \<Rightarrow> bool" where
  "cluster_inv M c \<longleftrightarrow>
     nodes_inv M c \<and> calls_inv M c \<and> replies_inv M c \<and> counted_inv M c \<and> elected_inv M c"

section \<open>Votes are never taken back\<close>

definition grows :: "'db node \<Rightarrow> 'db node \<Rightarrow> bool" where
  "grows n n' \<longleftrightarrow>
     current_term n \<le> current_term n' \<and>
     (\<forall>t a. vote_for n t = Some a \<longrightarrow> vote_for n' t = Some a) \<and>
     (\<forall>t k. vote_pass n t = Some k \<longrightarrow> (\<exists>k' \<ge> k. vote_pass n' t = Some k'))"

lemma grows_refl: "grows n n"
  by (auto simp: grows_def)

lemma steps_down_grows: "steps_down n n' \<Longrightarrow> grows n n'"
  by (auto simp: steps_down_def grows_def)

lemma VoteLeader_grows:
  assumes inv: "node_inv M a n" and run: "VoteLeader n d = (n', es)"
  shows "grows n n'"
proof (cases "starts_round n")
  case True
  have "vote_for n (current_term n + 1) = None" "vote_pass n (current_term n + 1) = None"
    using inv by (auto simp: node_inv_def)
  with VoteLeader_round [OF True run] show ?thesis by (auto simp: grows_def)
next
  case False
  then show ?thesis using run by (intro steps_down_grows VoteLeader_idle(1))
qed

lemma Vote_grows: "Vote n r = (n', resp) \<Longrightarrow> grows n n'"
  by (erule Vote_cases) (auto simp: grows_def dest: steps_down_grows)

lemma VoteCallBack_grows:
  assumes "VoteCallBack L n res failed = Inr (n', es)"
  shows "grows n n'"
proof (cases "vote_counts n res failed")
  case True
  then show ?thesis
    using VoteCallBack_counts [OF True assms] by (auto simp: grows_def)
next
  case False
  then show ?thesis using assms by (intro steps_down_grows VoteCallBack_other)
qed

text \<open>
  Replacing a server by a later state of it keeps what the messages and the history say: once
  for a single message, once for the invariants.
\<close>

lemma old_call:
  assumes "cluster_inv M c" and "grows (cl_node c a) n'" and "(x, t, b) \<in> cl_calls c"
  shows "x \<in> set M \<and> b \<in> set M \<and> b \<noteq> x \<and> t \<le> current_term (((cl_node c)(a := n')) x) \<and>
    (x, t, b) \<notin> cl_counted c"
proof -
  have "x \<in> set M \<and> b \<in> set M \<and> b \<noteq> x \<and> t \<le> current_term (cl_node c x) \<and> (x, t, b) \<notin> cl_counted c"
    using assms(1,3) by (simp add: cluster_inv_def calls_inv_def)
  with assms(2) show ?thesis by (cases "x = a") (auto simp: grows_def)
qed

lemma old_reply:
  assumes "cluster_inv M c" and "grows (cl_node c a) n'" and "((x, t, b), y) \<in> cl_replies c"
    and "vr_vote_pass y"
  shows "vr_term y = t \<and> b \<in> set M \<and> vote_for (((cl_node c)(a := n')) b) t = Some x"
proof -
  have "vr_term y = t \<and> b \<in> set M \<and> vote_for (cl_node c b) t = Some x"
    using assms(1,3,4) by (simp add: cluster_inv_def replies_inv_def)
  with assms(2) show ?thesis by (cases "b = a") (auto simp: grows_def)
qed

lemma old_counted:
  assumes "cluster_inv M c" and "grows (cl_node c a) n'" and "(x, t, b) \<in> cl_counted c"
  shows "x \<in> set M \<and> b \<in> set M \<and> t \<le> current_term (((cl_node c)(a := n')) x) \<and>
    vote_for (((cl_node c)(a := n')) b) t = Some x"
proof -
  have "x \<in> set M \<and> b \<in> set M \<and> t \<le> current_term (cl_node c x) \<and> vote_for (cl_node c b) t = Some x"
    using assms(1,3) by (simp add: cluster_inv_def counted_inv_def)
  with assms(2) show ?thesis by (cases "x = a"; cases "b = a") (auto simp: grows_def)
qed

lemma old_elected:
  assumes "cluster_inv M c" and "grows (cl_node c a) n'" and "(t, x) \<in> cl_elected c"
  shows "x \<in> set M \<and>
    (\<exists>k. vote_pass (((cl_node c)(a := n')) x) t = Some k \<and> int (length M div 2) < k)"
proof -
  obtain k where k: "x \<in> set M" "vote_pass (cl_node c x) t = Some k" "int (length M div 2) < k"
    using assms(1,3) by (auto simp: cluster_inv_def elected_inv_def)
  show ?thesis
  proof (cases "x = a")
    case True
    with k(2) assms(2) obtain k' where "k \<le> k'" "vote_pass n' t = Some k'"
      unfolding grows_def by blast
    with True k show ?thesis by auto
  next
    case False
    with k show ?thesis by simp
  qed
qed

lemma grows_messages:
  assumes "cluster_inv M c" and "grows (cl_node c a) n'" and "cl_node c' = (cl_node c)(a := n')"
  shows "cl_calls c' = cl_calls c \<Longrightarrow> cl_counted c' = cl_counted c \<Longrightarrow> calls_inv M c'"
    and "cl_replies c' = cl_replies c \<Longrightarrow> replies_inv M c'"
    and "cl_counted c' = cl_counted c \<Longrightarrow> counted_inv M c'"
    and "cl_elected c' = cl_elected c \<Longrightarrow> elected_inv M c'"
  using old_call [OF assms(1,2)] old_reply [OF assms(1,2)] old_counted [OF assms(1,2)]
    old_elected [OF assms(1,2)]
  unfolding calls_inv_def replies_inv_def counted_inv_def elected_inv_def assms(3) by metis+

lemma steps_down_node_inv: "node_inv M a n \<Longrightarrow> steps_down n n' \<Longrightarrow> node_inv M a n'"
  by (auto simp: node_inv_def steps_down_def)

lemma count_inv_vote_pass: "vote_pass n' = vote_pass n \<Longrightarrow> count_inv a n' V \<longleftrightarrow> count_inv a n V"
  by (simp add: count_inv_def)

section \<open>Every step keeps the invariant\<close>

lemma nodes_inv_upd:
  assumes "nodes_inv M c" and "cl_node c' = (cl_node c)(a := n')" and "cl_elected c \<subseteq> cl_elected c'"
    and "\<And>x. x \<noteq> a \<Longrightarrow> vote_counted c' x = vote_counted c x"
    and "node_inv M a n'" and "count_inv a n' (vote_counted c' a)"
    and "status n' = kLeader \<Longrightarrow> (current_term n', a) \<in> cl_elected c'"
  shows "nodes_inv M c'"
  using assms unfolding nodes_inv_def by auto

lemma inv_node:
  assumes "cluster_inv M c" and "a \<in> set M"
  shows "node_inv M a (cl_node c a)" and "count_inv a (cl_node c a) (vote_counted c a)"
    and "status (cl_node c a) = kLeader \<Longrightarrow> (current_term (cl_node c a), a) \<in> cl_elected c"
  using assms by (auto simp: cluster_inv_def nodes_inv_def)

lemma vote_counted_updates [simp]:
  "vote_counted (cl_node_update f c) = vote_counted c"
  "vote_counted (cl_calls_update g c) = vote_counted c"
  "vote_counted (cl_requests_update h c) = vote_counted c"
  "vote_counted (cl_replies_update k c) = vote_counted c"
  "vote_counted (cl_elected_update l c) = vote_counted c"
  by (simp_all add: vote_counted_def fun_eq_iff)

text \<open>The requests, finished calls and replies that refuse the vote do not matter.\<close>

lemma cluster_inv_messages:
  assumes inv: "cluster_inv M c" and node: "cl_node c' = cl_node c"
    and calls: "cl_calls c' \<subseteq> cl_calls c"
    and counted: "cl_counted c' = cl_counted c" and elected: "cl_elected c' = cl_elected c"
    and replies: "\<And>k x. (k, x) \<in> cl_replies c' \<Longrightarrow> vr_vote_pass x \<Longrightarrow> (k, x) \<in> cl_replies c"
  shows "cluster_inv M c'"
proof -
  have "vote_counted c' = vote_counted c" using counted by (simp add: vote_counted_def fun_eq_iff)
  then have "nodes_inv M c'" and "counted_inv M c'" and "elected_inv M c'"
    using inv by (simp_all add: cluster_inv_def nodes_inv_def counted_inv_def elected_inv_def
        node counted elected)
  moreover have "calls_inv M c'"
    using inv calls by (auto simp: cluster_inv_def calls_inv_def node counted)
  moreover have "vr_term x = t \<and> b \<in> set M \<and> vote_for (cl_node c' b) t = Some a"
    if "((a, t, b), x) \<in> cl_replies c'" "vr_vote_pass x" for a t b x
    using inv replies [OF that] that(2) by (simp add: cluster_inv_def replies_inv_def node)
  then have "replies_inv M c'" unfolding replies_inv_def by blast
  ultimately show ?thesis by (simp add: cluster_inv_def)
qed

text \<open>A server that steps down, with more calls, requests or replies in the network.\<close>

lemma steps_down_inv:
  assumes inv: "cluster_inv M c" and a: "a \<in> set M" and sd: "steps_down (cl_node c a) n'"
  shows "cluster_inv M (c\<lparr>cl_node := (cl_node c)(a := n')\<rparr>)"
proof -
  note nd = inv_node [OF inv a]
  have "nodes_inv M (c\<lparr>cl_node := (cl_node c)(a := n')\<rparr>)"
  proof (rule nodes_inv_upd [of M c _ a n'])
    show "nodes_inv M c" using inv by (simp add: cluster_inv_def)
    show "node_inv M a n'" using nd(1) sd by (rule steps_down_node_inv)
    show "count_inv a n' (vote_counted (c\<lparr>cl_node := (cl_node c)(a := n')\<rparr>) a)"
      using nd(2) sd by (simp add: steps_down_def count_inv_def)
  qed (use nd(3) sd in \<open>auto simp: steps_down_def\<close>)
  with grows_messages [OF inv steps_down_grows [OF sd],
      of "c\<lparr>cl_node := (cl_node c)(a := n')\<rparr>"] show ?thesis
    by (simp add: cluster_inv_def)
qed

lemma timeout_inv:
  assumes inv: "cluster_inv M c" and a: "a \<in> set M" and run: "VoteLeader (cl_node c a) d = (n', es)"
  shows "cluster_inv M (c\<lparr>cl_node := (cl_node c)(a := n'),
    cl_requests := R, cl_calls := cl_calls c \<union> {(a, t, b) | t b. \<exists>r. AsyncVote b r \<in> set es \<and> t = vq_term r}\<rparr>)"
    (is "cluster_inv M ?c'")
proof (cases "starts_round (cl_node c a)")
  case False
  show ?thesis
    by (rule cluster_inv_messages [OF steps_down_inv [OF inv a VoteLeader_idle(1) [OF False run]]])
      (use VoteLeader_idle(2) [OF False run] in auto)
next
  case True
  let ?n = "cl_node c a"
  note nd = inv_node [OF inv a] and vl = VoteLeader_round [OF True run]
  have fresh: "vote_for ?n (current_term n') = None" "vote_pass ?n (current_term n') = None"
    using nd(1) vl(3) by (auto simp: node_inv_def)
  have none: "vote_counted c a (current_term n') = {}"
    using nd(2) fresh(2) by (auto simp: count_inv_def dest: spec [of _ "current_term n'"])
  have gr: "grows ?n n'" using nd(1) run by (rule VoteLeader_grows)
  have self: "self_addr ?n = a" "all_server_addr ?n = M" using nd(1) by (auto simp: node_inv_def)
  have calls: "(x, t, b) \<in> cl_calls ?c' \<longleftrightarrow> (x, t, b) \<in> cl_calls c \<or>
      x = a \<and> t = current_term n' \<and> b \<in> set M \<and> b \<noteq> a" for x t b
    using vl(7) self by auto
  have "nodes_inv M ?c'"
  proof (rule nodes_inv_upd [of M c _ a n'])
    show "nodes_inv M c" using inv by (simp add: cluster_inv_def)
    show "node_inv M a n'"
      using nd(1) vl by (auto simp: node_inv_def)
    have "count_inv a n' (vote_counted c a)"
      using nd(2) vl(6) fresh(2) none by (auto simp: count_inv_def at_default_def)
    then show "count_inv a n' (vote_counted ?c' a)" by simp
  qed (use vl(4) in auto)
  moreover have "calls_inv M ?c'"
    unfolding calls_inv_def
  proof (intro allI impI)
    fix x t b assume "(x, t, b) \<in> cl_calls ?c'"
    then consider "(x, t, b) \<in> cl_calls c" | "x = a" "t = current_term n'" "b \<in> set M" "b \<noteq> a"
      unfolding calls by blast
    then show "x \<in> set M \<and> b \<in> set M \<and> b \<noteq> x \<and> t \<le> current_term (cl_node ?c' x) \<and>
        (x, t, b) \<notin> cl_counted ?c'"
    proof cases
      case 1
      from old_call [OF inv gr this] show ?thesis by simp
    next
      case 2
      then show ?thesis using a none by (auto simp: vote_counted_def)
    qed
  qed
  ultimately show ?thesis
    using grows_messages(2-4) [OF inv gr, of ?c'] by (simp add: cluster_inv_def)
qed

lemma vote_inv:
  assumes inv: "cluster_inv M c" and b: "b \<in> set M" and run: "Vote (cl_node c b) r = (n', resp)"
  shows "cluster_inv M (c\<lparr>cl_node := (cl_node c)(b := n'),
    cl_replies := cl_replies c \<union> {((vq_candidate_addr r, vq_term r, b), x) | x. resp = Some x}\<rparr>)"
    (is "cluster_inv M ?c'")
  using run
proof (cases rule: Vote_cases)
  case rejects
  show ?thesis
    by (rule cluster_inv_messages [OF steps_down_inv [OF inv b rejects(1)]]) (use rejects(2) in auto)
next
  case grants
  let ?n = "cl_node c b"
  note nd = inv_node [OF inv b]
  have gr: "grows ?n n'" using run by (rule Vote_grows)
  have "nodes_inv M ?c'"
  proof (rule nodes_inv_upd [of M c _ b n'])
    show "nodes_inv M c" using inv by (simp add: cluster_inv_def)
    show "node_inv M b n'"
      using nd(1) grants(2-6,8,9) by (auto simp: node_inv_def)
    have "count_inv b n' (vote_counted c b)"
      using nd(2) grants(4) by (simp add: count_inv_def)
    then show "count_inv b n' (vote_counted ?c' b)" by simp
  qed (use grants(7) in auto)
  moreover have "replies_inv M ?c'"
    unfolding replies_inv_def
  proof (intro allI impI, elim conjE)
    fix a t q x assume rep: "((a, t, q), x) \<in> cl_replies ?c'" and pass: "vr_vote_pass x"
    show "vr_term x = t \<and> q \<in> set M \<and> vote_for (cl_node ?c' q) t = Some a"
    proof (cases "((a, t, q), x) \<in> cl_replies c")
      case True
      from old_reply [OF inv gr this pass] show ?thesis by simp
    next
      case False
      with rep have "a = vq_candidate_addr r" "t = vq_term r" "q = b" "resp = Some x" by simp_all
      with b grants(1,9) show ?thesis by simp
    qed
  qed
  ultimately show ?thesis
    using grows_messages [OF inv gr, of ?c'] by (simp add: cluster_inv_def)
qed

lemma callback_inv:
  assumes inv: "cluster_inv M c" and a: "a \<in> set M" and call: "(a, t, b) \<in> cl_calls c"
    and reply: "failed \<or> ((a, t, b), res) \<in> cl_replies c"
    and run: "VoteCallBack L (cl_node c a) res failed = Inr (n', es)"
  shows "cluster_inv M (c\<lparr>cl_node := (cl_node c)(a := n'),
       cl_calls := cl_calls c - {(a, t, b)},
       cl_counted := cl_counted c \<union>
         (if vote_counts (cl_node c a) res failed then {(a, t, b)} else {}),
       cl_elected := cl_elected c \<union>
         (if vote_counts (cl_node c a) res failed \<and> status n' = kLeader
          then {(current_term n', a)} else {})\<rparr>)"
    (is "cluster_inv M ?c'")
proof (cases "vote_counts (cl_node c a) res failed")
  case False
  let ?d = "c\<lparr>cl_node := (cl_node c)(a := n')\<rparr>"
  have d: "cluster_inv M ?d"
    by (rule steps_down_inv [OF inv a VoteCallBack_other [OF False run]])
  show ?thesis by (rule cluster_inv_messages [OF d]) (use False in auto)
next
  case True
  let ?n = "cl_node c a"
  note nd = inv_node [OF inv a] and vc = VoteCallBack_counts [OF True run]
  have gr: "grows ?n n'" using run by (rule VoteCallBack_grows)
  have t: "t = current_term ?n" and vote: "vote_for (cl_node c b) t = Some a"
    and cand: "status ?n = kCandidate"
    using True reply inv by (auto simp: vote_counts_def cluster_inv_def replies_inv_def)
  have callee: "b \<in> set M" "b \<noteq> a" "(a, t, b) \<notin> cl_counted c"
    using call inv by (auto simp: cluster_inv_def calls_inv_def)
  obtain k where k: "vote_pass ?n t = Some k" using nd(1) cand t by (auto simp: node_inv_def)
  have V: "vote_counted ?c' x = (if x = a then (vote_counted c a)(t := insert b (vote_counted c a t))
      else vote_counted c x)" for x using True by (auto simp: vote_counted_def fun_eq_iff)
  have self: "self_addr ?n = a" "all_server_addr ?n = M" using nd(1) by (auto simp: node_inv_def)
  have empty: "vote_counted c a s = {}" if "vote_pass ?n s = None" for s
    using nd(2) that by (auto simp: count_inv_def dest: spec [of _ s])
  have pass: "vote_pass n' = (vote_pass ?n)(t := Some (k + 1))" using vc(5) k t by simp
  have b_new: "b \<notin> vote_counted c a t" using callee by (simp add: vote_counted_def)
  have "nodes_inv M ?c'"
  proof (rule nodes_inv_upd [of M c _ a n'])
    show "nodes_inv M c" using inv by (simp add: cluster_inv_def)
    show "node_inv M a n'" using nd(1) vc(1-4,6) pass k t by (auto simp: node_inv_def)
    show "vote_counted ?c' x = vote_counted c x" if "x \<noteq> a" for x
      unfolding V using that by simp
    show "count_inv a n' (vote_counted ?c' a)"
      unfolding V using nd(2) pass k callee b_new
      by (auto simp: count_inv_def empty split: option.splits)
    show "(current_term n', a) \<in> cl_elected ?c'" if "status n' = kLeader" using True that by simp
  qed auto
  moreover have "calls_inv M ?c'"
    unfolding calls_inv_def
  proof (intro allI impI)
    fix x s q assume "(x, s, q) \<in> cl_calls ?c'"
    then have "(x, s, q) \<in> cl_calls c" "(x, s, q) \<noteq> (a, t, b)" by auto
    with old_call [OF inv gr this(1)] True
    show "x \<in> set M \<and> q \<in> set M \<and> q \<noteq> x \<and> s \<le> current_term (cl_node ?c' x) \<and>
        (x, s, q) \<notin> cl_counted ?c'" by simp
  qed
  moreover have "counted_inv M ?c'"
    unfolding counted_inv_def
  proof (intro allI impI)
    fix x s q assume "(x, s, q) \<in> cl_counted ?c'"
    then consider "(x, s, q) \<in> cl_counted c" | "x = a" "s = t" "q = b" using True by auto
    then show "x \<in> set M \<and> q \<in> set M \<and> s \<le> current_term (cl_node ?c' x) \<and>
        vote_for (cl_node ?c' q) s = Some x"
    proof cases
      case 1
      from old_counted [OF inv gr this] show ?thesis by simp
    next
      case 2
      then show ?thesis using a callee t vote vc(3) by simp
    qed
  qed
  moreover have "elected_inv M ?c'"
    unfolding elected_inv_def
  proof (intro allI impI)
    fix s x assume "(s, x) \<in> cl_elected ?c'"
    then consider "(s, x) \<in> cl_elected c" | "x = a" "s = t" "status n' = kLeader"
      using True t vc(3) by (auto split: if_splits)
    then show "x \<in> set M \<and>
        (\<exists>k. vote_pass (cl_node ?c' x) s = Some k \<and> int (length M div 2) < k)"
    proof cases
      case 1
      from old_elected [OF inv gr this] show ?thesis by simp
    next
      case 2
      then show ?thesis using a pass vc(6) self k t by (simp split: if_splits)
    qed
  qed
  ultimately show ?thesis
    using grows_messages(2) [OF inv gr, of ?c'] by (simp add: cluster_inv_def)
qed

lemma cluster_step_inv: "cluster_step L M c c' \<Longrightarrow> cluster_inv M c \<Longrightarrow> cluster_inv M c'"
proof (induction rule: cluster_step.induct)
  case (server a c n')
  then show ?case using steps_down_inv server_step_steps_down by blast
qed (blast intro: timeout_inv vote_inv callback_inv)+

lemma AirDBImpl_init_state:
  assumes "AirDBImpl_init L a M b ds d = Inr (n, es)"
  shows "self_addr n = a" and "all_server_addr n = M" and "status n = kFollower"
    and "vote_for n = (\<lambda>_. None)" and "vote_pass n = (\<lambda>_. None)" and "current_term n = 0"
    and "binlogger n = b" and "data_store n = ds" and "commit_index n = -1"
  using assms by (auto simp: AirDBImpl_init_def Let_def bindE_eq_Inr split: prod.splits option.splits)

lemma cluster_init_inv:
  assumes "cluster_init L M c"
  shows "cluster_inv M c"
proof -
  have "self_addr (cl_node c a) = a \<and> all_server_addr (cl_node c a) = M \<and>
      status (cl_node c a) = kFollower \<and> vote_for (cl_node c a) = (\<lambda>_. None) \<and>
      vote_pass (cl_node c a) = (\<lambda>_. None)" if "a \<in> set M" for a
  proof -
    from assms that obtain b ds d es where "AirDBImpl_init L a M b ds d = Inr (cl_node c a, es)"
      unfolding cluster_init_def by blast
    from AirDBImpl_init_state [OF this] show ?thesis by simp
  qed
  with assms show ?thesis
    by (simp add: cluster_init_def cluster_inv_def nodes_inv_def node_inv_def count_inv_def
        calls_inv_def replies_inv_def counted_inv_def elected_inv_def vote_counted_def)
qed

lemma cluster_reachable_inv: "cluster_reachable L M c \<Longrightarrow> cluster_inv M c"
  by (induction rule: cluster_reachable.induct) (auto intro: cluster_init_inv cluster_step_inv)

section \<open>Election safety\<close>

text \<open>The servers that voted for a winner are a majority.\<close>

lemma elected_majority:
  assumes inv: "cluster_inv M c" and el: "(t, a) \<in> cl_elected c"
  obtains Q where "majority M Q" and "Q \<subseteq> set M"
    and "\<forall>p \<in> Q. vote_for (cl_node c p) t = Some a"
proof -
  let ?Q = "insert a (vote_counted c a t)"
  from inv el obtain k where a: "a \<in> set M" and k: "vote_pass (cl_node c a) t = Some k"
    "int (length M div 2) < k" by (auto simp: cluster_inv_def elected_inv_def)
  have fin: "finite (vote_counted c a t)" "a \<notin> vote_counted c a t"
    "k = 1 + int (card (vote_counted c a t))"
    using inv_node(2) [OF inv a] k(1) by (auto simp: count_inv_def dest: spec [of _ t])
  have "vote_for (cl_node c a) t = Some a"
    using inv_node(1) [OF inv a] k(1) by (simp add: node_inv_def)
  moreover have "b \<in> set M \<and> vote_for (cl_node c b) t = Some a" if "b \<in> vote_counted c a t" for b
    using inv that by (auto simp: cluster_inv_def counted_inv_def vote_counted_def)
  moreover have "majority M ?Q" using fin k(2) by (simp add: majority_def)
  ultimately show thesis using a by (intro that [of ?Q]) auto
qed

lemma elected_unique:
  assumes "cluster_inv M c" and "(t, a) \<in> cl_elected c" and "(t, b) \<in> cl_elected c"
  shows "a = b"
  by (rule elected_majority [OF assms(1,2)], rule elected_majority [OF assms(1,3)])
    (rule majority.unique_winner)

lemma cluster_step_grows:
  assumes "cluster_step L M c c'" and inv: "cluster_inv M c"
  shows "grows (cl_node c x) (cl_node c' x)"
  using assms(1)
proof cases
  case (timeout a d n' es)
  then show ?thesis using VoteLeader_grows inv_node(1) [OF inv] by (fastforce intro: grows_refl)
next
  case (vote b r n' resp)
  then show ?thesis by (auto intro: grows_refl Vote_grows)
next
  case (callback a t b failed res n' es)
  then show ?thesis by (auto intro: grows_refl VoteCallBack_grows)
next
  case (server a n')
  then show ?thesis by (auto intro: grows_refl steps_down_grows server_step_steps_down)
qed

section \<open>A concrete election\<close>

definition sample_cluster :: "string list \<Rightarrow> mem_db cluster" where
  "sample_cluster M =
     \<lparr>cl_node = (\<lambda>a. sample_node a M []), cl_requests = {}, cl_calls = {}, cl_replies = {},
      cl_counted = {}, cl_elected = {}\<rparr>"

lemma sample_cluster_init: "cluster_init mem_leveldb M (sample_cluster M)"
  unfolding cluster_init_def sample_cluster_def using sample_node_init by simp blast

lemma cluster_reachable_steps:
  "(cluster_step L M)\<^sup>*\<^sup>* c c' \<Longrightarrow> cluster_reachable L M c \<Longrightarrow> cluster_reachable L M c'"
  by (induction rule: rtranclp_induct) (auto intro: cluster_reachable.step)

lemma mem_binlog_Nil:
  "mem_binlog [] = \<lparr>bl_db = [(length_tag, IntToString 0)], bl_length = 0, bl_last_log_term = -1\<rparr>"
  by (simp add: mem_binlog_def WriteEntryList_def mem_leveldb_def mem_put_def Let_def)

definition sample_request :: "string \<Rightarrow> vote_request" where
  "sample_request a =
     \<lparr>vq_term = 1, vq_candidate_addr = a, vq_last_log_index = -1, vq_last_log_term = -1\<rparr>"

definition sample_candidate :: "string \<Rightarrow> string list \<Rightarrow> mem_db node" where
  "sample_candidate a M = sample_node a M []\<lparr>current_term := 1, status := kCandidate,
     vote_for := [1 \<mapsto> a], vote_pass := [1 \<mapsto> 1]\<rparr>"

definition sample_voter :: "string \<Rightarrow> string list \<Rightarrow> string \<Rightarrow> mem_db node" where
  "sample_voter b M a = sample_node b M []\<lparr>status := kFollower, current_term := 1,
     vote_for := [1 \<mapsto> a]\<rparr>"

lemma sample_campaign:
  "VoteLeader (sample_node a M []) 0 =
     (sample_candidate a M,
      map (\<lambda>b. AsyncVote b (sample_request a)) (filter (\<lambda>b. b \<noteq> a) M) @ [DelayVoteLeader 0])"
  by (simp add: VoteLeader_def sample_candidate_def sample_request_def vote_request_of_def
      GetLocalLogTermIndex_def GetLastLogIndexAndTerm_def mem_binlog_Nil LoopVoteLeader_def Let_def)

lemma sample_vote:
  "Vote (sample_node b M []) (sample_request a) =
     (sample_voter b M a, Some \<lparr>vr_term = 1, vr_vote_pass = True\<rparr>)"
  by (simp add: Vote_def sample_voter_def sample_request_def GetLocalLogTermIndex_def
      GetLastLogIndexAndTerm_def mem_binlog_Nil SwitchToFollower_def Let_def)

lemma sample_wins:
  assumes "length M = 3"
  obtains n es where
    "VoteCallBack mem_leveldb (sample_candidate a M) \<lparr>vr_term = 1, vr_vote_pass = True\<rparr> False = Inr (n, es)"
    and "status n = kLeader" and "current_term n = 1"
proof -
  let ?n = "sample_candidate a M"
  let ?m = "?n\<lparr>vote_pass := [1 \<mapsto> 2]\<rparr>"
  have counts: "vote_counts ?n \<lparr>vr_term = 1, vr_vote_pass = True\<rparr> False"
    by (simp add: vote_counts_def sample_candidate_def)
  let ?l = "?m\<lparr>status := kLeader, cur_leader_addr := self_addr ?m\<rparr>"
  obtain ni mi where "fst (start_replica_loop ?l (all_server_addr ?l)) =
      ?l\<lparr>next_index := ni, match_index := mi\<rparr>" using start_replica_loop_frame by blast
  moreover obtain b where "WriteEntry mem_leveldb (mem_binlog []) (nop_entry 1) = Inr b"
    using mem.append_one_holds [OF mem_binlog_rel, of "[]" "nop_entry 1"]
    by (auto simp: nop_entry_def entry_ok_def entry_size_def in_i32_def in_i64_def)
  ultimately have "\<exists>n es. SwitchToLeader mem_leveldb ?m = Inr (n, es)"
    by (auto simp: SwitchToLeader_def StartReplicaLog_def Let_def case_prod_beta sample_candidate_def)
  then obtain n es where
    run: "VoteCallBack mem_leveldb ?n \<lparr>vr_term = 1, vr_vote_pass = True\<rparr> False = Inr (n, es)"
    using assms by (auto simp: VoteCallBack_def sample_candidate_def)
  from VoteCallBack_counts(3,6) [OF counts run] assms run show thesis
    by (intro that) (auto simp: sample_candidate_def)
qed

text \<open>A fresh server wins an election with the vote of another fresh server, out of three.\<close>

lemma sample_election:
  assumes M: "length M = 3" "a \<in> set M" "b \<in> set M" "a \<noteq> b"
    and fresh: "cl_node c a = sample_node a M []" "cl_node c b = sample_node b M []"
  obtains c' where "(cluster_step mem_leveldb M)\<^sup>*\<^sup>* c c'" and "(1, a) \<in> cl_elected c'"
    and "cl_elected c \<subseteq> cl_elected c'" and "cl_node c' b = sample_voter b M a"
    and "status (cl_node c' a) = kLeader" and "current_term (cl_node c' a) = 1"
    and "\<And>x. x \<noteq> a \<Longrightarrow> x \<noteq> b \<Longrightarrow> cl_node c' x = cl_node c x"
proof -
  let ?es = "map (\<lambda>b. AsyncVote b (sample_request a)) (filter (\<lambda>b. b \<noteq> a) M) @ [DelayVoteLeader 0]"
  let ?ok = "\<lparr>vr_term = 1, vr_vote_pass = True\<rparr>"
  have run1: "VoteLeader (cl_node c a) 0 = (sample_candidate a M, ?es)"
    by (simp add: fresh sample_campaign)
  define c1 where "c1 = c\<lparr>cl_node := (cl_node c)(a := sample_candidate a M),
    cl_requests := cl_requests c \<union> {(b, r). AsyncVote b r \<in> set ?es},
    cl_calls := cl_calls c \<union> {(a, t, b) | t b. \<exists>r. AsyncVote b r \<in> set ?es \<and> t = vq_term r}\<rparr>"
  have s1: "cluster_step mem_leveldb M c c1"
    unfolding c1_def by (rule cluster_step.timeout [OF M(2) run1])
  have sent: "AsyncVote b (sample_request a) \<in> set ?es" using M(3,4) by simp
  have "vq_term (sample_request a) = 1" by (simp add: sample_request_def)
  with sent have r1: "(b, sample_request a) \<in> cl_requests c1" "(a, 1, b) \<in> cl_calls c1"
    unfolding c1_def by (simp, force)
  have n1: "cl_node c1 = (cl_node c)(a := sample_candidate a M)" "cl_elected c1 = cl_elected c"
    by (simp_all add: c1_def)
  have run2: "Vote (cl_node c1 b) (sample_request a) = (sample_voter b M a, Some ?ok)"
    using M(4) by (simp add: n1 fresh sample_vote)
  define c2 where "c2 = c1\<lparr>cl_node := (cl_node c1)(b := sample_voter b M a),
    cl_replies := cl_replies c1 \<union>
      {((vq_candidate_addr (sample_request a), vq_term (sample_request a), b), x) | x. Some ?ok = Some x}\<rparr>"
  have s2: "cluster_step mem_leveldb M c1 c2"
    unfolding c2_def by (rule cluster_step.vote [OF r1(1) M(3) run2])
  have n2: "cl_node c2 = (cl_node c1)(b := sample_voter b M a)" "cl_elected c2 = cl_elected c1"
    "(a, 1, b) \<in> cl_calls c2" "((a, 1, b), ?ok) \<in> cl_replies c2"
    using r1(2) by (simp_all add: c2_def sample_request_def)
  obtain n es where run: "VoteCallBack mem_leveldb (sample_candidate a M) ?ok False = Inr (n, es)"
    and n: "status n = kLeader" "current_term n = 1" using M(1) by (rule sample_wins)
  have a: "cl_node c2 a = sample_candidate a M" using M(4) by (simp add: n1 n2)
  have counts: "vote_counts (cl_node c2 a) ?ok False"
    by (simp add: a vote_counts_def sample_candidate_def)
  define c3 where "c3 = c2\<lparr>cl_node := (cl_node c2)(a := n), cl_calls := cl_calls c2 - {(a, 1, b)},
    cl_counted := cl_counted c2 \<union> (if vote_counts (cl_node c2 a) ?ok False then {(a, 1, b)} else {}),
    cl_elected := cl_elected c2 \<union> (if vote_counts (cl_node c2 a) ?ok False \<and> status n = kLeader
      then {(current_term n, a)} else {})\<rparr>"
  have s3: "cluster_step mem_leveldb M c2 c3"
    unfolding c3_def by (rule cluster_step.callback [OF M(2) n2(3)]) (simp_all add: n2(4) a run)
  have n3: "cl_node c3 = (cl_node c2)(a := n)" "cl_elected c3 = cl_elected c2 \<union> {(1, a)}"
    using counts n by (simp_all add: c3_def)
  have "(cluster_step mem_leveldb M)\<^sup>*\<^sup>* c c3"
    using s1 s2 s3 by (metis (no_types) converse_rtranclp_into_rtranclp r_into_rtranclp)
  then show thesis using n1 n2(1,2) n3 n M(4) by (intro that [of c3]) (simp_all add: subset_insertI)
qed

lemma sample_leader:
  fixes a b d :: string
  assumes "distinct [a, b, d]"
  obtains c where "cluster_reachable mem_leveldb [a, b, d] c" and "(1, a) \<in> cl_elected c"
    and "status (cl_node c a) = kLeader" and "current_term (cl_node c a) = 1"
proof -
  let ?M = "[a, b, d]"
  have M: "length ?M = 3" "a \<in> set ?M" "b \<in> set ?M" "a \<noteq> b" using assms by simp_all
  have "cl_node (sample_cluster ?M) x = sample_node x ?M []" for x by (simp add: sample_cluster_def)
  from sample_election [OF M this this] obtain c where
    s: "(cluster_step mem_leveldb ?M)\<^sup>*\<^sup>* (sample_cluster ?M) c"
    and c: "(1, a) \<in> cl_elected c" "status (cl_node c a) = kLeader" "current_term (cl_node c a) = 1"
    by metis
  show thesis
    by (rule that [OF cluster_reachable_steps [OF s cluster_reachable.start [OF sample_cluster_init]] c])
qed

section \<open>Properties\<close>

text \<open>
  C1: Election safety. In every reachable state of a cluster of servers that do not restart,
  over a network that loses, delays, reorders and forges everything but the answers to vote
  requests, two elections won in the same term were won by the same server.
\<close>

theorem election_safety:
  assumes "cluster_reachable L M c" and "distinct M"
    and "(t, a) \<in> cl_elected c" and "(t, b) \<in> cl_elected c"
  shows "a = b"
  using elected_unique [OF cluster_reachable_inv [OF assms(1)] assms(3,4)] .

theorem election_safety_witness:
  "\<exists>c. cluster_reachable mem_leveldb [''a'', ''b'', ''c''] c \<and> (1, ''a'') \<in> cl_elected c \<and>
     (\<forall>x. (1, x) \<in> cl_elected c \<longrightarrow> x = ''a'')"
proof -
  have d: "distinct [''a'', ''b'', ''c'']" by simp
  then obtain c where r: "cluster_reachable mem_leveldb [''a'', ''b'', ''c''] c"
    and a: "(1, ''a'') \<in> cl_elected c" by (rule sample_leader)
  show ?thesis using election_safety [OF r d _ a] r a by blast
qed

text \<open>
  At any time at most one server of a cluster leads a given term.
\<close>

lemma one_leader_per_term:
  assumes "cluster_reachable L M c" and "distinct M" and "a \<in> set M" and "b \<in> set M"
    and "status (cl_node c a) = kLeader" and "status (cl_node c b) = kLeader"
    and "current_term (cl_node c a) = current_term (cl_node c b)"
  shows "a = b"
proof -
  note inv = cluster_reachable_inv [OF assms(1)]
  show ?thesis
    using elected_unique [OF inv inv_node(3) [OF inv assms(3,5)]]
      inv_node(3) [OF inv assms(4,6)] assms(7) by simp
qed

text \<open>
  C18: A step of the cluster never lowers the term of a server, never takes back or changes a
  vote it has given, and never lowers a count of votes.
\<close>

theorem votes_are_final:
  assumes "cluster_reachable L M c" and "cluster_step L M c c'"
  shows "current_term (cl_node c x) \<le> current_term (cl_node c' x) \<and>
    (\<forall>t a. vote_for (cl_node c x) t = Some a \<longrightarrow> vote_for (cl_node c' x) t = Some a) \<and>
    (\<forall>t k. vote_pass (cl_node c x) t = Some k \<longrightarrow> (\<exists>k' \<ge> k. vote_pass (cl_node c' x) t = Some k'))"
  using cluster_step_grows [OF assms(2) cluster_reachable_inv [OF assms(1)], of x]
  by (simp add: grows_def)

theorem votes_are_final_witness:
  "\<exists>c. cluster_step mem_leveldb [''a''] (sample_cluster [''a'']) c \<and>
     current_term (cl_node (sample_cluster [''a'']) ''a'') \<le> current_term (cl_node c ''a'')"
proof -
  have r: "cluster_reachable mem_leveldb [''a''] (sample_cluster [''a''])"
    by (intro cluster_reachable.start sample_cluster_init)
  obtain n es where "VoteLeader (cl_node (sample_cluster [''a'']) ''a'') 0 = (n, es)" by fastforce
  from cluster_step.timeout [OF _ this, of "[''a'']" mem_leveldb] obtain c where
    s: "cluster_step mem_leveldb [''a''] (sample_cluster [''a'']) c" by auto
  from votes_are_final [OF r s] s show ?thesis by auto
qed

end
