(* ===== verification/ReplicationSpec.thy ===== *)
theory ReplicationSpec
  imports Cluster
begin

text \<open>
  What replication does to the logs. \<open>follower_spec\<close> and \<open>round_spec\<close> say it on lists of
  entries; the handlers refine them on an available database. From the lists follow the
  convergence of a follower whose log is not longer than the leader expects, and what goes
  wrong when it is.
\<close>

section \<open>Specifications on lists\<close>

definition term_at :: "binlog_entry list \<Rightarrow> int \<Rightarrow> int" where
  "term_at log i = (if i < 0 then -1 else be_term (log ! nat i))"

text \<open>The log after an append request in the right term, and whether it succeeds.\<close>

definition follower_spec :: "binlog_entry list \<Rightarrow> append_entries_request \<Rightarrow> binlog_entry list \<times> bool"
where
  "follower_spec log req =
     (if aq_entries req = [] then (log, True)
      else if aq_prev_log_index req \<ge> int (length log) then (log, False)
      else if term_at log (aq_prev_log_index req) \<noteq> aq_prev_log_term req
      then (take (nat (aq_prev_log_index req)) log, False)
      else (log @ map entry_of_pb (aq_entries req), True))"

text \<open>
  The whole handler, of a follower in term \<open>t\<close> that may have much committed and not applied: the log,
  whether the request succeeds, and whether the answer is that the follower is busy.
\<close>

definition append_spec ::
  "int \<Rightarrow> bool \<Rightarrow> binlog_entry list \<Rightarrow> append_entries_request \<Rightarrow> binlog_entry list \<times> bool \<times> bool"
where
  "append_spec t lags log req =
     (if aq_term req < t then (log, False, False)
      else if lags \<and> aq_entries req \<noteq> [] \<and> snd (follower_spec log req) then (log, False, True)
      else (fst (follower_spec log req), snd (follower_spec log req), False))"

text \<open>One round of replication to a follower, from the leader's log and the next index.\<close>

definition round_spec ::
  "binlog_entry list \<Rightarrow> int \<times> binlog_entry list \<Rightarrow> int \<times> binlog_entry list"
where
  "round_spec llog = (\<lambda>(i, flog).
     if int (length llog) \<le> i then (i, flog)
     else if i - 1 \<ge> int (length flog) then (int (length flog), flog)
     else if term_at flog (i - 1) \<noteq> term_at llog (i - 1) then (i - 1, take (nat (i - 1)) flog)
     else (int (length llog), flog @ drop (nat i) llog))"

section \<open>The follower refines its specification\<close>

context leveldb_available
begin

lemma prev_term_of_rel:
  assumes rel: "binlog_rel content lo (binlogger n) log" and "prev < int (length log)"
    and "lo \<le> prev \<or> prev < 0"
  shows "prev_term_of L n prev = Inr (term_at log prev)"
  using assms(2,3) log.read_holds [OF rel, of prev]
  by (auto simp: prev_term_of_def ReadSlot_assert_def term_at_def)

lemma log_length_rel: "binlog_rel content lo (binlogger n) log \<Longrightarrow> log_length n = int (length log)"
  by (simp add: log_length_def log.len_holds)

text \<open>
  A request in a current term, with the two slots it may read not given up and the follower
  not busy when it comes to the entries.
\<close>

lemma AppendEntriesImpl_rel:
  assumes rel: "binlog_rel content lo (binlogger f) log"
    and tm: "current_term f \<le> aq_term req"
    and lo: "lo \<le> max 0 (aq_prev_log_index req - 1)"
    and idle: "commit_index f - last_applied_index f \<le> 100000 \<or> aq_entries req = [] \<or> \<not> snd (follower_spec log req)"
    and ok: "\<forall>p \<in> set (aq_entries req). entry_ok (entry_of_pb p)"
  obtains f' es res where "AppendEntriesImpl L f req = Inr (f', es, res)"
    and "binlog_rel content lo (binlogger f') (fst (follower_spec log req))"
    and "ar_success res = snd (follower_spec log req)"
    and "\<not> ar_is_busy res" and "ar_current_term res = aq_term req"
    and "status f' = kFollower" and "current_term f' = aq_term req"
    and "cur_leader_addr f' = aq_leader_id req"
    and "last_applied_index f' = last_applied_index f"
    and "ar_success res \<Longrightarrow> commit_index f' =
           min (int (length (fst (follower_spec log req))) - 1) (aq_leader_commit_index req)"
    and "\<not> ar_success res \<Longrightarrow> commit_index f' = commit_index f \<and>
           ar_log_length res = int (length (fst (follower_spec log req)))"
proof -
  let ?prev = "aq_prev_log_index req" and ?ps = "aq_entries req"
  let ?f = "f\<lparr>status := kFollower, current_term := aq_term req, cur_leader_addr := aq_leader_id req,
    headbeat_cnt := headbeat_cnt f + 1\<rparr>"
  have len: "log_length ?f = int (length log)"
    using rel by (simp add: log_length_def log.len_holds)
  have f: "binlog_rel content lo (binlogger ?f) log" using rel by simp
  note defs = AppendEntriesImpl_def AppendEntries_check_def AppendEntries_write_def
    AppendEntries_finish_def ae_reply_def Let_def
  consider (heartbeat) "?ps = []"
    | (beyond) "?ps \<noteq> []" "?prev \<ge> int (length log)"
    | (mismatch) "?ps \<noteq> []" "?prev < int (length log)" "term_at log ?prev \<noteq> aq_prev_log_term req"
    | (match) "?ps \<noteq> []" "?prev < int (length log)" "term_at log ?prev = aq_prev_log_term req"
    by linarith
  then show thesis
  proof cases
    case heartbeat
    have run: "AppendEntriesImpl L f req = Inr (AppendEntries_finish ?f req)"
      using heartbeat tm by (simp add: defs)
    show ?thesis
      by (rule that [OF run [unfolded AppendEntries_finish_def Let_def]])
        (use heartbeat rel len in \<open>auto simp: follower_spec_def ae_reply_def\<close>)
  next
    case beyond
    have run: "AppendEntriesImpl L f req = Inr (?f, [], ae_reply ?f False (int (length log)) False)"
      using beyond tm len by (simp add: defs)
    show ?thesis
      by (rule that [OF run]) (use beyond rel in \<open>auto simp: follower_spec_def ae_reply_def\<close>)
  next
    case mismatch
    have read: "prev_term_of L ?f ?prev = Inr (term_at log ?prev)"
      using mismatch lo binlog_rel_lo [OF rel] by (intro prev_term_of_rel [OF f]) auto
    have "lo \<le> ?prev - 1 \<or> ?prev - 1 \<le> -1" using lo by auto
    then obtain b where b: "Truncate L (binlogger ?f) (?prev - 1) = Inr b"
      "binlog_rel content lo b (take (nat ?prev) log)"
      using log.truncate_holds [OF f, of "?prev - 1"] mismatch by auto
    have run: "AppendEntriesImpl L f req = Inr (?f\<lparr>binlogger := b\<rparr>, [],
        ae_reply (?f\<lparr>binlogger := b\<rparr>) False (log_length (?f\<lparr>binlogger := b\<rparr>)) False)"
      using mismatch tm len read b(1) by (simp add: AppendEntriesImpl_def AppendEntries_check_def Let_def)
    show ?thesis
      by (rule that [OF run])
        (use mismatch b(2) log.len_holds [OF b(2)] in
          \<open>auto simp: follower_spec_def ae_reply_def log_length_def\<close>)
  next
    case match
    have read: "prev_term_of L ?f ?prev = Inr (term_at log ?prev)"
      using match lo binlog_rel_lo [OF rel] by (intro prev_term_of_rel [OF f]) auto
    obtain b where b: "WriteEntryList L (binlogger ?f) ?ps = Inr b"
      "binlog_rel content lo b (log @ map entry_of_pb ?ps)"
      using log.write_many_holds [OF f ok] by auto
    have "AppendEntries_check L f req = Inr (?f, None)"
      using match tm idle len by (auto simp: AppendEntries_check_def Let_def read follower_spec_def)
    then have run: "AppendEntriesImpl L f req = Inr (AppendEntries_finish (?f\<lparr>binlogger := b\<rparr>) req)"
      using match b(1) by (simp add: AppendEntriesImpl_def AppendEntries_write_def)
    show ?thesis
      by (rule that [OF run [unfolded AppendEntries_finish_def Let_def]])
        (use match b(2) log.len_holds [OF b(2)] in
          \<open>auto simp: follower_spec_def ae_reply_def log_length_def\<close>)
  qed
qed

end

text \<open>What else the handler changes, and that it wakes the commit thread when there is something to apply.\<close>

lemma AppendEntriesImpl_frame:
  assumes "AppendEntriesImpl L f req = Inr (f', es, res)" and "current_term f \<le> aq_term req"
  shows "f' = f\<lparr>status := kFollower, current_term := aq_term req, cur_leader_addr := aq_leader_id req,
      headbeat_cnt := headbeat_cnt f + 1, binlogger := binlogger f', commit_index := commit_index f'\<rparr>"
    and "es = (if commit_index f < commit_index f' then [SignalCommit] else [])"
    and "ar_current_term res = aq_term req"
  using assms
  by (auto simp: AppendEntriesImpl_def AppendEntries_check_def AppendEntries_write_def
      AppendEntries_finish_def ae_reply_def Let_def bindE_eq_Inr split: if_splits option.splits)

lemma AppendEntriesImpl_stale:
  "aq_term req < current_term f \<Longrightarrow>
     AppendEntriesImpl L f req = Inr (f, [], ae_reply f False (log_length f) False)"
  by (simp add: AppendEntriesImpl_def AppendEntries_check_def)

context leveldb_available
begin

lemma AppendEntriesImpl_busy:
  assumes rel: "binlog_rel content lo (binlogger f) log" and "current_term f \<le> aq_term req"
    and lo: "lo \<le> max 0 (aq_prev_log_index req - 1)"
    and "100000 < commit_index f - last_applied_index f"
    and ps: "aq_entries req \<noteq> []" "snd (follower_spec log req)"
  shows "\<exists>f' res. AppendEntriesImpl L f req = Inr (f', [], res) \<and> binlogger f' = binlogger f \<and>
    commit_index f' = commit_index f \<and> \<not> ar_success res \<and> ar_is_busy res \<and>
    ar_log_length res = int (length log)"
proof -
  let ?f = "f\<lparr>status := kFollower, current_term := aq_term req, cur_leader_addr := aq_leader_id req,
    headbeat_cnt := headbeat_cnt f + 1\<rparr>"
  have f: "binlog_rel content lo (binlogger ?f) log" using rel by simp
  have prev: "aq_prev_log_index req < int (length log)"
    "term_at log (aq_prev_log_index req) = aq_prev_log_term req"
    using ps by (auto simp: follower_spec_def split: if_splits)
  have "prev_term_of L ?f (aq_prev_log_index req) = Inr (term_at log (aq_prev_log_index req))"
    using prev lo binlog_rel_lo [OF rel] by (intro prev_term_of_rel [OF f]) auto
  then have "AppendEntriesImpl L f req = Inr (?f, [], ae_reply ?f False (log_length ?f) True)"
    using assms(2,4) ps(1) prev log_length_rel [OF f]
    by (simp add: AppendEntriesImpl_def AppendEntries_check_def Let_def)
  then show ?thesis using log_length_rel [OF f] by (simp add: ae_reply_def)
qed

lemma append_answers:
  assumes rel: "binlog_rel content lo (binlogger f) log"
    and lo: "lo \<le> max 0 (aq_prev_log_index req - 1)"
    and ok: "\<forall>p \<in> set (aq_entries req). entry_ok (entry_of_pb p)"
    and spec: "append_spec (current_term f) (100000 < commit_index f - last_applied_index f) log req = (log', good, busy)"
  shows "\<exists>f' es res. AppendEntriesImpl L f req = Inr (f', es, res) \<and>
    binlog_rel content lo (binlogger f') log' \<and> ar_success res = good \<and> ar_is_busy res = busy \<and>
    commit_index f' = (if good then min (int (length log') - 1) (aq_leader_commit_index req) else commit_index f) \<and>
    (\<not> good \<longrightarrow> ar_log_length res = int (length log')) \<and> (aq_term req < current_term f \<longrightarrow> f' = f \<and> es = [])"
proof -
  let ?lags = "100000 < commit_index f - last_applied_index f"
  consider (stale) "aq_term req < current_term f"
    | (busy) "current_term f \<le> aq_term req" "?lags" "aq_entries req \<noteq> []" "snd (follower_spec log req)"
    | (idle) "current_term f \<le> aq_term req"
      "commit_index f - last_applied_index f \<le> 100000 \<or> aq_entries req = [] \<or> \<not> snd (follower_spec log req)"
    using not_less by blast
  then show ?thesis
  proof cases
    case stale
    then show ?thesis
      using AppendEntriesImpl_stale [OF stale, of L] spec rel log_length_rel [OF rel]
      by (auto simp: append_spec_def ae_reply_def)
  next
    case busy
    then show ?thesis
      using AppendEntriesImpl_busy [OF rel busy(1) lo busy(2-4)] spec rel by (auto simp: append_spec_def)
  next
    case idle
    let ?r = "follower_spec log req"
    have r: "log' = fst ?r" "good = snd ?r" "\<not> busy"
      using idle spec by (auto simp: append_spec_def split: if_splits)
    obtain f' es res where "AppendEntriesImpl L f req = Inr (f', es, res)"
      and "binlog_rel content lo (binlogger f') (fst ?r)" "ar_success res = snd ?r" "\<not> ar_is_busy res"
      and "ar_success res \<Longrightarrow> commit_index f' = min (int (length (fst ?r)) - 1) (aq_leader_commit_index req)"
      and "\<not> ar_success res \<Longrightarrow> commit_index f' = commit_index f \<and> ar_log_length res = int (length (fst ?r))"
      by (rule AppendEntriesImpl_rel [OF rel idle(1) lo idle(2) ok]) (rule that)
    then show ?thesis using idle(1) r by (intro exI [of _ f'] exI [of _ es] exI [of _ res]) auto
  qed
qed

end

section \<open>A round of replication\<close>

text \<open>
  One turn of the leader's loop with an undisturbed call: the parts of \<open>ReplicateLog\<close> with the
  follower's handler between them. The result holds the new leader, the new follower and
  \<open>latest_replicating_ok\<close>.
\<close>

definition replicate_round ::
  "'db leveldb \<Rightarrow> 'db node \<Rightarrow> 'db node \<Rightarrow> string \<Rightarrow> bool \<Rightarrow> ('db node \<times> 'db node \<times> bool) res"
where
  "replicate_round L l f addr latest_ok =
     bindE (ReplicateLog_prepare L l addr latest_ok) (\<lambda>(l1, st).
       case st of
         ReplSend c \<Rightarrow>
           bindE (ReplicateLog_collect L l1 c) (\<lambda>r.
             case r of None \<Rightarrow> Inr (l1, f, latest_ok)
             | Some (req, max_term) \<Rightarrow>
                 bindE (AppendEntriesImpl L f req) (\<lambda>(f', es, res).
                   let (l2, ok', es', go) =
                         ReplicateLog_finish l1 addr c max_term latest_ok (Some res)
                   in Inr (l2, f', ok')))
       | _ \<Rightarrow> Inr (l1, f, latest_ok))"

text \<open>A leader that has slot \<open>i\<close> to send next, and a follower that is not busy.\<close>

definition synced ::
  "('db \<Rightarrow> string \<Rightarrow> string option) \<Rightarrow> 'db node \<Rightarrow> string \<Rightarrow> binlog_entry list \<Rightarrow> 'db node \<Rightarrow> int \<times> binlog_entry list \<Rightarrow> bool"
where
  "synced content l addr llog f = (\<lambda>(i, flog).
     binlog_rel content 0 (binlogger l) llog \<and> status l = kLeader \<and> \<not> stop l \<and>
     next_index l addr = Some i \<and> 0 \<le> i \<and>
     binlog_rel content 0 (binlogger f) flog \<and> current_term f \<le> current_term l \<and>
     (i < int (length llog) \<longrightarrow> commit_index f - last_applied_index f \<le> 100000))"

definition max_terms :: "binlog_entry list \<Rightarrow> int" where
  "max_terms es = foldr (\<lambda>e m. max (be_term e) m) es (-1)"

lemma ReplicateLog_finish_success:
  assumes "status l = kLeader" and "ar_current_term res \<le> current_term l" and "ar_success res"
  obtains l' es where "ReplicateLog_finish l addr c mt ok (Some res) = (l', True, es, True)"
    and "binlogger l' = binlogger l" and "stop l' = stop l" and "status l' = kLeader"
    and "current_term l' = current_term l" and "self_addr l' = self_addr l"
    and "next_index l' = (next_index l)(addr := Some (rc_index c + rc_batch c))"
proof -
  let ?e = "rc_index c + rc_batch c"
  let ?l = "l\<lparr>next_index := (next_index l)(addr := Some ?e), match_index := (match_index l)(addr := Some (?e - 1))\<rparr>"
  let ?r = "if mt = current_term ?l then UpdateCommitIndex ?l (?e - 1) else (?l, [])"
  obtain k m where "fst ?r = ?l\<lparr>commit_index := k, match_index := m\<rparr>"
  proof (cases "mt = current_term ?l")
    case True
    then show thesis using that by (auto intro: UpdateCommitIndex_frame [of ?l "?e - 1"])
  next
    case False
    then show thesis using that [of "match_index ?l" "commit_index ?l"] by simp
  qed
  moreover have "ReplicateLog_finish l addr c mt ok (Some res) = (fst ?r, True, snd ?r, True)"
    using assms by (simp add: ReplicateLog_finish_def Let_def case_prod_beta)
  ultimately show thesis using assms(1) by (intro that [of "fst ?r" "snd ?r"]) simp_all
qed

context leveldb_available
begin

lemma collect_entries_rel:
  assumes rel: "binlog_rel content lo b log"
  shows "lo \<le> idx \<Longrightarrow> idx + int k \<le> int (length log) \<Longrightarrow>
    collect_entries L b idx k =
      Inr (Some (map pb_of_entry (take k (drop (nat idx) log)), max_terms (take k (drop (nat idx) log))))"
proof (induction k arbitrary: idx)
  case 0
  then show ?case by (simp add: max_terms_def)
next
  case (Suc k)
  have "0 \<le> idx" using Suc.prems(1) binlog_rel_lo [OF rel] by simp
  have "drop (nat idx) log = log ! nat idx # drop (nat (idx + 1)) log"
    using Suc.prems \<open>0 \<le> idx\<close> by (subst Cons_nth_drop_Suc [symmetric]) (auto simp: nat_add_distrib)
  then show ?case
    using Suc.prems Suc.IH [of "idx + 1"] log.read_holds [OF rel, of idx]
    by (simp add: max_terms_def)
qed

text \<open>What a leader with something to send puts into its request.\<close>

lemma ReplicateLog_request:
  assumes rel: "binlog_rel content lo (binlogger l) llog"
    and leader: "status l = kLeader" "\<not> stop l"
    and i: "next_index l addr = Some i" "0 \<le> i" "i < int (length llog)" "lo \<le> max 0 (i - 1)"
  obtains c req where "ReplicateLog_prepare L l addr True = Inr (l, ReplSend c)"
    and "ReplicateLog_collect L l c = Inr (Some (req, max_terms (drop (nat i) llog)))"
    and "rc_index c = i" and "rc_batch c = int (length llog) - i"
    and "req = \<lparr>aq_term = current_term l, aq_leader_id = self_addr l, aq_prev_log_index = i - 1,
      aq_prev_log_term = term_at llog (i - 1), aq_leader_commit_index = commit_index l,
      aq_entries = map pb_of_entry (drop (nat i) llog)\<rparr>"
proof -
  let ?c = "\<lparr>rc_index = i, rc_term = current_term l, rc_prev_index = i - 1,
    rc_prev_term = term_at llog (i - 1), rc_commit = commit_index l,
    rc_batch = int (length llog) - i\<rparr>"
  have touch: "l\<lparr>next_index := touch 0 addr (next_index l)\<rparr> = l"
    using i(1) by (simp add: touch_def at_default_def fun_upd_idem)
  have lo: "lo \<le> i - 1 \<or> i = 0" "lo \<le> i" using i(2,4) by auto
  have "ReplicateLog_prepare L l addr True = Inr (l, ReplSend ?c)"
    using leader i log_length_rel [OF rel] log.read_holds [OF rel, of "i - 1"] lo
    by (auto simp: ReplicateLog_prepare_def Let_def touch at_default_def term_at_def)
  moreover have "ReplicateLog_collect L l ?c =
      Inr (Some (\<lparr>aq_term = current_term l, aq_leader_id = self_addr l, aq_prev_log_index = i - 1,
      aq_prev_log_term = term_at llog (i - 1), aq_leader_commit_index = commit_index l,
      aq_entries = map pb_of_entry (drop (nat i) llog)\<rparr>, max_terms (drop (nat i) llog)))"
    using collect_entries_rel [OF rel, of i "nat (int (length llog) - i)"] i lo
    by (simp add: ReplicateLog_collect_def nat_diff_distrib')
  ultimately show thesis by (intro that) auto
qed

lemma replicate_round_rel:
  assumes "synced content l addr llog f (i, flog)" and i: "i < int (length llog)"
  obtains l' f' where "replicate_round L l f addr True = Inr (l', f', True)"
    and "binlog_rel content 0 (binlogger l') llog" and "status l' = kLeader" and "\<not> stop l'"
    and "next_index l' addr = Some (fst (round_spec llog (i, flog)))"
    and "binlog_rel content 0 (binlogger f') (snd (round_spec llog (i, flog)))"
    and "current_term f' = current_term l'"
    and "fst (round_spec llog (i, flog)) \<noteq> int (length llog) \<Longrightarrow>
      commit_index f' - last_applied_index f' \<le> 100000"
proof -
  have l: "binlog_rel content 0 (binlogger l) llog" "status l = kLeader" "\<not> stop l"
      "next_index l addr = Some i" "0 \<le> i"
    and f: "binlog_rel content 0 (binlogger f) flog" "current_term f \<le> current_term l"
      "commit_index f - last_applied_index f \<le> 100000"
    using assms by (auto simp: synced_def)
  obtain c req where prep: "ReplicateLog_prepare L l addr True = Inr (l, ReplSend c)"
    and coll: "ReplicateLog_collect L l c = Inr (Some (req, max_terms (drop (nat i) llog)))"
    and c: "rc_index c = i" "rc_batch c = int (length llog) - i"
    and req: "req = \<lparr>aq_term = current_term l, aq_leader_id = self_addr l, aq_prev_log_index = i - 1,
      aq_prev_log_term = term_at llog (i - 1), aq_leader_commit_index = commit_index l,
      aq_entries = map pb_of_entry (drop (nat i) llog)\<rparr>"
    using ReplicateLog_request [OF l(1-5) i] l(5) by auto
  have ok: "\<forall>p \<in> set (aq_entries req). entry_ok (entry_of_pb p)"
    using binlog_rel_ok [OF l(1)] by (auto simp: req dest: in_set_dropD)
  have "current_term f \<le> aq_term req" "0 \<le> max 0 (aq_prev_log_index req - 1)"
    using f(2) by (simp_all add: req)
  then obtain f' es res where run: "AppendEntriesImpl L f req = Inr (f', es, res)"
    and f': "binlog_rel content 0 (binlogger f') (fst (follower_spec flog req))"
      "current_term f' = aq_term req" "last_applied_index f' = last_applied_index f"
    and succ: "ar_success res = snd (follower_spec flog req)"
    and res: "\<not> ar_is_busy res" "ar_current_term res = aq_term req"
    and fail: "\<not> ar_success res \<Longrightarrow> commit_index f' = commit_index f \<and>
           ar_log_length res = int (length (fst (follower_spec flog req)))"
    by (rule AppendEntriesImpl_rel [OF f(1) _ _ disjI1 [OF f(3)] ok]) blast
  have tm: "aq_term req = current_term l" by (simp add: req)
  let ?fin = "ReplicateLog_finish l addr c (max_terms (drop (nat i) llog)) True (Some res)"
  have round: "replicate_round L l f addr True = Inr (fst ?fin, f', fst (snd ?fin))"
    by (simp add: replicate_round_def prep coll run case_prod_beta Let_def)
  have ps: "aq_entries req \<noteq> []" using i l(5) by (simp add: req)
  have spec: "follower_spec flog req =
     (if i - 1 \<ge> int (length flog) then (flog, False)
      else if term_at flog (i - 1) \<noteq> term_at llog (i - 1) then (take (nat (i - 1)) flog, False)
      else (flog @ drop (nat i) llog, True))"
    using ps by (simp add: follower_spec_def) (simp add: req comp_def)
  show thesis
  proof (cases "ar_success res")
    case True
    obtain l' es' where fin: "?fin = (l', True, es', True)" and bl: "binlogger l' = binlogger l"
      and l': "stop l' = stop l" "status l' = kLeader" "current_term l' = current_term l"
      and nx: "next_index l' = (next_index l)(addr := Some (rc_index c + rc_batch c))"
      by (rule ReplicateLog_finish_success [of l res addr c "max_terms (drop (nat i) llog)" True])
        (use l(2) res tm True in auto)
    have "round_spec llog (i, flog) = (int (length llog), fst (follower_spec flog req))"
      using True succ i by (auto simp: spec round_spec_def split: if_splits)
    then show ?thesis using round l' l f' c tm by (intro that [of l' f']) (simp_all add: fin bl nx)
  next
    case False
    let ?next = "min (i - 1) (int (length (fst (follower_spec flog req))))"
    have "?next \<ge> 0" "round_spec llog (i, flog) = (?next, fst (follower_spec flog req))"
      using False succ i l(5) by (auto simp: spec round_spec_def term_at_def split: if_splits)
    moreover have "?fin = (l\<lparr>next_index := (next_index l)(addr := Some (if ?next < 0 then 0 else ?next))\<rparr>,
        True, [], True)"
      using False l res tm fail by (simp add: ReplicateLog_finish_def Let_def)
    ultimately show ?thesis using round l f' f tm fail False by (intro that [of "fst ?fin" f']) auto
  qed
qed

text \<open>A round refines \<open>round_spec\<close>, and keeps what the next round needs.\<close>

lemma replicate_round_synced:
  assumes syn: "synced content l addr llog f p"
  obtains l' f' where "replicate_round L l f addr True = Inr (l', f', True)"
    and "synced content l' addr llog f' (round_spec llog p)"
proof -
  obtain i flog where p: "p = (i, flog)" by fastforce
  show thesis
  proof (cases "i < int (length llog)")
    case True
    obtain l' f' where "replicate_round L l f addr True = Inr (l', f', True)"
      and "synced content l' addr llog f' (round_spec llog p)"
    proof (rule replicate_round_rel [OF syn [unfolded p] True])
      fix l' f'
      assume run: "replicate_round L l f addr True = Inr (l', f', True)"
        and "binlog_rel content 0 (binlogger l') llog" "status l' = kLeader" "\<not> stop l'"
          "next_index l' addr = Some (fst (round_spec llog (i, flog)))"
          "binlog_rel content 0 (binlogger f') (snd (round_spec llog (i, flog)))"
          "current_term f' = current_term l'"
        and gap: "fst (round_spec llog (i, flog)) \<noteq> int (length llog) \<Longrightarrow>
          commit_index f' - last_applied_index f' \<le> 100000"
      moreover have "0 \<le> fst (round_spec llog (i, flog))"
        using syn by (auto simp: p synced_def round_spec_def term_at_def)
      ultimately have "synced content l' addr llog f' (round_spec llog p)"
        by (auto simp: synced_def p case_prod_beta)
      with run show thesis by (rule that)
    qed
    then show ?thesis by (rule that)
  next
    case False
    have l: "status l = kLeader" "\<not> stop l" "next_index l addr = Some i" "log_length l \<le> i"
      using syn False log_length_rel by (auto simp: synced_def p)
    have "replicate_round L l f addr True = Inr (l, f, True)"
      using l by (simp add: replicate_round_def ReplicateLog_prepare_def touch_def at_default_def
          fun_upd_idem Let_def)
    then show ?thesis using syn False by (intro that [of l f]) (simp_all add: p round_spec_def)
  qed
qed

end

section \<open>Convergence\<close>

text \<open>Equal terms at an index mean equal logs up to it.\<close>

definition log_matching :: "binlog_entry list \<Rightarrow> binlog_entry list \<Rightarrow> bool" where
  "log_matching llog flog \<longleftrightarrow>
     (\<forall>j < min (length llog) (length flog).
        be_term (flog ! j) = be_term (llog ! j) \<longrightarrow> take (Suc j) flog = take (Suc j) llog)"

lemma log_matching_take: "log_matching llog flog \<Longrightarrow> log_matching llog (take n flog)"
  by (auto simp: log_matching_def min_def)

lemma round_spec_done: "(round_spec llog ^^ k) (int (length llog), log) = (int (length llog), log)"
  by (induction k) (simp_all add: round_spec_def)

lemma rounds_aligned:
  assumes "log_matching llog flog" and "length flog < length llog"
  shows "(round_spec llog ^^ Suc (length flog)) (int (length flog), flog) = (int (length llog), llog)"
  using assms
proof (induction "length flog" arbitrary: flog)
  case 0
  then show ?case by (simp add: round_spec_def term_at_def)
next
  case (Suc n)
  let ?i = "int (length flog)" and ?flog = "take n flog"
  have pos: "?i - 1 = int n" "length ?flog = n" using Suc.hyps(2) by auto
  show ?case
  proof (cases "term_at flog (?i - 1) = term_at llog (?i - 1)")
    case True
    with Suc.hyps(2) have "be_term (flog ! n) = be_term (llog ! n)" by (simp add: term_at_def pos)
    then have "take (Suc n) flog = take (Suc n) llog"
      using Suc.prems(1) [unfolded log_matching_def, rule_format, of n] Suc.prems(2) Suc.hyps(2)
      by linarith
    then have "flog = take (length flog) llog" using Suc.hyps(2) by (metis order_refl take_all)
    then have "flog @ drop (length flog) llog = llog" by (metis append_take_drop_id)
    then have "round_spec llog (?i, flog) = (int (length llog), llog)"
      using True Suc.prems(2) by (simp add: round_spec_def)
    then show ?thesis by (simp add: funpow_swap1 round_spec_done del: funpow.simps add: funpow_Suc_right)
  next
    case False
    then have "round_spec llog (?i, flog) = (int n, ?flog)"
      using Suc.prems(2) pos by (simp add: round_spec_def)
    moreover have "(round_spec llog ^^ Suc n) (int n, ?flog) = (int (length llog), llog)"
      using Suc.hyps(1) [of ?flog] Suc.prems Suc.hyps(2) pos(2) log_matching_take by simp
    ultimately show ?thesis by (simp only: Suc.hyps(2) [symmetric] funpow_Suc_right comp_apply)
  qed
qed

text \<open>The loop of \<open>ReplicateLog\<close> for a number of undisturbed turns.\<close>

fun replicate_rounds ::
  "'db leveldb \<Rightarrow> nat \<Rightarrow> 'db node \<Rightarrow> 'db node \<Rightarrow> string \<Rightarrow> ('db node \<times> 'db node) res"
where
  "replicate_rounds L 0 l f addr = Inr (l, f)"
| "replicate_rounds L (Suc k) l f addr =
     bindE (replicate_round L l f addr True) (\<lambda>(l', f', ok). replicate_rounds L k l' f' addr)"

lemma rounds_converge:
  assumes match: "log_matching llog flog" and i: "int (length flog) \<le> i" "i < int (length llog)"
  shows "(round_spec llog ^^ (nat i + 1)) (i, flog) = (int (length llog), llog)"
proof (cases "int (length flog) = i")
  case True
  then show ?thesis using rounds_aligned [OF match] i by auto
next
  case False
  then have "round_spec llog (i, flog) = (int (length flog), flog)" using i by (simp add: round_spec_def)
  moreover obtain k where "nat i = k + Suc (length flog)"
    using False i by (metis add.commute int_nat_eq le_iff_add less_eq_Suc_le nat_int of_nat_less_iff
        order_le_less zero_le_imp_eq_int of_nat_0_le_iff order_trans)
  moreover have "(round_spec llog ^^ (k + Suc (length flog))) (int (length flog), flog) =
      (int (length llog), llog)"
    using rounds_aligned [OF match] i round_spec_done [of k llog llog] by (simp only: funpow_add comp_apply)
  ultimately show ?thesis by (simp only: add.commute [of _ 1] plus_1_eq_Suc funpow_Suc_right comp_apply)
qed

context leveldb_available
begin

lemma replicate_rounds_synced:
  assumes "synced content l addr llog f p"
  obtains l' f' where "replicate_rounds L k l f addr = Inr (l', f')"
    and "synced content l' addr llog f' ((round_spec llog ^^ k) p)"
  using assms
proof (induction k arbitrary: l f p thesis)
  case 0
  then show ?case by simp
next
  case (Suc k)
  from Suc.prems(2) obtain l1 f1 where "replicate_round L l f addr True = Inr (l1, f1, True)"
    and "synced content l1 addr llog f1 (round_spec llog p)" by (rule replicate_round_synced)
  then show ?case
    using Suc.prems(1) by (rule_tac Suc.IH) (auto simp: funpow_Suc_right simp del: funpow.simps)
qed

lemma replicate_rounds_converge:
  assumes "synced content l addr llog f (i, flog)" and "log_matching llog flog"
    and "int (length flog) \<le> i" and "i < int (length llog)"
  shows "\<exists>l' f'. replicate_rounds L (nat i + 1) l f addr = Inr (l', f') \<and>
    binlog_rel content 0 (binlogger l') llog \<and> binlog_rel content 0 (binlogger f') llog \<and>
    next_index l' addr = Some (int (length llog))"
proof -
  obtain l' f' where "replicate_rounds L (nat i + 1) l f addr = Inr (l', f')"
    and "synced content l' addr llog f' (int (length llog), llog)"
    using replicate_rounds_synced [OF assms(1), of "nat i + 1"] rounds_converge [OF assms(2-4)]
    by metis
  then show ?thesis unfolding synced_def by blast
qed

end

section \<open>Committing\<close>

definition match_count :: "'db node \<Rightarrow> int \<Rightarrow> string list \<Rightarrow> nat" where
  "match_count n index addrs = length (filter (\<lambda>a. at_default 0 (match_index n) a = index) addrs)"

lemma update_commit_loop_exact:
  "update_commit_loop n index half k addrs = (n', es) \<Longrightarrow>
     (let adv = (addrs \<noteq> [] \<and> half \<le> k + match_count n index addrs \<and> commit_index n < index)
      in commit_index n' = (if adv then index else commit_index n) \<and>
         es = (if adv then [SignalCommit] else []))"
proof (induction addrs arbitrary: n k n' es)
  case Nil
  then show ?case by simp
next
  case (Cons a addrs)
  let ?n1 = "n\<lparr>match_index := touch 0 a (match_index n)\<rparr>"
  let ?k = "if at_default 0 (match_index n) a = index then k + 1 else k"
  let ?adv = "half \<le> ?k \<and> commit_index n < index"
  let ?n2 = "if ?adv then ?n1\<lparr>commit_index := index\<rparr> else ?n1"
  obtain n3 es3 where loop: "update_commit_loop ?n2 index half ?k addrs = (n3, es3)" by fastforce
  have eqs: "n' = n3" "es = (if ?adv then [SignalCommit] else []) @ es3"
    using Cons.prems loop by (auto simp: Let_def)
  have count: "match_count ?n2 index addrs = match_count n index addrs"
    "k + match_count n index (a # addrs) = ?k + match_count n index addrs"
    by (simp_all add: match_count_def)
  show ?case
    using Cons.IH [OF loop] unfolding eqs count
    by (cases ?adv; cases "addrs = []") (auto simp: Let_def match_count_def)
qed

text \<open>The loop inserts the match indices it looks at; the rest of the state it leaves alone.\<close>

lemma update_commit_loop_match:
  "match_index (fst (update_commit_loop n index half k addrs)) a =
     (if a \<in> set addrs then Some (at_default 0 (match_index n) a) else match_index n a)"
proof (induction addrs arbitrary: n k)
  case (Cons b addrs)
  show ?case
    by (simp add: Let_def case_prod_beta Cons.IH del: split_paired_Ex) (simp add: touch_def)
qed simp

lemma UpdateCommitIndex_eq:
  assumes "UpdateCommitIndex n index = (n', es)"
  defines "M \<equiv> all_server_addr n"
  shows "n' = n\<lparr>commit_index := (if M \<noteq> [] \<and> length M div 2 \<le> match_count n index M \<and> commit_index n < index
      then index else commit_index n),
    match_index := (\<lambda>a. if a \<in> set M then Some (at_default 0 (match_index n) a) else match_index n a)\<rparr>"
proof -
  have loop: "update_commit_loop n index (length M div 2) 0 M = (n', es)"
    using assms by (simp add: UpdateCommitIndex_def)
  obtain c m where eq: "n' = n\<lparr>commit_index := c, match_index := m\<rparr>"
    using update_commit_loop_frame [of n index "length M div 2" 0 M] loop by auto
  have "commit_index n' = c" "match_index n' = m" by (simp_all add: eq)
  moreover have "match_index n' = (\<lambda>a. if a \<in> set M then Some (at_default 0 (match_index n) a)
      else match_index n a)"
    using update_commit_loop_match [of n index "length M div 2" 0 M] loop by (auto simp: fun_eq_iff)
  ultimately show ?thesis
    using update_commit_loop_exact [OF loop] unfolding eq by (auto simp: Let_def)
qed

lemma match_count_majority:
  assumes "length M div 2 \<le> match_count n index M" and "distinct M" and "A \<in> set M"
    and "match_index n A \<in> {None, Some 0}" and "index \<noteq> 0"
  shows "majority M (insert A {a \<in> set M. match_index n a = Some index})"
proof -
  let ?Q = "{a \<in> set M. match_index n a = Some index}"
  have "at_default 0 (match_index n) a = index \<longleftrightarrow> match_index n a = Some index" for a
    using assms(5) by (auto simp: at_default_def split: option.splits)
  then have "match_count n index M = length (filter (\<lambda>a. match_index n a = Some index) M)"
    by (simp add: match_count_def)
  also have "\<dots> = card ?Q"
    using assms(2) distinct_card [of "filter (\<lambda>a. match_index n a = Some index) M"] by simp
  finally have "match_count n index M = card ?Q" .
  moreover have "card (insert A ?Q) = card ?Q + 1" using assms(4,5) by auto
  ultimately show ?thesis using assms(1) by (simp add: majority_def)
qed

section \<open>Samples\<close>

text \<open>A leader with two entries, and a follower that holds another entry in the first slot.\<close>

definition sample_log :: "binlog_entry list" where
  "sample_log = [sample_entry\<lparr>be_term := 1\<rparr>, sample_entry\<lparr>be_term := 2\<rparr>]"

definition sample_old_log :: "binlog_entry list" where
  "sample_old_log = [sample_entry\<lparr>be_term := 0\<rparr>]"

lemma sample_log_ok [simp]:
  "\<forall>e \<in> set sample_log. entry_ok e" "\<forall>e \<in> set sample_old_log. entry_ok e"
  "length sample_log = 2" "length sample_old_log = 1"
  by (simp_all add: sample_log_def sample_old_log_def sample_entry_def entry_ok_def entry_size_def
      in_i32_def in_i64_def)

definition sample_leader_node :: "mem_db node" where
  "sample_leader_node = sample_node ''a'' [''a'', ''b''] sample_log
     \<lparr>status := kLeader, current_term := 2, next_index := [''b'' \<mapsto> 1]\<rparr>"

definition sample_follower_node :: "mem_db node" where
  "sample_follower_node = sample_node ''b'' [''a'', ''b''] sample_old_log"

lemma sample_synced:
  "synced map_of sample_leader_node ''b'' sample_log sample_follower_node (1, sample_old_log)"
  using mem_binlog_rel [of sample_log] mem_binlog_rel [of sample_old_log]
  by (simp add: synced_def sample_leader_node_def sample_follower_node_def)

section \<open>Properties\<close>

text \<open>
  C16: A follower does with an append request what \<open>append_spec\<close> says, on every branch of the
  handler: a request of an old term changes nothing; in a term at least its own a missing previous
  slot leaves the log alone, a previous entry of another term cuts the log before it, a follower
  with more than 100000 slots committed and not applied leaves the log alone and says that it is
  busy, and otherwise the entries are appended. It joins the sender's term as a follower and counts
  the request; on success its commit index becomes the smaller of its last slot and the leader's
  commit index, and the commit thread is woken if that is later; on failure it answers with the
  length of its log. Nothing else changes. Assumed are entries that the log can hold, and that the
  slots at and before the previous one are not cleaned away.
\<close>

theorem append_entries_refines:
  assumes "leveldb_available L content" and "binlog_rel content lo (binlogger f) log"
    and "lo \<le> max 0 (aq_prev_log_index req - 1)"
    and "\<forall>p \<in> set (aq_entries req). entry_ok (entry_of_pb p)"
    and "append_spec (current_term f) (100000 < commit_index f - last_applied_index f) log req = (log', good, busy)"
  shows "\<exists>f' es res b c. AppendEntriesImpl L f req = Inr (f', es, res) \<and>
    binlog_rel content lo b log' \<and>
    c = (if good then min (int (length log') - 1) (aq_leader_commit_index req) else commit_index f) \<and>
    f' = (if aq_term req < current_term f then f
      else f\<lparr>status := kFollower, current_term := aq_term req, cur_leader_addr := aq_leader_id req,
        headbeat_cnt := headbeat_cnt f + 1, binlogger := b, commit_index := c\<rparr>) \<and>
    es = (if commit_index f < c then [SignalCommit] else []) \<and>
    ar_success res = good \<and> ar_is_busy res = busy \<and>
    ar_current_term res = max (current_term f) (aq_term req) \<and>
    (\<not> good \<longrightarrow> ar_log_length res = int (length log'))"
proof -
  obtain f' es res where run: "AppendEntriesImpl L f req = Inr (f', es, res)"
    and f': "binlog_rel content lo (binlogger f') log'"
      "commit_index f' = (if good then min (int (length log') - 1) (aq_leader_commit_index req) else commit_index f)"
    and res: "ar_success res = good" "ar_is_busy res = busy" "\<not> good \<longrightarrow> ar_log_length res = int (length log')"
    and stale: "aq_term req < current_term f \<longrightarrow> f' = f \<and> es = []"
    using leveldb_available.append_answers [OF assms] by blast
  show ?thesis
  proof (cases "aq_term req < current_term f")
    case True
    then have "\<not> good" using assms(5) by (auto simp: append_spec_def)
    then show ?thesis
      using True run f' res stale AppendEntriesImpl_stale [OF True, of L]
      by (intro exI [of _ f'] exI [of _ es] exI [of _ res] exI [of _ "binlogger f'"] exI [of _ "commit_index f'"])
        (auto simp: ae_reply_def)
  next
    case False
    then have "current_term f \<le> aq_term req" by simp
    note frame = AppendEntriesImpl_frame [OF run this]
    show ?thesis
      using False run f' res frame
      by (intro exI [of _ f'] exI [of _ es] exI [of _ res] exI [of _ "binlogger f'"] exI [of _ "commit_index f'"])
        simp
  qed
qed

definition sample_append :: append_entries_request where
  "sample_append = \<lparr>aq_term = 2, aq_leader_id = ''a'', aq_prev_log_index = 0, aq_prev_log_term = 0,
     aq_leader_commit_index = 1, aq_entries = [pb_of_entry sample_entry]\<rparr>"

theorem append_entries_refines_witness:
  "\<exists>f' es res. AppendEntriesImpl mem_leveldb sample_follower_node sample_append = Inr (f', es, res) \<and>
     binlog_rel map_of 0 (binlogger f') (sample_old_log @ [sample_entry]) \<and> ar_success res \<and>
     commit_index f' = 1 \<and> es = [SignalCommit]"
proof -
  have rel: "binlog_rel map_of 0 (binlogger sample_follower_node) sample_old_log"
    using mem_binlog_rel [of sample_old_log] by (simp add: sample_follower_node_def)
  have spec: "append_spec (current_term sample_follower_node)
      (100000 < commit_index sample_follower_node - last_applied_index sample_follower_node)
      sample_old_log sample_append = (sample_old_log @ [sample_entry], True, False)"
    by (simp add: append_spec_def follower_spec_def sample_append_def sample_old_log_def term_at_def
        sample_follower_node_def)
  show ?thesis
    using append_entries_refines [OF mem.leveldb_available_axioms rel _ _ spec]
    by (force simp: sample_append_def sample_follower_node_def sample_old_log_def)
qed

text \<open>
  C17: An undisturbed turn of the leader's replication loop (prepare, collect, the follower's
  handler, digest the answer) does to the follower's log and to its next index what
  \<open>round_spec\<close> says, and leaves both servers ready for the next turn.
\<close>

theorem replicate_round_refines:
  assumes "leveldb_available L content" and "synced content l addr llog f p"
  shows "\<exists>l' f'. replicate_round L l f addr True = Inr (l', f', True) \<and>
    synced content l' addr llog f' (round_spec llog p)"
  by (rule leveldb_available.replicate_round_synced [OF assms]) blast

theorem replicate_round_refines_witness:
  "\<exists>l' f'. replicate_round mem_leveldb sample_leader_node sample_follower_node ''b'' True = Inr (l', f', True) \<and>
     synced map_of l' ''b'' sample_log f' (0, [])"
proof -
  have "round_spec sample_log (1, sample_old_log) = (0, [])"
    by (simp add: round_spec_def term_at_def sample_log_def sample_old_log_def)
  then show ?thesis
    using replicate_round_refines [OF mem.leveldb_available_axioms sample_synced] by simp
qed

text \<open>
  C12: Convergence. A follower whose log is no longer than the leader's next index for it, with
  terms that identify prefixes, holds exactly the leader's log after at most one turn more than
  that index; the leader's log does not change and its next index is the end of the log.
\<close>

theorem replication_converges:
  assumes "leveldb_available L content" and "synced content l addr llog f (i, flog)"
    and "log_matching llog flog" and "int (length flog) \<le> i" and "i < int (length llog)"
  shows "\<exists>l' f'. replicate_rounds L (nat i + 1) l f addr = Inr (l', f') \<and>
    binlog_rel content 0 (binlogger l') llog \<and> binlog_rel content 0 (binlogger f') llog \<and>
    next_index l' addr = Some (int (length llog))"
  using assms by (rule leveldb_available.replicate_rounds_converge)

theorem replication_converges_witness:
  "\<exists>l' f'. replicate_rounds mem_leveldb 2 sample_leader_node sample_follower_node ''b'' = Inr (l', f') \<and>
     binlog_rel map_of 0 (binlogger f') sample_log"
proof -
  have "log_matching sample_log sample_old_log"
    by (simp add: log_matching_def sample_log_def sample_old_log_def)
  from replication_converges [OF mem.leveldb_available_axioms sample_synced this] show ?thesis
    by (auto simp: numeral_2_eq_2)
qed

text \<open>
  \<open>UpdateCommitIndex\<close> moves the commit index to the given slot, and signals the commit
  thread, exactly when the slot is beyond the commit index and at least half of the members
  have precisely that slot as their match index (a member without one counts as 0); it changes
  nothing otherwise.
\<close>

lemma update_commit_exact:
  assumes "UpdateCommitIndex n index = (n', es)"
  defines "adv \<equiv> all_server_addr n \<noteq> [] \<and> commit_index n < index \<and>
    length (all_server_addr n) div 2 \<le> match_count n index (all_server_addr n)"
  shows "commit_index n' = (if adv then index else commit_index n) \<and>
    es = (if adv then [SignalCommit] else [])"
  using update_commit_loop_exact [OF assms(1) [unfolded UpdateCommitIndex_def]]
  by (simp add: adv_def Let_def conj_commute)

text \<open>
  C20: A leader has no match index of its own until the first call of \<open>UpdateCommitIndex\<close>, which inserts
  0 for it; every later call leaves that 0. In both cases a slot other than the first gets committed
  only when it is beyond the commit index and the leader together with the members whose match
  index is exactly that slot are a majority.
\<close>

theorem commit_needs_majority:
  assumes "UpdateCommitIndex n index = (n', es)" and "index \<noteq> 0"
    and "distinct (all_server_addr n)" and "self_addr n \<in> set (all_server_addr n)"
    and "match_index n (self_addr n) \<in> {None, Some 0}"
  shows "match_index n' (self_addr n) = Some 0 \<and>
    (commit_index n' \<noteq> commit_index n \<longrightarrow> commit_index n < index \<and> commit_index n' = index \<and>
       majority (all_server_addr n)
         (insert (self_addr n) {a \<in> set (all_server_addr n). match_index n a = Some index}))"
proof -
  note n' = UpdateCommitIndex_eq [OF assms(1)]
  have "majority (all_server_addr n)
      (insert (self_addr n) {a \<in> set (all_server_addr n). match_index n a = Some index})"
    if "length (all_server_addr n) div 2 \<le> match_count n index (all_server_addr n)"
    using that assms(2-5) by (intro match_count_majority) auto
  then show ?thesis using assms(4,5) by (auto simp: n' at_default_def)
qed

theorem commit_needs_majority_witness:
  "majority [''a'', ''b'', ''c''] (insert ''a'' {a \<in> set [''a'', ''b'', ''c''].
     match_index (sample_node ''a'' [''a'', ''b'', ''c''] []
       \<lparr>match_index := [''a'' \<mapsto> 0, ''b'' \<mapsto> 3]\<rparr>) a = Some 3})"
proof -
  let ?n = "sample_node ''a'' [''a'', ''b'', ''c''] [] \<lparr>match_index := [''a'' \<mapsto> 0, ''b'' \<mapsto> 3]\<rparr>"
  obtain n' es where run: "UpdateCommitIndex ?n 3 = (n', es)" by fastforce
  then have "commit_index n' = 3"
    using update_commit_loop_exact [OF run [unfolded UpdateCommitIndex_def]]
    by (simp add: match_count_def at_default_def Let_def)
  then show ?thesis using commit_needs_majority [OF run] by simp
qed

text \<open>
  C19: Nothing protects a follower from a request that arrives twice, as it does when the answer is
  lost and the leader sends the entries again. A request with entries, in a current term, whose
  previous slot the follower has with the given term, is accepted both times, and the follower's
  log ends with the entries twice. Assumed are a follower that is not busy at either time, entries
  that the log can hold, and that the slots at and before the previous one are not cleaned away.
\<close>

theorem redelivered_append_duplicates:
  assumes "leveldb_available L content" and "binlog_rel content lo (binlogger f) log"
    and "current_term f \<le> aq_term req" and "lo \<le> max 0 (aq_prev_log_index req - 1)"
    and "commit_index f - last_applied_index f \<le> 100000"
    and "aq_leader_commit_index req - last_applied_index f \<le> 100000"
    and "\<forall>p \<in> set (aq_entries req). entry_ok (entry_of_pb p)"
    and "aq_entries req \<noteq> []" and "-1 \<le> aq_prev_log_index req"
    and "aq_prev_log_index req < int (length log)"
    and "term_at log (aq_prev_log_index req) = aq_prev_log_term req"
  shows "\<exists>f1 es1 res1 f2 es2 res2. AppendEntriesImpl L f req = Inr (f1, es1, res1) \<and>
    AppendEntriesImpl L f1 req = Inr (f2, es2, res2) \<and> ar_success res1 \<and> ar_success res2 \<and>
    binlog_rel content lo (binlogger f2)
      (log @ map entry_of_pb (aq_entries req) @ map entry_of_pb (aq_entries req))"
proof -
  let ?es = "map entry_of_pb (aq_entries req)"
  have spec: "follower_spec log req = (log @ ?es, True)"
    using assms(8,10,11) by (simp add: follower_spec_def)
  have "term_at (log @ ?es) (aq_prev_log_index req) = aq_prev_log_term req"
    using assms(9,10,11) by (simp add: term_at_def nth_append nat_less_iff split: if_splits)
  then have spec2: "follower_spec (log @ ?es) req = ((log @ ?es) @ ?es, True)"
    using assms(8,10) by (simp add: follower_spec_def)
  obtain f1 es1 res1 where run1: "AppendEntriesImpl L f req = Inr (f1, es1, res1)" "ar_success res1"
    and f1: "binlog_rel content lo (binlogger f1) (log @ ?es)" "current_term f1 = aq_term req"
      "last_applied_index f1 = last_applied_index f"
      "commit_index f1 = min (int (length (log @ ?es)) - 1) (aq_leader_commit_index req)"
    by (rule leveldb_available.AppendEntriesImpl_rel [OF assms(1-4) disjI1 [OF assms(5)] assms(7)]) (simp add: spec)
  have "current_term f1 \<le> aq_term req" "commit_index f1 - last_applied_index f1 \<le> 100000"
    using f1 assms(6) by auto
  then obtain f2 es2 res2 where "AppendEntriesImpl L f1 req = Inr (f2, es2, res2)" "ar_success res2"
    and "binlog_rel content lo (binlogger f2) ((log @ ?es) @ ?es)"
    by (rule_tac leveldb_available.AppendEntriesImpl_rel [OF assms(1) f1(1) _ assms(4) _ assms(7)])
      (simp_all add: spec2)
  with run1 show ?thesis by auto
qed

theorem redelivered_append_duplicates_witness:
  "\<exists>f1 es1 res1 f2 es2 res2. AppendEntriesImpl mem_leveldb sample_follower_node sample_append = Inr (f1, es1, res1) \<and>
     AppendEntriesImpl mem_leveldb f1 sample_append = Inr (f2, es2, res2) \<and> ar_success res2 \<and>
     binlog_rel map_of 0 (binlogger f2) (sample_old_log @ [sample_entry, sample_entry])"
proof -
  have rel: "binlog_rel map_of 0 (binlogger sample_follower_node) sample_old_log"
    using mem_binlog_rel [of sample_old_log] by (simp add: sample_follower_node_def)
  have pre: "current_term sample_follower_node \<le> aq_term sample_append"
    "0 \<le> max 0 (aq_prev_log_index sample_append - 1)"
    "commit_index sample_follower_node - last_applied_index sample_follower_node \<le> 100000"
    "aq_leader_commit_index sample_append - last_applied_index sample_follower_node \<le> 100000"
    "\<forall>p \<in> set (aq_entries sample_append). entry_ok (entry_of_pb p)"
    "aq_entries sample_append \<noteq> []" "-1 \<le> aq_prev_log_index sample_append"
    "aq_prev_log_index sample_append < int (length sample_old_log)"
    "term_at sample_old_log (aq_prev_log_index sample_append) = aq_prev_log_term sample_append"
    by (simp_all add: sample_append_def sample_follower_node_def sample_old_log_def term_at_def)
  show ?thesis
    using redelivered_append_duplicates [OF mem.leveldb_available_axioms rel pre]
    by (auto simp: sample_append_def)
qed

end
