(* ===== verification/ApplySpec.thy ===== *)
theory ApplySpec
  imports Service
begin

text \<open>
  What applying committed entries promises. The data store is a map from keys to the operation
  that wrote them and a value; \<open>apply_spec\<close> applies one entry to it. The thread \<open>CommitIndex\<close>
  refines the fold of \<open>apply_spec\<close> over the committed part of the log, answers exactly the calls
  that wait for it, and leaves the position in the data store where a restart finds it.
\<close>

section \<open>The replicated map\<close>

type_synonym kv_map = "string \<Rightarrow> (binlog_op \<times> string) option"

definition apply_spec :: "binlog_entry \<Rightarrow> kv_map \<Rightarrow> kv_map" where
  "apply_spec e m =
     (if be_op e \<in> {kPutOp, kLockOp} then m(be_key e := Some (be_op e, be_value e))
      else if be_op e \<in> {kDeleteOp, kUnLockOp} then m(be_key e := None)
      else m)"

text \<open>The position shares the data store with the clients' keys; its key is not one of them.\<close>

definition store_rel ::
  "('db \<Rightarrow> string \<Rightarrow> string option) \<Rightarrow> 'db \<Rightarrow> kv_map \<Rightarrow> bool" where
  "store_rel content d m \<longleftrightarrow>
     (\<forall>k. k \<noteq> tag_last_applied_index \<longrightarrow>
        content d k = map_option (\<lambda>(x, v). type_and_value x v) (m k)) \<and>
     (\<forall>k x v. m k = Some (x, v) \<longrightarrow> x \<in> {kPutOp, kLockOp})"

definition client_entry :: "binlog_entry \<Rightarrow> bool" where
  "client_entry e \<longleftrightarrow> be_key e \<noteq> tag_last_applied_index"

lemma apply_spec_idem [simp]: "apply_spec e (apply_spec e m) = apply_spec e m"
  by (simp add: apply_spec_def)

lemma store_rel_key:
  "store_rel content d m \<Longrightarrow> k \<noteq> tag_last_applied_index \<Longrightarrow>
     content d k = map_option (\<lambda>(x, v). type_and_value x v) (m k)"
  by (simp add: store_rel_def)

section \<open>One entry\<close>

context leveldb_available
begin

lemma apply_entry_rel:
  assumes "store_rel content d m" and "client_entry e"
  shows "store_rel content (apply_entry L d e) (apply_spec e m)"
  using assms
  by (cases "be_op e")
    (auto simp: store_rel_def client_entry_def apply_entry_def apply_spec_def store.put_view
      store.delete_view)

lemma put_tag_rel:
  "store_rel content d m \<Longrightarrow>
     store_rel content (fst (StorageKV_Put L d tag_last_applied_index v)) m"
  by (simp add: store_rel_def store.put_view)

lemma apply_entry_tag:
  "client_entry e \<Longrightarrow>
     content (apply_entry L d e) tag_last_applied_index = content d tag_last_applied_index"
  by (cases "be_op e")
    (simp_all add: client_entry_def apply_entry_def store.put_view store.delete_view)

end

text \<open>The calls that an applied index answers, and what is left of the waiting calls.\<close>

definition answers_at :: "'db node \<Rightarrow> int \<Rightarrow> effect list" where
  "answers_at n i =
     (if status n = kLeader
      then case sdk_ack_map n i of None \<Rightarrow> [] | Some ack \<Rightarrow> ack_effects (cur_leader_addr n) ack
      else [])"

definition answers_between :: "'db node \<Rightarrow> int \<Rightarrow> nat \<Rightarrow> effect list" where
  "answers_between n i k = concat (map (\<lambda>j. answers_at n (i + int j)) [0..<k])"

definition acks_after :: "'db node \<Rightarrow> int \<Rightarrow> nat \<Rightarrow> int \<Rightarrow> sdk_ack option" where
  "acks_after n i k = (\<lambda>j. if status n = kLeader \<and> i \<le> j \<and> j < i + int k then None else sdk_ack_map n j)"

lemma acks_after_0 [simp]: "acks_after n i 0 = sdk_ack_map n"
  by (auto simp: acks_after_def fun_eq_iff)

lemma answers_at_data_store [simp]: "answers_at (n\<lparr>data_store := d\<rparr>) i = answers_at n i"
  by (simp add: answers_at_def cong: option.case_cong)

lemma acks_after_data_store [simp]: "acks_after (n\<lparr>data_store := d\<rparr>) i k = acks_after n i k"
  by (simp add: acks_after_def fun_eq_iff)

lemma answers_at_between:
  "j < k \<Longrightarrow> set (answers_at n (i + int j)) \<subseteq> set (answers_between n i k)"
  by (auto simp: answers_between_def)

lemma answers_between_Suc:
  assumes "status n' = status n" and "cur_leader_addr n' = cur_leader_addr n"
    and "\<And>j. j \<noteq> i \<Longrightarrow> sdk_ack_map n' j = sdk_ack_map n j"
  shows "answers_at n i @ answers_between n' (i + 1) k = answers_between n i (Suc k)"
proof -
  have "answers_between n' (i + 1) k = concat (map (\<lambda>j. answers_at n (i + int (Suc j))) [0..<k])"
    unfolding answers_between_def using assms
    by (intro arg_cong [where f = concat] map_cong)
      (auto simp: answers_at_def algebra_simps split: option.split)
  then show ?thesis
    by (simp only: answers_between_def upt_conv_Cons [of 0 "Suc k"] map_Suc_upt [symmetric] map_map
        comp_def list.map concat.simps of_nat_0 add_0_right zero_less_Suc) simp
qed

lemma CommitIndex_ack_eq:
  "CommitIndex_ack L n i =
     (n\<lparr>sdk_ack_map := acks_after n i 1, last_applied_index := last_applied_index n + 1,
        data_store := fst (StorageKV_Put L (data_store n) tag_last_applied_index
          (IntToString (last_applied_index n + 1)))\<rparr>, answers_at n i)"
proof -
  have "acks_after n i 1 = (if status n = kLeader then (sdk_ack_map n)(i := None) else sdk_ack_map n)"
    by (auto simp: acks_after_def fun_eq_iff)
  moreover have "sdk_ack_map n i = None \<Longrightarrow> (sdk_ack_map n)(i := None) = sdk_ack_map n" by auto
  ultimately show ?thesis
    by (cases "sdk_ack_map n i"; cases "status n = kLeader")
      (simp_all add: CommitIndex_ack_def answers_at_def Let_def)
qed

section \<open>A run of the loop\<close>

text \<open>
  The loop over \<open>k\<close> entries from slot \<open>i\<close>: where it starts, and the state it ends in.
\<close>

definition commit_ready ::
  "('db \<Rightarrow> string \<Rightarrow> string option) \<Rightarrow> int \<Rightarrow> binlog_entry list \<Rightarrow> kv_map \<Rightarrow> 'db node \<Rightarrow> bool"
where
  "commit_ready content lo log m n \<longleftrightarrow>
     binlog_rel content lo (binlogger n) log \<and> store_rel content (data_store n) m \<and>
     lo \<le> last_applied_index n + 1 \<and>
     list_all client_entry log"

context leveldb_available
begin

lemma CommitIndex_one_rel:
  assumes ready: "commit_ready content lo log m n" and i: "last_applied_index n = i - 1"
    "i < int (length log)"
  obtains ds where "CommitIndex_one L n i =
      Inr (n\<lparr>data_store := ds, sdk_ack_map := acks_after n i 1, last_applied_index := i\<rparr>, answers_at n i)"
    and "store_rel content ds (apply_spec (log ! nat i) m)"
    and "content ds tag_last_applied_index = Some (IntToString i)"
proof -
  have rel: "binlog_rel content lo (binlogger n) log" "store_rel content (data_store n) m"
    "lo \<le> i" "0 \<le> i" "list_all client_entry log"
    using ready i binlog_rel_lo by (fastforce simp: commit_ready_def)+
  let ?e = "log ! nat i"
  let ?ds = "apply_entry L (data_store n) ?e"
  let ?ds' = "fst (StorageKV_Put L ?ds tag_last_applied_index (IntToString i))"
  have "client_entry ?e" using rel(4,5) i(2) by (simp add: list_all_length)
  then have "store_rel content ?ds' (apply_spec ?e m)"
    using rel(2) by (intro put_tag_rel apply_entry_rel)
  moreover have "CommitIndex_apply L n i = Inr (n\<lparr>data_store := ?ds\<rparr>)"
    using log.read_holds [OF rel(1,3) i(2)] by (simp add: CommitIndex_apply_def ReadSlot_assert_def)
  then have "CommitIndex_one L n i =
      Inr (n\<lparr>data_store := ?ds', sdk_ack_map := acks_after n i 1, last_applied_index := i\<rparr>, answers_at n i)"
    using i(1) by (simp add: CommitIndex_one_def CommitIndex_ack_eq)
  moreover have "content ?ds' tag_last_applied_index = Some (IntToString i)"
    by (simp add: store.put_view)
  ultimately show thesis by (rule_tac that)
qed

lemma commit_loop_rel:
  assumes "commit_ready content lo log m n" and "last_applied_index n = i - 1"
    and "i + int k \<le> int (length log)" and "i + int k \<le> 2147483647"
  obtains ds where "commit_loop L n i (i + int k - 1) =
      Inr (n\<lparr>data_store := ds, sdk_ack_map := acks_after n i k,
             last_applied_index := i + int k - 1\<rparr>, answers_between n i k)"
    and "store_rel content ds (fold apply_spec (take k (drop (nat i) log)) m)"
    and "content ds tag_last_applied_index =
      (if k = 0 then content (data_store n) tag_last_applied_index
       else Some (IntToString (i + int k - 1)))"
  using assms
proof (induction k arbitrary: n i m thesis)
  case 0
  have "commit_loop L n i (i - 1) =
      Inr (n\<lparr>data_store := data_store n, sdk_ack_map := acks_after n i 0,
             last_applied_index := i - 1\<rparr>, answers_between n i 0)"
    using 0(3) by (subst commit_loop.simps) (simp add: answers_between_def)
  then show ?case using 0(1) [of "data_store n"] 0(2) by (simp add: commit_ready_def)
next
  case (Suc k)
  from Suc.prems(4) have lt: "i < int (length log)" by simp
  from Suc.prems(2,3) lt obtain d1 where one: "CommitIndex_one L n i =
      Inr (n\<lparr>data_store := d1, sdk_ack_map := acks_after n i 1, last_applied_index := i\<rparr>, answers_at n i)"
    and d1: "store_rel content d1 (apply_spec (log ! nat i) m)"
      "content d1 tag_last_applied_index = Some (IntToString i)"
    by (rule CommitIndex_one_rel)
  let ?n = "n\<lparr>data_store := d1, sdk_ack_map := acks_after n i 1, last_applied_index := i\<rparr>"
  have ready: "commit_ready content lo log (apply_spec (log ! nat i) m) ?n"
    using Suc.prems(2,3,5) d1 by (simp add: commit_ready_def)
  have "last_applied_index ?n = i + 1 - 1" "i + 1 + int k \<le> int (length log)"
    "i + 1 + int k \<le> 2147483647" using Suc.prems(4,5) by simp_all
  with ready obtain ds where loop: "commit_loop L ?n (i + 1) (i + 1 + int k - 1) =
      Inr (?n\<lparr>data_store := ds, sdk_ack_map := acks_after ?n (i + 1) k,
        last_applied_index := i + 1 + int k - 1\<rparr>, answers_between ?n (i + 1) k)"
    and ds: "store_rel content ds
        (fold apply_spec (take k (drop (nat (i + 1)) log)) (apply_spec (log ! nat i) m))"
      "content ds tag_last_applied_index =
        (if k = 0 then content (data_store ?n) tag_last_applied_index
         else Some (IntToString (i + 1 + int k - 1)))"
    by (rule Suc.IH [rotated])
  have "0 \<le> i" using Suc.prems(2,3) binlog_rel_lo by (fastforce simp: commit_ready_def)
  then have split: "drop (nat i) log = log ! nat i # drop (nat (i + 1)) log"
    using lt by (subst Cons_nth_drop_Suc [symmetric]) (auto simp: nat_add_distrib)
  have acks: "acks_after ?n (i + 1) k = acks_after n i (Suc k)"
    by (auto simp: acks_after_def fun_eq_iff)
  have ans: "answers_at n i @ answers_between ?n (i + 1) k = answers_between n i (Suc k)"
    by (rule answers_between_Suc) (auto simp: acks_after_def)
  have "i + 1 + int k - 1 = i + int (Suc k) - 1" by simp
  then have loop': "commit_loop L ?n (i + 1) (i + int (Suc k) - 1) =
      Inr (n\<lparr>data_store := ds, sdk_ack_map := acks_after n i (Suc k),
        last_applied_index := i + int (Suc k) - 1\<rparr>, answers_between ?n (i + 1) k)"
    using loop unfolding acks by simp
  have "i \<le> i + int (Suc k) - 1" "i \<noteq> 2147483647" using Suc.prems(5) by simp_all
  then have "commit_loop L n i (i + int (Suc k) - 1) =
      Inr (n\<lparr>data_store := ds, sdk_ack_map := acks_after n i (Suc k),
        last_applied_index := i + int (Suc k) - 1\<rparr>, answers_between n i (Suc k))"
    by (subst commit_loop.simps)
      (simp only: one loop' ans [symmetric] bindE_simps if_True if_False prod.case)
  moreover have "content ds tag_last_applied_index = Some (IntToString (i + int (Suc k) - 1))"
    using ds(2) d1(2) by (simp add: algebra_simps split: if_splits)
  ultimately show ?case using ds(1) by (intro Suc.prems(1)) (simp_all add: split)
qed

text \<open>The loop cannot end behind slot 2147483647: its variable would have to be larger.\<close>

lemma commit_loop_overflow: "2147483647 \<le> e \<Longrightarrow> \<exists>f. commit_loop L n 2147483647 e = Inl f"
  by (cases "CommitIndex_one L n 2147483647") (auto simp: commit_loop.simps [of L n 2147483647 e])

text \<open>A round of the thread.\<close>

lemma CommitIndex_rel:
  assumes ready: "commit_ready content lo log m n" and "\<not> stop n"
    and c: "commit_index n < int (length log)" "commit_index n < 2147483647"
  defines "k \<equiv> nat (commit_index n - last_applied_index n)"
  obtains ds where "CommitIndex L n =
      Inr (n\<lparr>data_store := ds, sdk_ack_map := acks_after n (last_applied_index n + 1) k,
             last_applied_index := max (last_applied_index n) (commit_index n)\<rparr>,
           answers_between n (last_applied_index n + 1) k)"
    and "store_rel content ds (fold apply_spec (take k (drop (nat (last_applied_index n + 1)) log)) m)"
    and "content ds tag_last_applied_index =
      (if k = 0 then content (data_store n) tag_last_applied_index
       else Some (IntToString (commit_index n)))"
proof (cases "k = 0")
  case True
  have "CommitIndex L n =
      Inr (n\<lparr>data_store := data_store n, sdk_ack_map := acks_after n (last_applied_index n + 1) k,
             last_applied_index := max (last_applied_index n) (commit_index n)\<rparr>,
           answers_between n (last_applied_index n + 1) k)"
    using True by (simp add: k_def CommitIndex_def answers_between_def max_def)
  then show ?thesis using that [of "data_store n"] ready True by (simp add: commit_ready_def)
next
  case False
  let ?i = "last_applied_index n + 1"
  have k: "?i + int k - 1 = commit_index n" "last_applied_index n < commit_index n"
    using False by (auto simp: k_def)
  have "0 \<le> ?i" using ready binlog_rel_lo by (fastforce simp: commit_ready_def)
  then have "CommitIndex L n = commit_loop L n ?i (?i + int k - 1)"
    using assms(2) k c(2) by (simp add: CommitIndex_def i32_id in_i32_def)
  moreover have "last_applied_index n = ?i - 1" "?i + int k \<le> int (length log)"
    "?i + int k \<le> 2147483647" using k c by simp_all
  ultimately show ?thesis
    using ready k False by (elim commit_loop_rel) (auto intro!: that simp: max_def)
qed

end

section \<open>Replicas\<close>

text \<open>A server whose data store is the applied prefix of its log.\<close>

definition replica_ok ::
  "('db \<Rightarrow> string \<Rightarrow> string option) \<Rightarrow> int \<Rightarrow> binlog_entry list \<Rightarrow> 'db node \<Rightarrow> bool"
where
  "replica_ok content lo log n \<longleftrightarrow>
     commit_ready content lo log
       (fold apply_spec (take (nat (last_applied_index n + 1)) log) (\<lambda>_. None)) n"

definition position_saved :: "('db \<Rightarrow> string \<Rightarrow> string option) \<Rightarrow> 'db node \<Rightarrow> bool" where
  "position_saved content n \<longleftrightarrow>
     content (data_store n) tag_last_applied_index =
       (if last_applied_index n = -1 then None else Some (IntToString (last_applied_index n)))"

lemma fold_apply_take:
  "fold apply_spec (take j (drop i log)) (fold apply_spec (take i log) m) =
     fold apply_spec (take (i + j) log) m"
  by (simp add: take_add)

context leveldb_available
begin

lemma CommitIndex_replica:
  assumes "replica_ok content lo log n" and "\<not> stop n"
    and "commit_index n < int (length log)" "commit_index n < 2147483647"
    and "last_applied_index n \<le> commit_index n"
  obtains n' es where "CommitIndex L n = Inr (n', es)" and "replica_ok content lo log n'"
    and "last_applied_index n' = commit_index n"
    and "store_rel content (data_store n')
      (fold apply_spec (take (nat (commit_index n + 1)) log) (\<lambda>_. None))"
proof -
  let ?a = "last_applied_index n" and ?c = "commit_index n"
  have ready: "commit_ready content lo log (fold apply_spec (take (nat (?a + 1)) log) (\<lambda>_. None)) n"
    using assms(1) by (simp add: replica_ok_def)
  then have "0 \<le> ?a + 1" using binlog_rel_lo by (fastforce simp: commit_ready_def)
  then have k: "nat (?a + 1) + nat (?c - ?a) = nat (?c + 1)" using assms(5) by simp
  obtain ds where run: "CommitIndex L n =
      Inr (n\<lparr>data_store := ds, sdk_ack_map := acks_after n (?a + 1) (nat (?c - ?a)),
             last_applied_index := max ?a ?c\<rparr>, answers_between n (?a + 1) (nat (?c - ?a)))"
    and ds: "store_rel content ds (fold apply_spec (take (nat (?c + 1)) log) (\<lambda>_. None))"
    by (rule CommitIndex_rel [OF ready assms(2-4)]) (simp only: fold_apply_take k)
  show thesis
    by (rule that [OF run])
      (use ds ready assms(5) in \<open>simp_all add: replica_ok_def commit_ready_def max_def\<close>)
qed

end

section \<open>Restarts\<close>

context leveldb_available
begin

text \<open>The constructor takes over the databases and the saved position.\<close>

lemma init_resumes:
  assumes "position_saved content n" and "-1 \<le> last_applied_index n" and "last_applied_index n \<le> 2147483647"
  obtains r es where "AirDBImpl_init L addr members b (data_store n) delay = Inr (r, es)"
    and "last_applied_index r = last_applied_index n" and "binlogger r = b" and "data_store r = data_store n"
    and "\<not> stop r" and "status r = kFollower" and "commit_index r = -1" and "current_term r = 0"
    and "vote_for r = (\<lambda>_. None)"
proof -
  have i: "clamp_i32 (last_applied_index n) = last_applied_index n"
    using assms(2,3) by (simp add: clamp_i32_def)
  have get: "StorageKV_Get L (data_store n) tag_last_applied_index =
      (if last_applied_index n = -1 then (-1, None) else (0, Some (IntToString (last_applied_index n))))"
    using assms(1) by (simp add: get_eq StorageKV_Get_def position_saved_def)
  show thesis
    by (cases "last_applied_index n = -1")
      (use that in \<open>auto simp: AirDBImpl_init_def get StringToInt_IntToString i Let_def\<close>)
qed

lemma crash_reapplies:
  assumes replica: "replica_ok content lo log n" and pos: "position_saved content n" and "\<not> stop n"
    and i: "last_applied_index n = i - 1" "i \<le> commit_index n"
    and c: "commit_index n < int (length log)" and len: "int (length log) \<le> 2147483647"
    and crash: "CommitIndex_apply L n i = Inr n1" and k: "k \<noteq> tag_last_applied_index"
  shows "\<exists>b r es r' es' u esu. BinLogger_open L (bl_db (binlogger n1)) = Inr b \<and>
    AirDBImpl_init L addr members b (data_store n1) delay = Inr (r, es) \<and> last_applied_index r = i - 1 \<and>
    CommitIndex L (r\<lparr>commit_index := commit_index n\<rparr>) = Inr (r', es') \<and> CommitIndex L n = Inr (u, esu) \<and>
    last_applied_index r' = commit_index n \<and> last_applied_index u = commit_index n \<and>
    content (data_store r') k = content (data_store u) k"
proof -
  let ?e = "log ! nat i" and ?m = "fold apply_spec (take (nat i) log) (\<lambda>_. None)"
  let ?all = "fold apply_spec (take (nat (commit_index n + 1)) log) (\<lambda>_. None)"
  have ready: "commit_ready content lo log ?m n" using replica i(1) by (simp add: replica_ok_def)
  have lo: "lo \<le> i" "0 \<le> i" and rel: "binlog_rel content lo (binlogger n) log"
    "store_rel content (data_store n) ?m" "list_all client_entry log"
    using ready i(1) binlog_rel_lo by (fastforce simp: commit_ready_def)+
  have lt: "nat i < length log" "i < int (length log)" using lo(2) i(2) c by auto
  obtain u esu where u: "CommitIndex L n = Inr (u, esu)" "last_applied_index u = commit_index n"
    "store_rel content (data_store u) ?all"
    by (rule CommitIndex_replica [OF replica assms(3) c]) (use i c len in auto)
  have n1: "n1 = n\<lparr>data_store := apply_entry L (data_store n) ?e\<rparr>"
    using crash read_log [OF rel(1) lo(1) lt(2)] by (simp add: CommitIndex_apply_def ReadSlot_assert_def)
  have e: "client_entry ?e" using rel(3) lt(1) by (simp add: list_all_length)
  have store1: "store_rel content (data_store n1) (apply_spec ?e ?m)"
    using apply_entry_rel [OF rel(2) e] by (simp add: n1)
  have pos1: "position_saved content n1"
    using pos apply_entry_tag [OF e] by (simp add: position_saved_def n1)
  have "lo < clamp_i32 (int (length log))" "in_i32 (int (length log))"
    using lo lt(2) len by (auto simp: clamp_i32_def in_i32_def)
  then obtain b where b: "BinLogger_open L (bl_db (binlogger n1)) = Inr b" "binlog_rel content lo b log"
    using BinLogger_open_holds [OF rel(1)] by (auto simp: n1)
  obtain r es where r: "AirDBImpl_init L addr members b (data_store n1) delay = Inr (r, es)"
    "last_applied_index r = i - 1" "binlogger r = b" "data_store r = data_store n1" "\<not> stop r"
    by (rule init_resumes [OF pos1, of addr members b delay]) (use i lo lt len in \<open>auto simp: n1\<close>)
  let ?r = "r\<lparr>commit_index := commit_index n\<rparr>"
  have "commit_ready content lo log (apply_spec ?e ?m) ?r"
    using store1 b(2) lo rel(3) r by (simp add: commit_ready_def)
  then obtain ds es' where run: "CommitIndex L ?r = Inr (?r\<lparr>data_store := ds,
      sdk_ack_map := acks_after ?r (last_applied_index ?r + 1) (nat (commit_index ?r - last_applied_index ?r)),
      last_applied_index := max (last_applied_index ?r) (commit_index ?r)\<rparr>, es')"
    and ds: "store_rel content ds (fold apply_spec
      (take (nat (commit_index ?r - last_applied_index ?r)) (drop (nat (last_applied_index ?r + 1)) log)) (apply_spec ?e ?m))"
    by (rule CommitIndex_rel) (use r c len in auto)
  have "nat (commit_index n - (i - 1)) = Suc (nat (commit_index n - i))" using i(2) by simp
  then have twice: "fold apply_spec (take (nat (commit_index n - (i - 1))) (drop (nat i) log)) (apply_spec ?e ?m) =
      fold apply_spec (take (nat (commit_index n - (i - 1))) (drop (nat i) log)) ?m"
    using lt(1) by (simp add: Cons_nth_drop_Suc [symmetric])
  have "nat i + nat (commit_index n - (i - 1)) = nat (commit_index n + 1)" using lo(2) i(2) by simp
  then have "store_rel content ds ?all"
    using ds unfolding twice [symmetric] by (simp add: r(2) twice fold_apply_take)
  then have "content ds k = content (data_store u) k" using store_rel_key [OF _ k] u(3) by metis
  moreover have "max (i - 1) (commit_index n) = commit_index n" using i(2) by simp
  ultimately show ?thesis using b(1) r(1,2) run u(1,2) by fastforce
qed

end

section \<open>Samples\<close>

definition sample_client_log :: "binlog_entry list" where
  "sample_client_log = [sample_entry]"

definition sample_replica :: "mem_db node" where
  "sample_replica = sample_node ''a'' [''a'', ''b''] sample_client_log\<lparr>commit_index := 0\<rparr>"

lemma sample_replica_ok: "replica_ok map_of 0 sample_client_log sample_replica"
  using mem_binlog_rel [of sample_client_log]
  by (simp add: replica_ok_def commit_ready_def sample_replica_def store_rel_def client_entry_def
      sample_client_log_def sample_entry_def tag_last_applied_index_def entry_ok_def entry_size_def
      in_i32_def in_i64_def)

lemma sample_client_log_simps [simp]: "length sample_client_log = 1" "sample_client_log ! 0 = sample_entry"
  by (simp_all add: sample_client_log_def)

section \<open>Properties\<close>

text \<open>
  C13: A round of the commit thread applies exactly the committed entries that were not applied,
  in the order of the log: the data store becomes the fold of \<open>apply_spec\<close> over them, the calls
  that wait at these slots are answered in order (on a leader) and forgotten, every other call
  keeps waiting, and the position in the data store is the new one.
\<close>

theorem commit_index_refines:
  assumes "leveldb_available L content" and "commit_ready content lo log m n" and "\<not> stop n"
    and "commit_index n < int (length log)" and "commit_index n < 2147483647"
  defines "a \<equiv> last_applied_index n" and "k \<equiv> nat (commit_index n - last_applied_index n)"
  shows "\<exists>n'. CommitIndex L n = Inr (n', answers_between n (a + 1) k) \<and>
    store_rel content (data_store n') (fold apply_spec (take k (drop (nat (a + 1)) log)) m) \<and>
    last_applied_index n' = max a (commit_index n) \<and> binlogger n' = binlogger n \<and>
    sdk_ack_map n' = (\<lambda>j. if status n = kLeader \<and> a < j \<and> j \<le> commit_index n then None
                          else sdk_ack_map n j) \<and>
    (a < commit_index n \<longrightarrow>
       content (data_store n') tag_last_applied_index = Some (IntToString (commit_index n)))"
proof -
  have acks: "acks_after n (a + 1) k = (\<lambda>j. if status n = kLeader \<and> a < j \<and> j \<le> commit_index n
      then None else sdk_ack_map n j)"
    by (auto simp: acks_after_def fun_eq_iff a_def k_def)
  show ?thesis
    by (rule leveldb_available.CommitIndex_rel [OF assms(1-5)])
      (simp add: acks [unfolded a_def k_def] a_def k_def)
qed

theorem commit_index_refines_witness:
  "\<exists>n'. CommitIndex mem_leveldb sample_replica = Inr (n', answers_between sample_replica 0 1) \<and>
     last_applied_index n' = 0"
  using commit_index_refines [OF mem.leveldb_available_axioms sample_replica_ok [unfolded replica_ok_def]]
  by (auto simp: sample_replica_def)

text \<open>
  C14: Servers whose logs agree up to a slot agree on every client's key once the commit thread of
  each has run with that slot, below 2147483647, as the commit index, whatever each had
  applied before and from whatever slot on each keeps its log; both stay the applied prefix of their logs.
\<close>

theorem replicas_agree:
  assumes "leveldb_available L content" and "replica_ok content lo1 log1 n1"
    and "replica_ok content lo2 log2 n2" and "\<not> stop n1" and "\<not> stop n2"
    and "commit_index n1 = c" and "commit_index n2 = c"
    and "c < int (length log1)" and "c < int (length log2)" and "c < 2147483647"
    and "last_applied_index n1 \<le> c" and "last_applied_index n2 \<le> c"
    and "take (nat (c + 1)) log1 = take (nat (c + 1)) log2" and "k \<noteq> tag_last_applied_index"
  shows "\<exists>n1' es1 n2' es2. CommitIndex L n1 = Inr (n1', es1) \<and> CommitIndex L n2 = Inr (n2', es2) \<and>
    replica_ok content lo1 log1 n1' \<and> replica_ok content lo2 log2 n2' \<and>
    last_applied_index n1' = c \<and> last_applied_index n2' = c \<and>
    content (data_store n1') k = content (data_store n2') k"
proof -
  let ?m = "fold apply_spec (take (nat (c + 1)) log1) (\<lambda>_. None)"
  obtain n1' es1 where n1: "CommitIndex L n1 = Inr (n1', es1)" "replica_ok content lo1 log1 n1'"
    "last_applied_index n1' = c" "store_rel content (data_store n1') ?m"
    using assms by (rule_tac leveldb_available.CommitIndex_replica [of L content lo1 log1 n1]) auto
  obtain n2' es2 where n2: "CommitIndex L n2 = Inr (n2', es2)" "replica_ok content lo2 log2 n2'"
    "last_applied_index n2' = c" "store_rel content (data_store n2') ?m"
    using assms by (rule_tac leveldb_available.CommitIndex_replica [of L content lo2 log2 n2]) auto
  show ?thesis
    using n1 n2 store_rel_key [OF n1(4) assms(14)] store_rel_key [OF n2(4) assms(14)] by auto
qed

theorem replicas_agree_witness:
  "\<exists>n1 es1 n2 es2. CommitIndex mem_leveldb sample_replica = Inr (n1, es1) \<and>
     CommitIndex mem_leveldb (sample_replica\<lparr>self_addr := ''b'', status := kLeader\<rparr>) = Inr (n2, es2) \<and>
     map_of (data_store n1) ''k'' = map_of (data_store n2) ''k'' \<and> last_applied_index n2 = 0"
proof -
  let ?b = "sample_replica\<lparr>self_addr := ''b'', status := kLeader\<rparr>"
  have b: "replica_ok map_of 0 sample_client_log ?b"
    using sample_replica_ok by (simp add: replica_ok_def commit_ready_def)
  have pre: "\<not> stop sample_replica" "\<not> stop ?b" "commit_index sample_replica = 0" "commit_index ?b = 0"
    "0 < int (length sample_client_log)" "0 < (2147483647::int)" "last_applied_index sample_replica \<le> 0"
    "last_applied_index ?b \<le> 0" "''k'' \<noteq> tag_last_applied_index"
    by (simp_all add: sample_replica_def tag_last_applied_index_def)
  from replicas_agree [OF mem.leveldb_available_axioms sample_replica_ok b pre(1-5) pre(5-8) refl pre(9)]
  show ?thesis by blast
qed

text \<open>
  C22: A server restarted on its databases resumes at the position it had saved, and its data
  store is again the applied prefix of its log; its term, its votes and its commit index are
  back at their initial values.
\<close>

theorem restart_resumes:
  assumes "leveldb_available L content" and "replica_ok content lo log n"
    and "position_saved content n" and "last_applied_index n \<le> 2147483647"
    and "binlog_rel content lo b log"
  shows "\<exists>n' es. AirDBImpl_init L addr members b (data_store n) delay = Inr (n', es) \<and>
    last_applied_index n' = last_applied_index n \<and> replica_ok content lo log n' \<and>
    position_saved content n' \<and> status n' = kFollower \<and> commit_index n' = -1 \<and>
    current_term n' = 0 \<and> vote_for n' = (\<lambda>_. None)"
proof -
  have ready: "commit_ready content lo log
      (fold apply_spec (take (nat (last_applied_index n + 1)) log) (\<lambda>_. None)) n"
    using assms(2) by (simp add: replica_ok_def)
  then have "-1 \<le> last_applied_index n" using binlog_rel_lo by (fastforce simp: commit_ready_def)
  then obtain r es where "AirDBImpl_init L addr members b (data_store n) delay = Inr (r, es)"
    "last_applied_index r = last_applied_index n" "binlogger r = b" "data_store r = data_store n"
    "status r = kFollower" "commit_index r = -1" "current_term r = 0" "vote_for r = (\<lambda>_. None)"
    by (rule leveldb_available.init_resumes [OF assms(1,3) _ assms(4), of addr members b delay]) blast
  then show ?thesis
    using ready assms(3,5)
    by (intro exI [of _ r] exI [of _ es]) (simp add: replica_ok_def commit_ready_def position_saved_def)
qed

theorem restart_resumes_witness:
  "\<exists>n' es. AirDBImpl_init mem_leveldb ''a'' [''a''] (mem_binlog sample_client_log)
     (data_store sample_replica) 0 = Inr (n', es) \<and> last_applied_index n' = -1"
proof -
  have "binlog_rel map_of 0 (mem_binlog sample_client_log) sample_client_log"
    using sample_replica_ok by (simp add: replica_ok_def commit_ready_def sample_replica_def)
  moreover have "position_saved map_of sample_replica" "last_applied_index sample_replica = -1"
    by (simp_all add: position_saved_def sample_replica_def)
  ultimately show ?thesis
    using restart_resumes [OF mem.leveldb_available_axioms sample_replica_ok, of "mem_binlog sample_client_log" "''a''" "[''a'']" 0]
    by auto
qed

text \<open>
  C23: A crash after an entry is applied and before its position is saved does no harm. The server
  is started again on its two databases, as the crash left them: it resumes at the saved position,
  before the entry, and once it is told again what is committed its commit thread, which applies
  the entry a second time, ends at the same position and gives every key of a client the value that
  the run without the crash gives. The log has at most 2147483647 entries, so that the commit
  thread's slot does not overflow.
\<close>

theorem reapply_harmless:
  assumes "leveldb_available L content" and "replica_ok content lo log n"
    and "position_saved content n" and "\<not> stop n"
    and "last_applied_index n = i - 1" and "i \<le> commit_index n" and "commit_index n < int (length log)"
    and "int (length log) \<le> 2147483647"
    and "CommitIndex_apply L n i = Inr n1" and "k \<noteq> tag_last_applied_index"
  shows "\<exists>b r es r' es' u esu. BinLogger_open L (bl_db (binlogger n1)) = Inr b \<and>
    AirDBImpl_init L addr members b (data_store n1) delay = Inr (r, es) \<and> last_applied_index r = i - 1 \<and>
    CommitIndex L (r\<lparr>commit_index := commit_index n\<rparr>) = Inr (r', es') \<and> CommitIndex L n = Inr (u, esu) \<and>
    last_applied_index r' = commit_index n \<and> last_applied_index u = commit_index n \<and>
    content (data_store r') k = content (data_store u) k"
  using leveldb_available.crash_reapplies [OF assms] by blast

theorem reapply_harmless_witness:
  "\<exists>n1 b r es r' es'. CommitIndex_apply mem_leveldb sample_replica 0 = Inr n1 \<and>
     BinLogger_open mem_leveldb (bl_db (binlogger n1)) = Inr b \<and>
     AirDBImpl_init mem_leveldb ''a'' [''a'', ''b''] b (data_store n1) 0 = Inr (r, es) \<and>
     CommitIndex mem_leveldb (r\<lparr>commit_index := 0\<rparr>) = Inr (r', es') \<and> last_applied_index r' = 0"
proof -
  note ready = sample_replica_ok [unfolded replica_ok_def]
  obtain n1 where n1: "CommitIndex_apply mem_leveldb sample_replica 0 = Inr n1"
    using mem.read_log [of 0 "binlogger sample_replica" sample_client_log 0] ready
    by (auto simp: CommitIndex_apply_def ReadSlot_assert_def commit_ready_def)
  have n: "position_saved map_of sample_replica" "\<not> stop sample_replica"
    "last_applied_index sample_replica = 0 - 1" "0 \<le> commit_index sample_replica"
    "commit_index sample_replica < int (length sample_client_log)" "int (length sample_client_log) \<le> 2147483647"
    "''k'' \<noteq> tag_last_applied_index" "commit_index sample_replica = 0"
    by (simp_all add: sample_replica_def tag_last_applied_index_def position_saved_def)
  from reapply_harmless [OF mem.leveldb_available_axioms sample_replica_ok n(1-6) n1 n(7), of "''a''" "[''a'', ''b'']" 0]
  show ?thesis unfolding n(8) using n1 by blast
qed

end
