(* ===== verification/ClientSpec.thy ===== *)
theory ClientSpec
  imports ApplySpec
begin

text \<open>
  The calls of clients from the request to the answer, on one server: a writing call of a leader
  appends one entry to the log and waits; when the entry is committed, \<open>CommitIndex\<close> applies it
  and answers the call; \<open>Get\<close> reads the data store. A restart resumes where the data store says.
\<close>

section \<open>Writing calls\<close>

text \<open>What a leader's writing call leaves behind, for each of the four operations.\<close>

definition call_entry :: "'db node \<Rightarrow> binlog_op \<Rightarrow> string \<Rightarrow> string \<Rightarrow> binlog_entry" where
  "call_entry n x k v = \<lparr>be_op = x, be_key = k, be_value = v, be_term = current_term n\<rparr>"

definition call_logged ::
  "('db \<Rightarrow> string \<Rightarrow> string option) \<Rightarrow> int \<Rightarrow> binlog_entry list \<Rightarrow> binlog_entry \<Rightarrow>
     (sdk_ack \<Rightarrow> sdk_ack) \<Rightarrow> 'db node \<Rightarrow> 'db node \<Rightarrow> bool"
where
  "call_logged content lo log e set_ack n n' \<longleftrightarrow>
     binlog_rel content lo (binlogger n') (log @ [e]) \<and>
     n' = n\<lparr>binlogger := binlogger n',
            sdk_ack_map := (sdk_ack_map n)(int (length log) :=
              Some (set_ack (at_default empty_ack (sdk_ack_map n) (int (length log)))))\<rparr>"

context leveldb_available
begin

lemma write_and_wait_rel:
  assumes "binlog_rel content lo (binlogger n) log" and "entry_ok e"
  obtains n' where "write_and_wait L n e set_ack = Inr (n', [BroadcastReplica])"
    and "call_logged content lo log e set_ack n n'"
proof -
  obtain b where w: "WriteEntry L (binlogger n) e = Inr b" and b: "binlog_rel content lo b (log @ [e])"
    using log.write_one_holds [OF assms] by auto
  then have "log_length (n\<lparr>binlogger := b\<rparr>) - 1 = int (length log)"
    by (simp add: log_length_def log.len_holds)
  then show thesis
    using that w b by (simp add: write_and_wait_def call_logged_def Let_def)
qed

lemma leader_calls:
  assumes lead: "status n = kLeader" and rel: "binlog_rel content lo (binlogger n) log"
    and ok: "entry_ok (call_entry n kLockOp k v)"
  shows "\<exists>n'. Put L n c k v = Inr (Inr (n', [BroadcastReplica])) \<and>
      call_logged content lo log (call_entry n kPutOp k v) (\<lambda>a. a\<lparr>ack_done := Some c, put_res := Some c\<rparr>) n n'"
    and "\<exists>n'. Delete L n c k = Inr (Inr (n', [BroadcastReplica])) \<and>
      call_logged content lo log (call_entry n kDeleteOp k []) (\<lambda>a. a\<lparr>ack_done := Some c, del_res := Some c\<rparr>) n n'"
    and "v = k \<Longrightarrow> \<exists>n'. Lock L n c k = Inr (Inr (n', [BroadcastReplica])) \<and>
      call_logged content lo log (call_entry n kLockOp k k) (\<lambda>a. a\<lparr>ack_done := Some c, lock_res := Some c\<rparr>) n n'"
    and "v = k \<Longrightarrow> \<exists>n'. UnLock L n c k = Inr (Inr (n', [BroadcastReplica])) \<and>
      call_logged content lo log (call_entry n kLockOp k k) (\<lambda>a. a\<lparr>ack_done := Some c, unlock_res := Some c\<rparr>) n n'"
proof -
  have ok': "entry_ok (call_entry n kPutOp k v)" "entry_ok (call_entry n kDeleteOp k [])"
    using ok by (auto simp: entry_ok_def call_entry_def entry_size_def in_i32_def)
  note run = write_and_wait_rel [OF rel]
  note defs = not_leader_reply_def call_entry_def [symmetric] lead
  show "\<exists>n'. Put L n c k v = Inr (Inr (n', [BroadcastReplica])) \<and>
      call_logged content lo log (call_entry n kPutOp k v) (\<lambda>a. a\<lparr>ack_done := Some c, put_res := Some c\<rparr>) n n'"
    by (rule run [OF ok'(1)]) (auto simp: Put_def defs)
  show "\<exists>n'. Delete L n c k = Inr (Inr (n', [BroadcastReplica])) \<and>
      call_logged content lo log (call_entry n kDeleteOp k []) (\<lambda>a. a\<lparr>ack_done := Some c, del_res := Some c\<rparr>) n n'"
    by (rule run [OF ok'(2)]) (auto simp: Delete_def defs)
  show "\<exists>n'. Lock L n c k = Inr (Inr (n', [BroadcastReplica])) \<and>
      call_logged content lo log (call_entry n kLockOp k k) (\<lambda>a. a\<lparr>ack_done := Some c, lock_res := Some c\<rparr>) n n'"
    if "v = k"
    by (rule run [OF ok [unfolded that]]) (auto simp: Lock_def defs)
  show "\<exists>n'. UnLock L n c k = Inr (Inr (n', [BroadcastReplica])) \<and>
      call_logged content lo log (call_entry n kLockOp k k) (\<lambda>a. a\<lparr>ack_done := Some c, unlock_res := Some c\<rparr>) n n'"
    if "v = k"
    by (rule run [OF ok [unfolded that]]) (auto simp: UnLock_def defs)
qed

section \<open>From the request to the answer\<close>

text \<open>The state in which the entry just logged is the last committed one.\<close>

lemma logged_then_committed:
  assumes ready: "commit_ready content lo log m n" and run: "\<not> stop n"
    and logged: "call_logged content lo log e set_ack n n'" and e: "client_entry e"
    and len: "last_applied_index n < int (length log)" "length log < 2147483647"
  obtains n'' es where
    "CommitIndex L (n'\<lparr>commit_index := int (length log)\<rparr>) = Inr (n'', es)"
    and "store_rel content (data_store n'')
      (apply_spec e (fold apply_spec (drop (nat (last_applied_index n + 1)) log) m))"
    and "last_applied_index n'' = int (length log)" and "status n'' = status n"
    and "self_addr n'' = self_addr n" and "stop n'' = stop n" and "binlogger n'' = binlogger n'"
    and "content (data_store n'') tag_last_applied_index = Some (IntToString (int (length log)))"
    and "status n = kLeader \<Longrightarrow>
      set (ack_effects (cur_leader_addr n)
        (set_ack (at_default empty_ack (sdk_ack_map n) (int (length log))))) \<subseteq> set es"
proof -
  let ?n = "n'\<lparr>commit_index := int (length log)\<rparr>" and ?log = "log @ [e]"
  let ?i = "last_applied_index n + 1"
  define k where "k = nat (int (length log) - last_applied_index n)"
  have n': "binlog_rel content lo (binlogger n') ?log"
    and eq: "n' = n\<lparr>binlogger := binlogger n', sdk_ack_map := (sdk_ack_map n)(int (length log) :=
      Some (set_ack (at_default empty_ack (sdk_ack_map n) (int (length log)))))\<rparr>"
    using logged by (auto simp: call_logged_def)
  have fields: "status n' = status n" "stop n' = stop n" "self_addr n' = self_addr n"
    "last_applied_index n' = last_applied_index n" "cur_leader_addr n' = cur_leader_addr n"
    "data_store n' = data_store n"
    "sdk_ack_map n' (int (length log)) =
      Some (set_ack (at_default empty_ack (sdk_ack_map n) (int (length log))))"
    by (subst eq; simp)+
  have lo: "0 \<le> ?i" using ready binlog_rel_lo by (fastforce simp: commit_ready_def)
  have ready': "commit_ready content lo ?log m ?n"
    using ready n' e by (simp add: commit_ready_def fields)
  obtain ds where c: "CommitIndex L ?n = Inr (?n\<lparr>data_store := ds,
      sdk_ack_map := acks_after ?n ?i k,
      last_applied_index := max (last_applied_index n) (int (length log))\<rparr>, answers_between ?n ?i k)"
    and ds: "store_rel content ds (fold apply_spec (take k (drop (nat ?i) ?log)) m)"
      "content ds tag_last_applied_index =
        (if k = 0 then content (data_store ?n) tag_last_applied_index
         else Some (IntToString (int (length log))))"
    by (rule CommitIndex_rel [OF ready'])
      (use run len in \<open>simp_all add: fields k_def\<close>)
  have k: "k \<noteq> 0" "take k (drop (nat ?i) ?log) = drop (nat ?i) log @ [e]"
    using len(1) lo by (auto simp: k_def nat_diff_distrib nat_add_distrib)
  have ans: "set (answers_at ?n (int (length log))) \<subseteq> set (answers_between ?n ?i k)"
  proof -
    have "int (length log) = ?i + int (k - 1)" "k - 1 < k" using len(1) by (auto simp: k_def)
    then show ?thesis using answers_at_between [of "k - 1" k ?n ?i] by simp
  qed
  show thesis
  proof (rule that [OF c])
    show "set (ack_effects (cur_leader_addr n)
        (set_ack (at_default empty_ack (sdk_ack_map n) (int (length log)))))
      \<subseteq> set (answers_between ?n ?i k)" if "status n = kLeader"
      using ans that by (simp add: answers_at_def fields)
  qed (use ds [unfolded k(2)] k(1) len in \<open>simp_all add: fields\<close>)
qed

lemma Get_rel:
  assumes "store_rel content (data_store n) m" and "status n = kLeader"
    and "k \<noteq> tag_last_applied_index"
  shows "Get L n k = Inr (case m k of None \<Rightarrow> None
    | Some (x, v) \<Rightarrow> Some
        \<lparr>gr_hit = (x = kPutOp), gr_success = (x = kPutOp),
         gr_value = (if x = kPutOp then v else []), gr_leader_id = self_addr n\<rparr>)"
proof (cases "m k")
  case None
  then show ?thesis
    using assms by (simp add: Get_def store.get_view store_rel_key)
next
  case (Some p)
  obtain x v where p: "p = (x, v)" by fastforce
  with Some assms(1) have "x \<in> {kPutOp, kLockOp}" by (auto simp: store_rel_def)
  then show ?thesis
    using Some p assms
    by (auto simp: Get_def store.get_view store_rel_key ParseValue_type_and_value)
qed

end

section \<open>Samples\<close>

definition sample_leader :: "mem_db node" where
  "sample_leader = sample_node ''a'' [''a''] []\<lparr>status := kLeader, current_term := 1\<rparr>"

lemma sample_leader_simps [simp]:
  "status sample_leader = kLeader" "stop sample_leader = False" "current_term sample_leader = 1"
  "last_applied_index sample_leader = -1" "self_addr sample_leader = ''a''"
  by (simp_all add: sample_leader_def)

lemma sample_leader_ready: "commit_ready map_of 0 [] (\<lambda>_. None) sample_leader"
  using mem_binlog_rel [of "[]"] by (simp add: commit_ready_def sample_leader_def store_rel_def)

lemma sample_key: "''k'' \<noteq> tag_last_applied_index"
  by (simp add: tag_last_applied_index_def)

lemma sample_call_ok: "entry_ok (call_entry sample_leader kLockOp ''k'' ''k'')"
  "entry_ok (call_entry sample_leader kLockOp ''k'' ''v'')"
  by (simp_all add: call_entry_def entry_ok_def entry_size_def in_i32_def in_i64_def)

section \<open>Properties\<close>

text \<open>The state in which everything the server has logged is committed.\<close>

definition all_committed :: "'db node \<Rightarrow> 'db node" where
  "all_committed n = n\<lparr>commit_index := log_length n - 1\<rparr>"

lemma all_committed_logged:
  assumes "call_logged content lo log e set_ack n n'"
  shows "all_committed n' = n'\<lparr>commit_index := int (length log)\<rparr>"
proof -
  have "binlog_rel content lo (binlogger n') (log @ [e])"
    using assms unfolding call_logged_def by blast
  then show ?thesis
    by (simp add: all_committed_def log_length_def GetLength_def binlog_rel_length)
qed

text \<open>
  A \<open>Put\<close> that a leader accepts waits; once its entry is committed the call is answered with
  success, and from then on a \<open>Get\<close> of the key on this leader answers with the value.
\<close>

lemma put_commit_get:
  assumes L: "leveldb_available L content" and ready: "commit_ready content lo log m n"
    and lead: "status n = kLeader" "\<not> stop n"
    and len: "last_applied_index n < int (length log)" "length log < 2147483647"
    and ok: "entry_ok (call_entry n kLockOp k v)" and k: "k \<noteq> tag_last_applied_index"
  shows "\<exists>n1 n2 es. Put L n c k v = Inr (Inr (n1, [BroadcastReplica])) \<and>
    CommitIndex L (all_committed n1) = Inr (n2, es) \<and>
    {SetSuccess c, RunDone (Some c)} \<subseteq> set es \<and>
    Get L n2 k = Inr (Some \<lparr>gr_hit = True, gr_success = True, gr_value = v, gr_leader_id = self_addr n\<rparr>)"
proof -
  have rel: "binlog_rel content lo (binlogger n) log" using ready by (simp add: commit_ready_def)
  obtain n1 where put: "Put L n c k v = Inr (Inr (n1, [BroadcastReplica]))"
    and logged: "call_logged content lo log (call_entry n kPutOp k v)
      (\<lambda>a. a\<lparr>ack_done := Some c, put_res := Some c\<rparr>) n n1"
    using leveldb_available.leader_calls(1) [OF L lead(1) rel ok] by blast
  have e: "client_entry (call_entry n kPutOp k v)" using k by (simp add: client_entry_def call_entry_def)
  obtain n2 es where commit: "CommitIndex L (all_committed n1) = Inr (n2, es)"
    and store: "store_rel content (data_store n2) (apply_spec (call_entry n kPutOp k v)
      (fold apply_spec (drop (nat (last_applied_index n + 1)) log) m))"
    and n2: "status n2 = status n" "self_addr n2 = self_addr n"
    and ack: "status n = kLeader \<Longrightarrow> {SetSuccess c, RunDone (Some c)} \<subseteq> set es"
    unfolding all_committed_logged [OF logged]
    by (rule leveldb_available.logged_then_committed [OF L ready lead(2) logged e len])
      (auto simp: ack_effects_def)
  have "Get L n2 k = Inr (Some \<lparr>gr_hit = True, gr_success = True, gr_value = v, gr_leader_id = self_addr n\<rparr>)"
    using leveldb_available.Get_rel [OF L store _ k] n2 lead
    by (simp add: apply_spec_def call_entry_def)
  with put commit ack lead show ?thesis by blast
qed

text \<open>
  A \<open>Delete\<close> that a leader accepts is answered with success once its entry is committed, and
  the key is gone; a \<open>Get\<close> of it then returns without an answer, since the handler of a missing
  key does not run the closure.
\<close>

lemma delete_commit_get:
  assumes L: "leveldb_available L content" and ready: "commit_ready content lo log m n"
    and lead: "status n = kLeader" "\<not> stop n"
    and len: "last_applied_index n < int (length log)" "length log < 2147483647"
    and ok: "entry_ok (call_entry n kLockOp k v)" and k: "k \<noteq> tag_last_applied_index"
  shows "\<exists>n1 n2 es. Delete L n c k = Inr (Inr (n1, [BroadcastReplica])) \<and>
    CommitIndex L (all_committed n1) = Inr (n2, es) \<and>
    {SetSuccess c, SetLeaderId c (cur_leader_addr n), RunDone (Some c)} \<subseteq> set es \<and>
    content (data_store n2) k = None \<and> Get L n2 k = Inr None"
proof -
  have rel: "binlog_rel content lo (binlogger n) log" using ready by (simp add: commit_ready_def)
  obtain n1 where del: "Delete L n c k = Inr (Inr (n1, [BroadcastReplica]))"
    and logged: "call_logged content lo log (call_entry n kDeleteOp k [])
      (\<lambda>a. a\<lparr>ack_done := Some c, del_res := Some c\<rparr>) n n1"
    using leveldb_available.leader_calls(2) [OF L lead(1) rel ok] by blast
  have e: "client_entry (call_entry n kDeleteOp k [])" using k by (simp add: client_entry_def call_entry_def)
  obtain n2 es where commit: "CommitIndex L (all_committed n1) = Inr (n2, es)"
    and store: "store_rel content (data_store n2) (apply_spec (call_entry n kDeleteOp k [])
      (fold apply_spec (drop (nat (last_applied_index n + 1)) log) m))"
    and n2: "status n2 = status n"
    and ack: "status n = kLeader \<Longrightarrow>
      {SetSuccess c, SetLeaderId c (cur_leader_addr n), RunDone (Some c)} \<subseteq> set es"
    unfolding all_committed_logged [OF logged]
    by (rule leveldb_available.logged_then_committed [OF L ready lead(2) logged e len])
      (auto simp: ack_effects_def)
  have "Get L n2 k = Inr None" "content (data_store n2) k = None"
    using leveldb_available.Get_rel [OF L store _ k] store_rel_key [OF store k] n2 lead
    by (simp_all add: apply_spec_def call_entry_def)
  with del commit ack lead show ?thesis by blast
qed

text \<open>
  An \<open>UnLock\<close> that succeeds leaves the key locked: the entry it writes has the operation of
  \<open>Lock\<close>, so committing it stores the lock again and a \<open>Get\<close> of the key still finds a lock.
\<close>

lemma unlock_keeps_lock:
  assumes L: "leveldb_available L content" and ready: "commit_ready content lo log m n"
    and lead: "status n = kLeader" "\<not> stop n"
    and len: "last_applied_index n < int (length log)" "length log < 2147483647"
    and ok: "entry_ok (call_entry n kLockOp k k)" and k: "k \<noteq> tag_last_applied_index"
  shows "\<exists>n1 n2 es. UnLock L n c k = Inr (Inr (n1, [BroadcastReplica])) \<and>
    CommitIndex L (all_committed n1) = Inr (n2, es) \<and> {SetSuccess c, RunDone (Some c)} \<subseteq> set es \<and>
    content (data_store n2) k = Some (type_and_value kLockOp k)"
proof -
  have rel: "binlog_rel content lo (binlogger n) log" using ready by (simp add: commit_ready_def)
  obtain n1 where unlock: "UnLock L n c k = Inr (Inr (n1, [BroadcastReplica]))"
    and logged: "call_logged content lo log (call_entry n kLockOp k k)
      (\<lambda>a. a\<lparr>ack_done := Some c, unlock_res := Some c\<rparr>) n n1"
    using leveldb_available.leader_calls(4) [OF L lead(1) rel ok] by blast
  have e: "client_entry (call_entry n kLockOp k k)" using k by (simp add: client_entry_def call_entry_def)
  obtain n2 es where commit: "CommitIndex L (all_committed n1) = Inr (n2, es)"
    and store: "store_rel content (data_store n2) (apply_spec (call_entry n kLockOp k k)
      (fold apply_spec (drop (nat (last_applied_index n + 1)) log) m))"
    and ack: "status n = kLeader \<Longrightarrow> {SetSuccess c, RunDone (Some c)} \<subseteq> set es"
    unfolding all_committed_logged [OF logged]
    by (rule leveldb_available.logged_then_committed [OF L ready lead(2) logged e len])
      (auto simp: ack_effects_def)
  have "content (data_store n2) k = Some (type_and_value kLockOp k)"
    using store_rel_key [OF store k] by (simp add: apply_spec_def call_entry_def)
  with unlock commit ack lead show ?thesis by blast
qed

text \<open>
  \<open>Lock\<close> does not look at the lock: on a key whose lock is already stored, another call is
  answered with success as well once its entry is committed.
\<close>

lemma lock_ignores_holder:
  assumes L: "leveldb_available L content" and ready: "commit_ready content lo log m n"
    and held: "content (data_store n) k = Some (type_and_value kLockOp k)"
    and lead: "status n = kLeader" "\<not> stop n"
    and len: "last_applied_index n < int (length log)" "length log < 2147483647"
    and ok: "entry_ok (call_entry n kLockOp k k)" and k: "k \<noteq> tag_last_applied_index"
  shows "\<exists>n1 n2 es. Lock L n c k = Inr (Inr (n1, [BroadcastReplica])) \<and>
    content (data_store n1) k = Some (type_and_value kLockOp k) \<and>
    CommitIndex L (all_committed n1) = Inr (n2, es) \<and> {SetSuccess c, RunDone (Some c)} \<subseteq> set es"
proof -
  have rel: "binlog_rel content lo (binlogger n) log" using ready by (simp add: commit_ready_def)
  obtain n1 where lock: "Lock L n c k = Inr (Inr (n1, [BroadcastReplica]))"
    and logged: "call_logged content lo log (call_entry n kLockOp k k)
      (\<lambda>a. a\<lparr>ack_done := Some c, lock_res := Some c\<rparr>) n n1"
    using leveldb_available.leader_calls(3) [OF L lead(1) rel ok] by blast
  have "data_store n1 = data_store n" using logged unfolding call_logged_def by (elim conjE ssubst) simp
  moreover have e: "client_entry (call_entry n kLockOp k k)"
    using k by (simp add: client_entry_def call_entry_def)
  obtain n2 es where "CommitIndex L (all_committed n1) = Inr (n2, es)"
    and "status n = kLeader \<Longrightarrow> {SetSuccess c, RunDone (Some c)} \<subseteq> set es"
    unfolding all_committed_logged [OF logged]
    by (rule leveldb_available.logged_then_committed [OF L ready lead(2) logged e len])
      (auto simp: ack_effects_def)
  ultimately show ?thesis using lock held lead(1) by auto
qed

text \<open>
  A server that does not lead changes nothing and answers every client call at once with a
  failure; a follower names the leader it knows, in every answer that has room for it.
\<close>

lemma not_leader_refuses:
  assumes "status n \<in> {kFollower, kCandidate}"
  defines "hint \<equiv> (if status n = kFollower then cur_leader_addr n else [])"
  shows "Put L n c k v = Inr (Inl \<lparr>rp_success = False, rp_leader_id = []\<rparr>) \<and>
    Delete L n c k = Inr (Inl \<lparr>rp_success = False, rp_leader_id = hint\<rparr>) \<and>
    Lock L n c k = Inr (Inl \<lparr>rp_success = False, rp_leader_id = hint\<rparr>) \<and>
    UnLock L n c k = Inr (Inl \<lparr>rp_success = False, rp_leader_id = hint\<rparr>) \<and>
    Get L n k = Inr (Some \<lparr>gr_hit = False, gr_success = False, gr_value = [],
      gr_leader_id = cur_leader_addr n\<rparr>)"
  using assms(1)
  by (auto simp: Put_def Delete_def Lock_def UnLock_def Get_def not_leader_reply_def hint_def)

end
