(* ===== verification/Timing.thy ===== *)
theory Timing
  imports Codec "HOL-Library.Signed_Division"
begin

text \<open>
  The clock and the waits: \<open>common/timer.h\<close> and \<open>CondVar::TimeWait\<close> of \<open>common/mutex.h\<close>. What
  the system returns (\<open>gettimeofday\<close>, \<open>localtime_r\<close>) is an argument. C++ divides integers towards
  zero, which is \<open>sdiv\<close> and \<open>smod\<close>.
\<close>

section \<open>The clock\<close>

record timeval =
  tv_sec :: int
  tv_usec :: int

record timespec =
  ts_sec :: int
  ts_nsec :: int

record calendar =
  tm_mon :: nat
  tm_mday :: nat
  tm_hour :: nat
  tm_min :: nat
  tm_sec :: nat

definition timeval_ok :: "timeval \<Rightarrow> bool" where
  "timeval_ok tv \<longleftrightarrow> 0 \<le> tv_sec tv \<and> 0 \<le> tv_usec tv \<and> tv_usec tv < 1000000"

definition get_micros :: "timeval \<Rightarrow> int" where
  "get_micros tv = tv_sec tv * 1000000 + tv_usec tv"

definition now_time :: "timeval \<Rightarrow> int" where
  "now_time tv = i32 (get_micros tv sdiv 1000000)"

text \<open>\<open>printf\<close> of a number with zeros to a width, and the date; the buffer takes \<open>len - 1\<close> characters.\<close>

definition pad_zero :: "nat \<Rightarrow> nat \<Rightarrow> string" where
  "pad_zero w n = replicate (w - length (nat_digits n)) (CHR ''0'') @ nat_digits n"

definition time_str :: "calendar \<Rightarrow> nat \<Rightarrow> string" where
  "time_str t usec =
     pad_zero 2 (tm_mon t + 1) @ ''/'' @ pad_zero 2 (tm_mday t) @ '' '' @ pad_zero 2 (tm_hour t) @
     '':'' @ pad_zero 2 (tm_min t) @ '':'' @ pad_zero 2 (tm_sec t) @ ''.'' @ pad_zero 6 usec"

definition now_time_str :: "calendar \<Rightarrow> timeval \<Rightarrow> nat \<Rightarrow> string \<times> int" where
  "now_time_str t tv len =
     (let s = time_str t (nat (tv_usec tv)) in (take (len - 1) s, int (length s)))"

text \<open>The destructor of \<open>AutoTimer\<close> reports when more than the timeout (in ms) has passed.\<close>

definition AutoTimer_reports :: "int \<Rightarrow> int \<Rightarrow> int \<Rightarrow> bool" where
  "AutoTimer_reports timeout start end_time \<longleftrightarrow> end_time - start > timeout * 1000"

text \<open>\<open>%.3f\<close> of a number of microseconds as milliseconds, and the message; \<open>msg2\<close> may be null.\<close>

definition millis_str :: "int \<Rightarrow> string" where
  "millis_str us =
     (if us < 0 then ''-'' else []) @ nat_digits (nat \<bar>us\<bar> div 1000) @ ''.'' @ pad_zero 3 (nat \<bar>us\<bar> mod 1000)"

definition AutoTimer_text :: "int \<Rightarrow> string \<Rightarrow> string option \<Rightarrow> int \<Rightarrow> int \<Rightarrow> string" where
  "AutoTimer_text timeout msg1 msg2 start end_time =
     (if AutoTimer_reports timeout start end_time
      then ''[AutoTimer] '' @ msg1 @ (case msg2 of None \<Rightarrow> [] | Some m \<Rightarrow> '' '' @ m) @ '' use '' @
        millis_str (end_time - start) @ '' ms'' @ [CHR 0x0A]
      else [])"

section \<open>Timed waits\<close>

definition TimeWait_deadline :: "timeval \<Rightarrow> int \<Rightarrow> timespec" where
  "TimeWait_deadline tv timeout =
     (let usec = tv_usec tv + timeout * 1000
      in \<lparr>ts_sec = tv_sec tv + usec sdiv 1000000, ts_nsec = (usec smod 1000000) * 1000\<rparr>)"

definition timespec_ok :: "timespec \<Rightarrow> bool" where
  "timespec_ok ts \<longleftrightarrow> 0 \<le> ts_nsec ts \<and> ts_nsec ts < 1000000000"

definition timespec_nanos :: "timespec \<Rightarrow> int" where
  "timespec_nanos ts = ts_sec ts * 1000000000 + ts_nsec ts"

lemma sdiv_nonneg:
  assumes "0 \<le> (a::int)" and "0 < b"
  shows "a sdiv b = a div b"
proof (cases "a = 0")
  case False
  with assms have "sgn a = 1" "sgn b = 1" by auto
  with assms show ?thesis by (simp add: signed_divide_int_def)
qed (simp add: signed_divide_int_def)

lemma smod_nonneg:
  assumes "0 \<le> (a::int)" and "0 < b"
  shows "a smod b = a mod b"
proof (cases "a = 0")
  case False
  with assms have "sgn a = 1" by auto
  with assms show ?thesis by (simp add: signed_modulo_int_def)
qed (simp add: signed_modulo_int_def)

lemma TimeWait_deadline_nanos:
  assumes "timeval_ok tv" and "0 \<le> timeout"
  shows "timespec_ok (TimeWait_deadline tv timeout)"
    and "timespec_nanos (TimeWait_deadline tv timeout) = (get_micros tv + timeout * 1000) * 1000"
proof -
  let ?u = "tv_usec tv + timeout * 1000"
  have u: "0 \<le> ?u" using assms by (simp add: timeval_ok_def)
  show "timespec_ok (TimeWait_deadline tv timeout)"
    using u by (simp add: timespec_ok_def TimeWait_deadline_def Let_def smod_nonneg)
  obtain q r where qr: "?u div 1000000 = q" "?u mod 1000000 = r" "q * 1000000 + r = ?u"
    by (metis div_mult_mod_eq)
  then have "timespec_nanos (TimeWait_deadline tv timeout) = (tv_sec tv + q) * 1000000000 + r * 1000"
    using u by (simp add: timespec_nanos_def TimeWait_deadline_def Let_def sdiv_nonneg smod_nonneg)
  with qr(3) show "timespec_nanos (TimeWait_deadline tv timeout) = (get_micros tv + timeout * 1000) * 1000"
    by (simp add: get_micros_def)
qed

lemma length_pad_zero: "length (pad_zero w n) = max w (length (nat_digits n))"
  by (simp add: pad_zero_def max_def)

lemma length_nat_digits: "n < 10 ^ Suc k \<Longrightarrow> length (nat_digits n) \<le> Suc k"
proof (induction k arbitrary: n)
  case 0
  then show ?case by (simp add: nat_digits.simps [of n])
next
  case (Suc k)
  then have "n div 10 < 10 ^ Suc k" by (simp add: less_mult_imp_div_less)
  then show ?case using Suc.IH [of "n div 10"] by (simp add: nat_digits.simps [of n])
qed

section \<open>Properties\<close>

text \<open>
  The absolute deadline of a timed wait is a valid time, and it is exactly the timeout (in
  milliseconds, not negative) after the clock's time.
\<close>

lemma time_wait_deadline:
  assumes "timeval_ok tv" and "0 \<le> timeout"
  shows "timespec_ok (TimeWait_deadline tv timeout) \<and>
    timespec_nanos (TimeWait_deadline tv timeout) = (get_micros tv + timeout * 1000) * 1000"
  using TimeWait_deadline_nanos [OF assms] by simp

end
