(* ===== verification/ThreadPool.thy ===== *)
theory ThreadPool
  imports Prelude "HOL-Library.Multiset"
begin

text \<open>
  The thread pool of \<open>common/thread_pool.h\<close>: a deque of tasks and a priority queue of delayed
  tasks, under one mutex. Each operation, and each turn of a worker's loop up to the point where
  it releases the mutex to run a task, is one function on the pool. A task is any value; the
  clock is an argument.
\<close>

section \<open>Delayed tasks and their order\<close>

datatype task_key = TaskKey (key_time: int) (key_id: int)

text \<open>\<open>BGItem::operator<\<close>: the earlier task is the greater one.\<close>

definition bg_less :: "task_key \<Rightarrow> task_key \<Rightarrow> bool" where
  "bg_less a b \<longleftrightarrow>
     (if key_time a \<noteq> key_time b then key_time a > key_time b else key_id a > key_id b)"

instantiation task_key :: linorder
begin

definition less_task_key :: "task_key \<Rightarrow> task_key \<Rightarrow> bool" where
  "less_task_key = bg_less"

definition less_eq_task_key :: "task_key \<Rightarrow> task_key \<Rightarrow> bool" where
  "less_eq_task_key a b \<longleftrightarrow> a < b \<or> a = b"

instance
proof
  fix x y z :: task_key
  show "x < y \<longleftrightarrow> x \<le> y \<and> \<not> y \<le> x"
    by (auto simp: less_task_key_def bg_less_def less_eq_task_key_def split: if_splits)
  show "x \<le> x" by (simp add: less_eq_task_key_def)
  show "x \<le> z" if "x \<le> y" "y \<le> z"
    using that by (auto simp: less_task_key_def bg_less_def less_eq_task_key_def split: if_splits)
  show "x = y" if "x \<le> y" "y \<le> x"
    using that by (auto simp: less_task_key_def bg_less_def less_eq_task_key_def split: if_splits)
  show "x \<le> y \<or> y \<le> x"
    by (cases x; cases y) (auto simp: less_task_key_def bg_less_def less_eq_task_key_def)
qed

end

lemma task_key_le:
  "TaskKey t i \<le> TaskKey t' i' \<longleftrightarrow> t' < t \<or> t' = t \<and> i' \<le> i"
  by (auto simp: less_task_key_def bg_less_def less_eq_task_key_def)

record 'task bg_item =
  bg_id :: int
  exe_time :: int
  callback :: 'task
  canceled :: bool

definition bg_key :: "'task bg_item \<Rightarrow> task_key" where
  "bg_key it = TaskKey (exe_time it) (bg_id it)"

section \<open>The priority queue\<close>

text \<open>\<open>std::priority_queue\<close>: the bag of its elements, the top a greatest one.\<close>

locale max_queue =
  fixes push :: "'a \<Rightarrow> 'q \<Rightarrow> 'q" and top :: "'q \<Rightarrow> 'a" and pop :: "'q \<Rightarrow> 'q"
    and elems :: "'q \<Rightarrow> 'a multiset" and key :: "'a \<Rightarrow> 'k::linorder"
  assumes push_elems: "elems (push x q) = add_mset x (elems q)"
    and top_elem: "elems q \<noteq> {#} \<Longrightarrow> top q \<in># elems q"
    and top_max: "x \<in># elems q \<Longrightarrow> key x \<le> key (top q)"
    and pop_elems: "elems q \<noteq> {#} \<Longrightarrow> elems (pop q) = elems q - {#top q#}"
begin

lemma top_push:
  "key (top (push x q)) = (if elems q = {#} then key x else max (key x) (key (top q)))"
proof -
  have "x \<in># elems (push x q)" by (simp add: push_elems)
  then have le: "key x \<le> key (top (push x q))" by (rule top_max)
  have top: "top (push x q) = x \<or> top (push x q) \<in># elems q"
    using top_elem [of "push x q"] by (auto simp: push_elems)
  show ?thesis
  proof (cases "elems q = {#}")
    case True
    then show ?thesis using top by simp
  next
    case False
    then have "key (top q) \<le> key (top (push x q))"
      using top_elem by (intro top_max) (simp add: push_elems)
    then show ?thesis using top le top_max [of "top (push x q)" q] False
      by (auto simp: max_def)
  qed
qed

lemma pop_size: "elems q \<noteq> {#} \<Longrightarrow> size (elems (pop q)) < size (elems q)"
  using top_elem [of q] by (simp add: pop_elems size_Diff_singleton nonempty_has_size)

lemma pop_sub: "elems q \<noteq> {#} \<Longrightarrow> elems (pop q) \<subseteq># elems q"
  by (simp add: pop_elems)

end

fun pq_top :: "'task bg_item list \<Rightarrow> 'task bg_item" where
  "pq_top [x] = x"
| "pq_top (x # y # ys) = (let t = pq_top (y # ys) in if bg_key t < bg_key x then x else t)"

definition pq_push :: "'task bg_item \<Rightarrow> 'task bg_item list \<Rightarrow> 'task bg_item list" where
  "pq_push x q = x # q"

definition pq_pop :: "'task bg_item list \<Rightarrow> 'task bg_item list" where
  "pq_pop q = remove1 (pq_top q) q"

lemma pq_top_in: "q \<noteq> [] \<Longrightarrow> pq_top q \<in> set q"
  by (induction q rule: pq_top.induct) (auto simp: Let_def)

lemma pq_top_max: "x \<in> set q \<Longrightarrow> bg_key x \<le> bg_key (pq_top q)"
  by (induction q rule: pq_top.induct) (fastforce simp: Let_def not_less)+

interpretation pq: max_queue pq_push pq_top pq_pop mset bg_key
  by unfold_locales (auto simp: pq_push_def pq_pop_def pq_top_in pq_top_max)

lemma set_pq_pop: "q \<noteq> [] \<Longrightarrow> set (pq_pop q) \<subseteq> set q"
  using pq.pop_sub [of q] by (auto dest: mset_subset_eqD)

section \<open>The pool\<close>

record 'task thread_pool =
  threads_num :: nat
  tp_queue :: "'task list"
  pending_num :: int
  tp_stop :: bool
  tids :: nat                       \<comment> \<open>the number of threads started\<close>
  time_queue :: "'task bg_item list"
  latest :: "int \<Rightarrow> 'task bg_item option"
  last_task_id :: int
  running_task_id :: int

definition Start :: "'task thread_pool \<Rightarrow> bool \<times> 'task thread_pool" where
  "Start p = (if tids p \<noteq> 0 then (False, p)
              else (True, p\<lparr>tp_stop := False, tids := threads_num p\<rparr>))"

definition ThreadPool_init :: "nat \<Rightarrow> 'task thread_pool" where
  "ThreadPool_init thread_num =
     snd (Start \<lparr>threads_num = thread_num, tp_queue = [], pending_num = 0, tp_stop = False,
       tids = 0, time_queue = [], latest = (\<lambda>_. None), last_task_id = 0, running_task_id = 0\<rparr>)"

text \<open>\<open>Stop\<close>: \<open>None\<close> while it sleeps for the pending tasks; the joins return when workers exit.\<close>

definition Stop :: "bool \<Rightarrow> 'task thread_pool \<Rightarrow> 'task thread_pool option" where
  "Stop wait p = (if wait \<and> pending_num p > 0 then None else Some (p\<lparr>tp_stop := True\<rparr>))"

definition Stop_joined :: "'task thread_pool \<Rightarrow> 'task thread_pool" where
  "Stop_joined p = p\<lparr>tids := 0\<rparr>"

definition AddTask :: "'task \<Rightarrow> 'task thread_pool \<Rightarrow> 'task thread_pool" where
  "AddTask task p = p\<lparr>tp_queue := tp_queue p @ [task], pending_num := pending_num p + 1\<rparr>"

definition AddPriorityTask :: "'task \<Rightarrow> 'task thread_pool \<Rightarrow> 'task thread_pool" where
  "AddPriorityTask task p = p\<lparr>tp_queue := task # tp_queue p, pending_num := pending_num p + 1\<rparr>"

definition DelayTask :: "int \<Rightarrow> int \<Rightarrow> 'task \<Rightarrow> 'task thread_pool \<Rightarrow> int \<times> 'task thread_pool" where
  "DelayTask now delay task p =
     (let i = last_task_id p + 1;
          it = \<lparr>bg_id = i, exe_time = now + delay, callback = task, canceled = False\<rparr>
      in (i, p\<lparr>last_task_id := i, time_queue := pq_push it (time_queue p),
               latest := (latest p)(i := Some it)\<rparr>))"

text \<open>One turn of the loop of \<open>CancelTask\<close>: \<open>None\<close> sleeps and tries again.\<close>

definition CancelTask :: "int \<Rightarrow> 'task thread_pool \<Rightarrow> (bool \<times> 'task thread_pool) option" where
  "CancelTask task_id p =
     (if task_id = 0 then Some (False, p)
      else if running_task_id p \<noteq> task_id
      then (case latest p task_id of
              None \<Rightarrow> Some (False, p)
            | Some it \<Rightarrow> Some (True, p\<lparr>latest := (latest p)(task_id := None)\<rparr>))
      else None)"

definition PendingNum :: "'task thread_pool \<Rightarrow> int" where
  "PendingNum p = pending_num p"

section \<open>A worker\<close>

text \<open>
  What a turn of \<open>ThreadProc\<close> decides: to wait on the condition variable (with a time limit,
  which becomes an \<open>int\<close>), to exit, to look again, or to run a task.
\<close>

datatype 'task turn =
    TurnWait
  | TurnExit
  | TurnTimeWait int
  | TurnAgain
  | TurnTimer int 'task
  | TurnTask 'task

definition ThreadProc_normal :: "'task thread_pool \<Rightarrow> 'task thread_pool \<times> 'task turn" where
  "ThreadProc_normal p =
     (case tp_queue p of
        [] \<Rightarrow> (p, TurnAgain)
      | task # rest \<Rightarrow>
          (p\<lparr>tp_queue := rest, pending_num := pending_num p - 1\<rparr>, TurnTask task))"

definition ThreadProc :: "int \<Rightarrow> 'task thread_pool \<Rightarrow> 'task thread_pool \<times> 'task turn" where
  "ThreadProc now p =
     (if time_queue p = [] \<and> tp_queue p = [] \<and> \<not> tp_stop p then (p, TurnWait)
      else if tp_stop p then (p, TurnExit)
      else if time_queue p \<noteq> [] then
        let it = pq_top (time_queue p) in
        if now \<ge> exe_time it then
          let p1 = p\<lparr>time_queue := pq_pop (time_queue p)\<rparr> in
          case latest p1 (bg_id it) of
            Some it' \<Rightarrow>
              if exe_time it' = exe_time it
              then (p1\<lparr>latest := (latest p1)(bg_id it := None), running_task_id := bg_id it\<rparr>,
                    TurnTimer (bg_id it) (callback it))
              else (p1, TurnAgain)
          | None \<Rightarrow> (p1, TurnAgain)
        else if tp_queue p = [] \<and> \<not> tp_stop p
        then (p, TurnTimeWait (i32 (exe_time it - now)))
        else ThreadProc_normal p
      else ThreadProc_normal p)"

text \<open>After a delayed task, when the worker has the mutex again.\<close>

definition ThreadProc_after_timer :: "'task thread_pool \<Rightarrow> 'task thread_pool" where
  "ThreadProc_after_timer p = p\<lparr>running_task_id := 0\<rparr>"

section \<open>Runs of the pool\<close>

text \<open>
  The operations and the workers' turns in any order; an event records what a step did. A worker
  that finishes a delayed task may do so at any later step.
\<close>

datatype 'task event =
    Added 'task
  | AddedFirst 'task
  | Delayed int
  | Cancelled int
  | NotCancelled int
  | RunsTimer int 'task
  | RunsTask 'task
  | TimerDone
  | Silent

inductive pool_step :: "'task thread_pool \<Rightarrow> 'task event \<Rightarrow> 'task thread_pool \<Rightarrow> bool" where
  add: "pool_step p (Added t) (AddTask t p)"
| add_first: "pool_step p (AddedFirst t) (AddPriorityTask t p)"
| delay: "DelayTask now d t p = (i, p') \<Longrightarrow> pool_step p (Delayed i) p'"
| cancel: "CancelTask i p = Some (True, p') \<Longrightarrow> pool_step p (Cancelled i) p'"
| cancel_not: "CancelTask i p = Some (False, p') \<Longrightarrow> pool_step p (NotCancelled i) p'"
| timer: "ThreadProc now p = (p', TurnTimer i t) \<Longrightarrow> pool_step p (RunsTimer i t) p'"
| task: "ThreadProc now p = (p', TurnTask t) \<Longrightarrow> pool_step p (RunsTask t) p'"
| again: "ThreadProc now p = (p', TurnAgain) \<Longrightarrow> pool_step p Silent p'"
| timer_done: "pool_step p TimerDone (ThreadProc_after_timer p)"
| stop: "Stop w p = Some p' \<Longrightarrow> pool_step p Silent p'"

inductive pool_run :: "nat \<Rightarrow> 'task thread_pool \<Rightarrow> 'task event list \<Rightarrow> bool" for n where
  start: "pool_run n (ThreadPool_init n) []"
| step: "pool_run n p es \<Longrightarrow> pool_step p e p' \<Longrightarrow> pool_run n p' (es @ [e])"

inductive_cases pool_run_snocE: "pool_run n p (es @ [e])"
inductive_cases pool_run_NilE: "pool_run n p []"

text \<open>What a step does to the parts of the pool.\<close>

lemma ThreadProc_cases:
  assumes "ThreadProc now p = (p', r)"
  obtains (same) "p' = p" and "\<And>i t. r \<noteq> TurnTimer i t" and "\<And>t. r \<noteq> TurnTask t"
  | (stale) "time_queue p \<noteq> []" and "p' = p\<lparr>time_queue := pq_pop (time_queue p)\<rparr>" and "r = TurnAgain"
  | (timer) it it' where "time_queue p \<noteq> []" and "it = pq_top (time_queue p)"
      and "exe_time it \<le> now" and "latest p (bg_id it) = Some it'"
      and "p' = p\<lparr>time_queue := pq_pop (time_queue p),
        latest := (latest p)(bg_id it := None), running_task_id := bg_id it\<rparr>"
      and "r = TurnTimer (bg_id it) (callback it)"
  | (task) t ts where "tp_queue p = t # ts"
      and "p' = p\<lparr>tp_queue := ts, pending_num := pending_num p - 1\<rparr>" and "r = TurnTask t"
proof -
  let ?it = "pq_top (time_queue p)"
  have normal: thesis if "ThreadProc_normal p = (p', r)"
    using that same task by (auto simp: ThreadProc_normal_def split: list.splits)
  show thesis
  proof (cases "time_queue p \<noteq> [] \<and> \<not> tp_stop p \<and> exe_time ?it \<le> now")
    case True
    then show thesis
      using assms stale timer [of ?it]
      by (cases "latest p (bg_id ?it)") (auto simp: ThreadProc_def Let_def split: if_splits)
  next
    case False
    then show thesis using assms normal same
      by (auto simp: ThreadProc_def Let_def split: if_splits)
  qed
qed

section \<open>Delayed tasks run at most once, and not after they were cancelled\<close>

text \<open>The ids that a run has started or cancelled, in order.\<close>

fun retired :: "'task event list \<Rightarrow> int list" where
  "retired [] = []"
| "retired (RunsTimer i t # es) = i # retired es"
| "retired (Cancelled i # es) = i # retired es"
| "retired (e # es) = retired es"

lemma retired_append [simp]: "retired (xs @ ys) = retired xs @ retired ys"
  by (induction xs rule: retired.induct) auto

definition timers_inv :: "'task thread_pool \<Rightarrow> 'task event list \<Rightarrow> bool" where
  "timers_inv p es \<longleftrightarrow>
     0 \<le> last_task_id p \<and> distinct (retired es) \<and>
     (\<forall>i \<in> set (retired es). i \<le> last_task_id p \<and> latest p i = None) \<and>
     (\<forall>i. latest p i \<noteq> None \<longrightarrow> i \<le> last_task_id p)"

lemma timers_inv_step:
  assumes inv: "timers_inv p es" and step: "pool_step p e p'"
  shows "timers_inv p' (es @ [e])"
  using step inv
proof (cases rule: pool_step.cases)
  case (timer now i t)
  from timer(2) show ?thesis
    by (cases rule: ThreadProc_cases) (use inv timer(1) in \<open>auto simp: timers_inv_def\<close>)
next
  case (task now t)
  from task(2) show ?thesis
    by (cases rule: ThreadProc_cases) (use inv task(1) in \<open>auto simp: timers_inv_def\<close>)
next
  case (again now)
  from again(2) show ?thesis
    by (cases rule: ThreadProc_cases) (use inv again(1) in \<open>auto simp: timers_inv_def\<close>)
next
  case (delay now d t i)
  have le: "j \<le> last_task_id p + 1" if "latest p j = Some y" for j y
    using inv that by (fastforce simp: timers_inv_def)
  show ?thesis using delay inv le by (fastforce simp: timers_inv_def DelayTask_def Let_def)
qed (auto simp: timers_inv_def AddTask_def AddPriorityTask_def DelayTask_def CancelTask_def
    ThreadProc_after_timer_def Stop_def Let_def split: if_splits option.splits)

lemma pool_run_timers_inv: "pool_run n p es \<Longrightarrow> timers_inv p es"
proof (induction rule: pool_run.induct)
  case start
  then show ?case by (simp add: timers_inv_def ThreadPool_init_def Start_def)
next
  case (step p es e p')
  then show ?case by (intro timers_inv_step)
qed

section \<open>Tasks run in the order they were added\<close>

fun added :: "'task event list \<Rightarrow> 'task list" where
  "added [] = []"
| "added (Added t # es) = t # added es"
| "added (e # es) = added es"

fun ran :: "'task event list \<Rightarrow> 'task list" where
  "ran [] = []"
| "ran (RunsTask t # es) = t # ran es"
| "ran (e # es) = ran es"

fun no_priority :: "'task event list \<Rightarrow> bool" where
  "no_priority [] = True"
| "no_priority (AddedFirst t # es) = False"
| "no_priority (e # es) = no_priority es"

lemma added_append [simp]: "added (xs @ ys) = added xs @ added ys"
  by (induction xs rule: added.induct) auto

lemma ran_append [simp]: "ran (xs @ ys) = ran xs @ ran ys"
  by (induction xs rule: ran.induct) auto

lemma no_priority_append [simp]: "no_priority (xs @ ys) \<longleftrightarrow> no_priority xs \<and> no_priority ys"
  by (induction xs rule: no_priority.induct) auto

lemma pool_step_queue:
  assumes "pool_step p e p'"
  shows "pending_num p' - pending_num p = int (length (tp_queue p')) - int (length (tp_queue p))"
    and "no_priority [e] \<Longrightarrow> tp_queue p @ added [e] = ran [e] @ tp_queue p'"
  using assms
  by (cases rule: pool_step.cases;
      auto simp: AddTask_def AddPriorityTask_def DelayTask_def CancelTask_def
        ThreadProc_after_timer_def Stop_def Let_def split: if_splits option.splits
        elim!: ThreadProc_cases)+

lemma pool_run_queue:
  "pool_run n p es \<Longrightarrow> pending_num p = int (length (tp_queue p)) \<and>
     (no_priority es \<longrightarrow> added es = ran es @ tp_queue p)"
proof (induction rule: pool_run.induct)
  case start
  then show ?case by (simp add: ThreadPool_init_def Start_def)
next
  case (step p es e p')
  then show ?case using pool_step_queue [OF step.hyps(2)] by auto
qed

section \<open>Properties\<close>

text \<open>
  C32: In any run of the pool, whatever its threads, every delayed task is started or cancelled
  at most once, counting both: a task that was cancelled never starts, one that started is not
  cancelled any more, none starts twice.
\<close>

theorem delayed_task_at_most_once:
  assumes "pool_run n p es"
  shows "distinct (retired es)"
  using pool_run_timers_inv [OF assms] by (simp add: timers_inv_def)

lemma sample_run:
  obtains p where "pool_run 2 p [Delayed 1, Delayed 2, RunsTimer 1 ''x'', RunsTimer 2 ''y'']"
    and "running_task_id p = 2" and "latest p = (\<lambda>_. None)"
proof -
  let ?p0 = "ThreadPool_init 2 :: string thread_pool"
  let ?p1 = "snd (DelayTask 0 5 ''x'' ?p0)" and ?p2 = "snd (DelayTask 0 6 ''y'' (snd (DelayTask 0 5 ''x'' ?p0)))"
  let ?p3 = "fst (ThreadProc 6 ?p2)"
  let ?p4 = "fst (ThreadProc 6 ?p3)"
  note defs = ThreadPool_init_def Start_def DelayTask_def ThreadProc_def pq_push_def pq_pop_def
    bg_key_def less_task_key_def bg_less_def Let_def
  have "pool_step ?p0 (Delayed 1) ?p1" by (rule pool_step.delay [where now = 0]) (simp add: defs)
  from pool_run.step [OF pool_run.start this] have r1: "pool_run 2 ?p1 [Delayed 1]" by simp
  have "pool_step ?p1 (Delayed 2) ?p2" by (rule pool_step.delay [where now = 0]) (simp add: defs)
  from pool_run.step [OF r1 this] have r2: "pool_run 2 ?p2 [Delayed 1, Delayed 2]" by simp
  have "pool_step ?p2 (RunsTimer 1 ''x'') ?p3" by (rule pool_step.timer [where now = 6]) (simp add: defs)
  from pool_run.step [OF r2 this]
  have r3: "pool_run 2 ?p3 [Delayed 1, Delayed 2, RunsTimer 1 ''x'']" by simp
  have "pool_step ?p3 (RunsTimer 2 ''y'') ?p4" by (rule pool_step.timer [where now = 6]) (simp add: defs)
  from pool_run.step [OF r3 this]
  have "pool_run 2 ?p4 [Delayed 1, Delayed 2, RunsTimer 1 ''x'', RunsTimer 2 ''y'']" by simp
  then show thesis by (rule that) (simp_all add: defs fun_eq_iff)
qed

theorem delayed_task_at_most_once_witness:
  "\<exists>p. pool_run 2 p [Delayed 1, Delayed 2, RunsTimer 1 ''x'', RunsTimer 2 ''y''] \<and>
     distinct (retired [Delayed 1, Delayed 2, RunsTimer 1 ''x'', RunsTimer 2 ''y''])"
  by (rule sample_run) (use delayed_task_at_most_once in blast)

text \<open>
  C33: As long as nobody uses the priority queue's front door (\<open>AddPriorityTask\<close>), tasks run in the
  order they were added and none is lost: the tasks added are those that ran followed by those
  in the queue. The count of pending tasks is the length of the queue.
\<close>

theorem tasks_run_in_order:
  assumes "pool_run n p es" and "no_priority es"
  shows "added es = ran es @ tp_queue p \<and> PendingNum p = int (length (tp_queue p))"
  using pool_run_queue [OF assms(1)] assms(2) by (simp add: PendingNum_def)

theorem tasks_run_in_order_witness:
  "added [Added ''x'', Added ''y''] = [''x'', ''y''] \<and>
     tp_queue (AddTask ''y'' (AddTask ''x'' (ThreadPool_init 1))) = [''x'', ''y'']"
proof -
  have "pool_run 1 (AddTask ''y'' (AddTask ''x'' (ThreadPool_init 1))) (([] @ [Added ''x'']) @ [Added ''y''])"
    by (rule pool_run.step [OF pool_run.step [OF pool_run.start pool_step.add] pool_step.add])
  from tasks_run_in_order [OF this] show ?thesis by simp
qed

text \<open>
  C34: The delayed task a worker starts is due, is the earliest of those waiting (the one added
  first among equals), was not cancelled, and from then on counts as running.
\<close>

theorem timer_due_and_earliest:
  assumes "ThreadProc now p = (p', TurnTimer i t)"
  shows "\<exists>it \<in> set (time_queue p). bg_id it = i \<and> callback it = t \<and> exe_time it \<le> now \<and>
    latest p i \<noteq> None \<and> latest p' i = None \<and> running_task_id p' = i \<and>
    (\<forall>x \<in> set (time_queue p). exe_time it < exe_time x \<or>
       exe_time it = exe_time x \<and> i \<le> bg_id x)"
  using assms
proof (cases rule: ThreadProc_cases)
  case (timer it it')
  have "exe_time it < exe_time x \<or> exe_time it = exe_time x \<and> i \<le> bg_id x"
    if "x \<in> set (time_queue p)" for x
    using pq_top_max [OF that] timer(2,6) by (simp add: bg_key_def task_key_le)
  then show ?thesis using timer pq_top_in [of "time_queue p"] by (intro bexI [of _ it]) auto
qed auto

theorem timer_due_and_earliest_witness:
  "\<exists>p' i t. ThreadProc 9 (snd (DelayTask 0 5 ''x'' (ThreadPool_init 1))) = (p', TurnTimer i t) \<and> latest p' i = None"
proof -
  let ?p = "snd (DelayTask 0 5 ''x'' (ThreadPool_init 1))"
  obtain p' i t where run: "ThreadProc 9 ?p = (p', TurnTimer i t)"
    by (simp add: ThreadPool_init_def Start_def DelayTask_def ThreadProc_def pq_push_def Let_def)
  from timer_due_and_earliest [OF run] run show ?thesis by blast
qed

text \<open>
  With two threads \<open>CancelTask\<close> does not always wait for a running task: the second task to
  start overwrites the record of the first, and cancelling the first returns failure at once
  while the task still runs.
\<close>

lemma cancel_does_not_wait:
  "\<exists>p. pool_run 2 p [Delayed 1, Delayed 2, RunsTimer 1 ''x'', RunsTimer 2 ''y''] \<and>
     CancelTask 1 p = Some (False, p)"
proof (rule sample_run)
  fix p :: "string thread_pool"
  assume "pool_run 2 p [Delayed 1, Delayed 2, RunsTimer 1 ''x'', RunsTimer 2 ''y'']"
    and "running_task_id p = 2" and "latest p = (\<lambda>_. None)"
  then show ?thesis by (intro exI [of _ p]) (simp add: CancelTask_def)
qed

end
