(* ===== verification/TPrinter.thy ===== *)
theory TPrinter
  imports Codec "HOL-Library.Sublist"
begin

text \<open>
  The table printer of \<open>common/tprinter.cc\<close>, which the command line tool shows the cluster with:
  rows of cells, the width of each column, the text of the table, and \<open>RemoveSubString\<close>.
\<close>

section \<open>The table\<close>

record tprinter =
  tp_cols :: nat
  col_width :: "nat list"
  tp_table :: "string list list"

definition kMaxColWidth :: nat where
  "kMaxColWidth = 50"

text \<open>A negative number of columns becomes a huge \<open>size_t\<close>.\<close>

definition TPrinter_init :: "int \<Rightarrow> tprinter" where
  "TPrinter_init cols =
     \<lparr>tp_cols = nat (cols mod 18446744073709551616),
      col_width = (if cols > 0 then replicate (nat cols) 0 else []), tp_table = []\<rparr>"

definition cut_cell :: "string \<Rightarrow> string" where
  "cut_cell item = (if length item > kMaxColWidth then take kMaxColWidth item else item)"

text \<open>The loop over the cells: the new widths and the line.\<close>

fun add_cells :: "nat list \<Rightarrow> string list \<Rightarrow> nat list \<times> string list" where
  "add_cells (w # ws) (c # cs) =
     (let (ws', line) = add_cells ws cs
      in ((if length (cut_cell c) > w then length (cut_cell c) else w) # ws',
          (if cut_cell c = [] then ''-'' else cut_cell c) # line))"
| "add_cells ws cs = (ws, [])"

definition AddRow :: "tprinter \<Rightarrow> string list \<Rightarrow> bool \<times> tprinter" where
  "AddRow p cols =
     (if length cols \<noteq> tp_cols p then (False, p)
      else let (ws, line) = add_cells (col_width p) cols
           in (True, p\<lparr>col_width := ws, tp_table := tp_table p @ [line]\<rparr>))"

text \<open>\<open>%ld\<close> of an \<open>int64_t\<close>, which the buffer of 32 bytes always takes.\<close>

definition NumToString :: "int \<Rightarrow> string" where
  "NumToString num = IntToString num"

definition AddRow_int :: "tprinter \<Rightarrow> int list \<Rightarrow> bool \<times> tprinter" where
  "AddRow_int p cols =
     (if length cols \<noteq> tp_cols p then (False, p) else AddRow p (map NumToString cols))"

definition TPrinter_Reset :: "tprinter \<Rightarrow> tprinter" where
  "TPrinter_Reset p = p\<lparr>col_width := replicate (tp_cols p) 0, tp_table := []\<rparr>"

definition TPrinter_Reset_cols :: "tprinter \<Rightarrow> int \<Rightarrow> tprinter" where
  "TPrinter_Reset_cols p cols = TPrinter_Reset (p\<lparr>tp_cols := nat (cols mod 18446744073709551616)\<rparr>)"

definition Rows :: "tprinter \<Rightarrow> nat" where
  "Rows p = length (tp_table p)"

section \<open>The text\<close>

text \<open>\<open>setw\<close> with left adjustment pads a cell and never cuts it.\<close>

definition cell_text :: "nat \<Rightarrow> string \<Rightarrow> string" where
  "cell_text w c = ''  '' @ c @ replicate (w - length c) (CHR '' '')"

definition row_text :: "nat list \<Rightarrow> string list \<Rightarrow> string" where
  "row_text ws line = concat (map2 cell_text ws line)"

definition line_len :: "tprinter \<Rightarrow> nat" where
  "line_len p = sum_list (map (\<lambda>w. 2 + w) (col_width p))"

definition table_lines :: "tprinter \<Rightarrow> bool \<Rightarrow> string list" where
  "table_lines p has_head =
     (case tp_table p of
        [] \<Rightarrow> []
      | head # rest \<Rightarrow>
          [row_text (col_width p) head] @
          (if has_head then [replicate (line_len p + 2) (CHR ''-'')] else []) @
          map (row_text (col_width p)) rest)"

definition ToString :: "tprinter \<Rightarrow> bool \<Rightarrow> string" where
  "ToString p has_head = concat (map (\<lambda>l. l @ [CHR 0x0A]) (table_lines p has_head))"

text \<open>
  \<open>Print\<close> writes to standard output, cell by cell; \<open>at\<close> here is the index operator, in range for the
  rows and widths of a table.
\<close>

definition print_row :: "tprinter \<Rightarrow> nat \<Rightarrow> string" where
  "print_row p i = concat (map (\<lambda>j. cell_text (col_width p ! j) (tp_table p ! i ! j)) [0..<tp_cols p]) @ [CHR 0x0A]"

definition Print :: "tprinter \<Rightarrow> bool \<Rightarrow> string" where
  "Print p has_head =
     (if length (tp_table p) < 1 then []
      else
        let len = sum_list (map (\<lambda>i. 2 + col_width p ! i) [0..<tp_cols p])
        in print_row p 0 @
           (if has_head then replicate (len + 2) (CHR ''-'') @ [CHR 0x0A] else []) @
           concat (map (print_row p) [1..<length (tp_table p)]))"

section \<open>The shape of the table\<close>

text \<open>Every row has a cell per column that fits its column, or is the dash of an empty cell.\<close>

definition row_fits :: "nat list \<Rightarrow> string list \<Rightarrow> bool" where
  "row_fits ws line \<longleftrightarrow> list_all2 (\<lambda>w c. c \<noteq> [] \<and> length c \<le> max 1 w) ws line"

definition printer_ok :: "tprinter \<Rightarrow> bool" where
  "printer_ok p \<longleftrightarrow>
     length (col_width p) = tp_cols p \<and> (\<forall>w \<in> set (col_width p). w \<le> kMaxColWidth) \<and>
     (\<forall>line \<in> set (tp_table p). row_fits (col_width p) line)"

lemma add_cells_fits:
  "length ws = length cs \<Longrightarrow> \<forall>w \<in> set ws. w \<le> kMaxColWidth \<Longrightarrow> add_cells ws cs = (ws', line) \<Longrightarrow>
     length ws' = length ws \<and> list_all2 (\<le>) ws ws' \<and> row_fits ws' line \<and>
     (\<forall>w \<in> set ws'. w \<le> kMaxColWidth)"
proof (induction ws cs arbitrary: ws' line rule: add_cells.induct)
  case (1 w ws c cs)
  obtain ws1 l1 where rec: "add_cells ws cs = (ws1, l1)" by fastforce
  have "length ws = length cs" "\<forall>w \<in> set ws. w \<le> kMaxColWidth" using 1(2,3) by simp_all
  from 1(1) [OF this rec] have IH: "length ws1 = length ws" "list_all2 (\<le>) ws ws1"
    "row_fits ws1 l1" "\<forall>w \<in> set ws1. w \<le> kMaxColWidth" by simp_all
  have "length (cut_cell c) \<le> kMaxColWidth" by (simp add: cut_cell_def)
  with IH 1(3,4) rec show ?case by (auto simp: row_fits_def split: if_splits)
qed (auto simp: row_fits_def)

lemma row_fits_mono: "row_fits ws line \<Longrightarrow> list_all2 (\<le>) ws ws' \<Longrightarrow> row_fits ws' line"
  unfolding row_fits_def list_all2_conv_all_nth by (auto simp: max_def split: if_splits) (meson le_trans)+

lemma AddRow_ok:
  assumes "printer_ok p"
  shows "printer_ok (snd (AddRow p cols))"
proof (cases "length cols = tp_cols p")
  case True
  obtain ws line where add: "add_cells (col_width p) cols = (ws, line)" by fastforce
  with assms True have "length ws = tp_cols p \<and> list_all2 (\<le>) (col_width p) ws \<and> row_fits ws line \<and>
      (\<forall>w \<in> set ws. w \<le> kMaxColWidth)"
    using add_cells_fits [of "col_width p" cols ws line] by (simp add: printer_ok_def)
  with assms True add show ?thesis
    by (auto simp: printer_ok_def AddRow_def intro: row_fits_mono)
next
  case False
  with assms show ?thesis by (simp add: AddRow_def)
qed

lemma AddRow_grows:
  assumes "printer_ok p" and "length cols = tp_cols p"
  shows "list_all2 (\<le>) (col_width p) (col_width (snd (AddRow p cols)))"
    and "Rows (snd (AddRow p cols)) = Rows p + 1" and "tp_cols (snd (AddRow p cols)) = tp_cols p"
proof -
  obtain ws line where add: "add_cells (col_width p) cols = (ws, line)" by fastforce
  with assms show "list_all2 (\<le>) (col_width p) (col_width (snd (AddRow p cols)))"
    using add_cells_fits [of "col_width p" cols ws line] by (simp add: printer_ok_def AddRow_def)
  show "Rows (snd (AddRow p cols)) = Rows p + 1" "tp_cols (snd (AddRow p cols)) = tp_cols p"
    using assms(2) add by (simp_all add: AddRow_def Rows_def)
qed

lemma widths_stay_positive:
  "list_all2 (\<le>) ws ws' \<Longrightarrow> 0 \<notin> set ws \<Longrightarrow> (0::nat) \<notin> set ws'"
  by (induction ws ws' rule: list_all2_induct) auto

lemma TPrinter_init_ok: "0 \<le> cols \<Longrightarrow> cols < 18446744073709551616 \<Longrightarrow> printer_ok (TPrinter_init cols)"
  by (auto simp: printer_ok_def TPrinter_init_def)

lemma length_row_text:
  assumes "row_fits ws line" and "0 \<notin> set ws"
  shows "length (row_text ws line) = sum_list (map (\<lambda>w. 2 + w) ws)"
  using assms unfolding row_fits_def
  by (induction ws line rule: list_all2_induct) (auto simp: row_text_def cell_text_def)

text \<open>\<open>Print\<close> writes exactly the text of \<open>ToString\<close>.\<close>

lemma print_row_eq:
  assumes "printer_ok p" and "i < length (tp_table p)"
  shows "print_row p i = row_text (col_width p) (tp_table p ! i) @ [CHR 0x0A]"
proof -
  have "row_fits (col_width p) (tp_table p ! i)" "length (col_width p) = tp_cols p"
    using assms by (auto simp: printer_ok_def)
  moreover have "length (tp_table p ! i) = length (col_width p)"
    using calculation(1) by (simp add: row_fits_def list_all2_lengthD)
  ultimately have "map (\<lambda>j. cell_text (col_width p ! j) (tp_table p ! i ! j)) [0..<tp_cols p] =
      map2 cell_text (col_width p) (tp_table p ! i)"
    by (intro nth_equalityI) auto
  then show ?thesis by (simp add: print_row_def row_text_def)
qed

lemma Print_ToString:
  assumes "printer_ok p"
  shows "Print p has_head = ToString p has_head"
proof (cases "tp_table p")
  case (Cons head rest)
  have "length (col_width p) = tp_cols p" using assms by (simp add: printer_ok_def)
  then have len: "sum_list (map (\<lambda>i. 2 + col_width p ! i) [0..<tp_cols p]) = line_len p"
    unfolding line_len_def by (intro arg_cong [where f = sum_list] nth_equalityI) auto
  have "[1..<length (tp_table p)] = map Suc [0..<length rest]" by (simp only: map_Suc_upt Cons list.size) simp
  then have "map (print_row p) [1..<length (tp_table p)] = map (print_row p \<circ> Suc) [0..<length rest]"
    by simp
  also have "\<dots> = map (\<lambda>l. row_text (col_width p) l @ [CHR 0x0A]) rest"
    using print_row_eq [OF assms] by (intro nth_equalityI) (simp_all add: Cons)
  finally have rows: "map (print_row p) [1..<length (tp_table p)] = map (\<lambda>l. row_text (col_width p) l @ [CHR 0x0A]) rest" .
  show ?thesis
    unfolding Print_def Let_def len rows
    using print_row_eq [OF assms, of 0] by (simp add: ToString_def table_lines_def Cons comp_def)
qed (simp add: Print_def ToString_def table_lines_def)

section \<open>Removing a substring\<close>

text \<open>\<open>find\<close>: the first position where the string occurs.\<close>

fun find_sub :: "string \<Rightarrow> string \<Rightarrow> nat option" where
  "find_sub sub [] = (if sub = [] then Some 0 else None)"
| "find_sub sub (c # cs) =
     (if prefix sub (c # cs) then Some 0 else map_option Suc (find_sub sub cs))"

text \<open>The loop, on the rest of the input and the result so far; with an empty string it never ends.\<close>

partial_function (option) remove_loop :: "string \<Rightarrow> string \<Rightarrow> string \<Rightarrow> string option" where
  [code]: "remove_loop sub tmp ret =
     (case find_sub sub tmp of
        None \<Rightarrow> Some (ret @ tmp)
      | Some p \<Rightarrow> remove_loop sub (drop (p + length sub) tmp) (ret @ take p tmp))"

definition RemoveSubString :: "string \<Rightarrow> string \<Rightarrow> string option" where
  "RemoveSubString input sub = remove_loop sub input []"

text \<open>Reading from the left and skipping each occurrence.\<close>

function remove_all :: "string \<Rightarrow> string \<Rightarrow> string" where
  "remove_all sub s =
     (if sub = [] then s
      else case s of
        [] \<Rightarrow> []
      | c # cs \<Rightarrow> if prefix sub (c # cs) then remove_all sub (drop (length sub) (c # cs))
                 else c # remove_all sub cs)"
  by pat_completeness auto
termination by (relation "measure (\<lambda>(sub, s). length s)") (auto simp: prefix_def)

declare remove_all.simps [simp del]

lemma find_sub_None: "find_sub sub s = None \<Longrightarrow> remove_all sub s = s"
  by (induction sub s rule: find_sub.induct)
    (auto simp: remove_all.simps split: if_splits)

lemma find_sub_Some:
  "find_sub sub s = Some p \<Longrightarrow> sub \<noteq> [] \<Longrightarrow>
     remove_all sub s = take p s @ remove_all sub (drop (p + length sub) s) \<and> p + length sub \<le> length s"
proof (induction sub s arbitrary: p rule: find_sub.induct)
  case (2 sub c cs)
  show ?case
  proof (cases "prefix sub (c # cs)")
    case True
    with 2 show ?thesis by (auto simp: remove_all.simps [of sub "c # cs"] dest: prefix_length_le)
  next
    case False
    with 2 show ?thesis by (auto simp: remove_all.simps [of sub "c # cs"])
  qed
qed auto

lemma remove_loop_spec:
  assumes "sub \<noteq> []"
  shows "remove_loop sub s ret = Some (ret @ remove_all sub s)"
proof (induction "length s" arbitrary: s ret rule: less_induct)
  case less
  show ?case
  proof (cases "find_sub sub s")
    case None
    then show ?thesis by (simp add: remove_loop.simps [of sub s] find_sub_None)
  next
    case (Some p)
    have "length (drop (p + length sub) s) < length s"
      using find_sub_Some [OF Some assms] assms by (cases sub) auto
    with find_sub_Some [OF Some assms] Some show ?thesis
      by (subst remove_loop.simps) (simp add: less)
  qed
qed

lemma remove_loop_empty:
  assumes "remove_loop sub s ret = Some r"
  shows "sub \<noteq> []"
proof (rule remove_loop.raw_induct [where P = "\<lambda>sub s ret r. sub \<noteq> []", OF _ assms])
  fix f sub s ret r
  assume IH: "\<And>sub s ret r. f sub s ret = Some r \<Longrightarrow> sub \<noteq> ([] :: string)"
    and "(case find_sub sub s of None \<Rightarrow> Some (ret @ s)
      | Some p \<Rightarrow> f sub (drop (p + length sub) s) (ret @ take p s)) = Some r"
  moreover have "find_sub [] s = Some 0" by (cases s) auto
  ultimately show "sub \<noteq> []" by (auto split: option.splits)
qed

section \<open>Removal\<close>

text \<open>
  Removing a non-empty substring always ends, and removes the occurrences that a reader from
  the left meets, without overlaps; with an empty one the loop never ends.
\<close>

lemma remove_substring:
  "RemoveSubString input sub = (if sub = [] then None else Some (remove_all sub input))"
  using remove_loop_empty [of sub input "[]"] remove_loop_spec [of sub input "[]"]
  by (cases "remove_loop sub input []") (auto simp: RemoveSubString_def)

end
