(* ===== verification/Sdk.thy ===== *)
theory Sdk
  imports Service TPrinter "HOL-Library.Signed_Division"
begin

text \<open>
  The client side: \<open>RpcClient\<close> of \<open>src/rpc_client.h\<close>, the client library \<open>sdk/airdb_sdk.cc\<close>, the
  command line tool \<open>sdk/airdb_cli_main.cc\<close>.
  The RPC library is a parameter: a call on a channel takes the state of the world to a new one
  and gives an answer, or none when the call failed (the server may have acted all the same).
\<close>

section \<open>Channels\<close>

record channel =
  ch_id :: nat
  ch_server :: string

record rpc_client =
  host_map :: "string \<Rightarrow> channel option"
  channels :: nat                     \<comment> \<open>the number of channels created\<close>

definition RpcClient_init :: rpc_client where
  "RpcClient_init = \<lparr>host_map = (\<lambda>_. None), channels = 0\<rparr>"

definition GetStub :: "rpc_client \<Rightarrow> string \<Rightarrow> channel \<times> rpc_client" where
  "GetStub c server =
     (case host_map c server of
        Some channel \<Rightarrow> (channel, c)
      | None \<Rightarrow>
          let channel = \<lparr>ch_id = channels c, ch_server = server\<rparr>
          in (channel, c\<lparr>host_map := (host_map c)(server := Some channel), channels := channels c + 1\<rparr>))"

text \<open>The retry loop: the answer of the first call that does not fail, and the seconds slept.\<close>

fun send_attempts :: "('w \<Rightarrow> 'w \<times> 'a option) \<Rightarrow> nat \<Rightarrow> 'w \<Rightarrow> 'w \<times> 'a option \<times> nat" where
  "send_attempts call 0 w = (w, None, 0)"
| "send_attempts call (Suc n) w =
     (let (w', r) = call w in
      case r of
        Some response \<Rightarrow> (w', Some response, 0)
      | None \<Rightarrow>
          let (w'', r', s) = send_attempts call n w'
          in (w'', r', if n > 0 then s + 1 else s))"

definition SendRequest :: "('w \<Rightarrow> 'w \<times> 'a option) \<Rightarrow> int \<Rightarrow> 'w \<Rightarrow> 'w \<times> 'a option \<times> nat" where
  "SendRequest call retry_times w = send_attempts call (nat retry_times) w"

text \<open>
  An asynchronous call, with the timeout in milliseconds (a \<open>long\<close>) and the number of retries
  ignored; the RPC library runs \<open>RpcCallback\<close> with what the controller says, which warns unless
  the send buffer was full (\<open>buffer_full\<close> is the library's code for that) and calls back.
\<close>

definition AsyncRequest :: "(channel \<Rightarrow> int \<Rightarrow> 'q \<Rightarrow> 'w \<Rightarrow> 'w) \<Rightarrow> channel \<Rightarrow> 'q \<Rightarrow> int \<Rightarrow> int \<Rightarrow> 'w \<Rightarrow> 'w" where
  "AsyncRequest rpc stub request rpc_timeout retry_times w = rpc stub (rpc_timeout * 1000) request w"

definition RpcCallback :: "int \<Rightarrow> bool \<Rightarrow> int \<Rightarrow> 'q \<Rightarrow> 'a \<Rightarrow> ('q \<Rightarrow> 'a \<Rightarrow> bool \<Rightarrow> int \<Rightarrow> 'r) \<Rightarrow> bool \<times> 'r" where
  "RpcCallback buffer_full failed error request response callback =
     ((failed \<or> error \<noteq> 0) \<and> error \<noteq> buffer_full, callback request response failed error)"

section \<open>The client library\<close>

record sdk =
  server_members :: "string list"
  sdk_rpc_client :: rpc_client

definition AirDBSdk_init :: "string list \<Rightarrow> sdk" where
  "AirDBSdk_init members = \<lparr>server_members = members, sdk_rpc_client = RpcClient_init\<rparr>"

text \<open>
  The members from the flag, cut at the commas by \<open>boost::split\<close>, which is a parameter. The
  function has no return statement for its \<open>int\<close>, which nobody reads.
\<close>

definition ParseFlagFromArgs :: "(string \<Rightarrow> string list) \<Rightarrow> string \<Rightarrow> string list res" where
  "ParseFlagFromArgs split cluster_members =
     (let members = split cluster_members
      in if length members < 1 then Inl AbortCalled else Inr members)"

text \<open>The loop the calls share: the first acceptable answer, asking the servers in order.\<close>

fun ask_servers ::
  "(channel \<Rightarrow> 'q \<Rightarrow> 'w \<Rightarrow> 'w \<times> 'a option) \<Rightarrow> 'q \<Rightarrow> ('a \<Rightarrow> bool) \<Rightarrow>
     string list \<Rightarrow> rpc_client \<Rightarrow> 'w \<Rightarrow> 'a option \<times> rpc_client \<times> 'w"
where
  "ask_servers rpc request accepts [] c w = (None, c, w)"
| "ask_servers rpc request accepts (server_id # rest) c w =
     (let (stub, c') = GetStub c server_id;
          (w', response, slept) = SendRequest (rpc stub request) 1 w
      in case response of
           None \<Rightarrow> ask_servers rpc request accepts rest c' w'
         | Some res \<Rightarrow>
             if accepts res then (Some res, c', w')
             else ask_servers rpc request accepts rest c' w')"

definition ask ::
  "(channel \<Rightarrow> 'q \<Rightarrow> 'w \<Rightarrow> 'w \<times> 'a option) \<Rightarrow> 'q \<Rightarrow> ('a \<Rightarrow> bool) \<Rightarrow> sdk \<Rightarrow> 'w \<Rightarrow> 'a option \<times> sdk \<times> 'w"
where
  "ask rpc request accepts s w =
     (let (r, c, w') = ask_servers rpc request accepts (server_members s) (sdk_rpc_client s) w
      in (r, s\<lparr>sdk_rpc_client := c\<rparr>, w'))"

type_synonym ('q, 'a, 'w) rpc = "channel \<Rightarrow> 'q \<Rightarrow> 'w \<Rightarrow> 'w \<times> 'a option"

definition code_of :: "'a option \<Rightarrow> int" where
  "code_of r = (case r of None \<Rightarrow> -1 | Some a \<Rightarrow> 0)"

definition AirDBSdk_Put ::
  "(string \<times> string, sdk_reply, 'w) rpc \<Rightarrow> sdk \<Rightarrow> string \<Rightarrow> string \<Rightarrow> 'w \<Rightarrow> int \<times> sdk \<times> 'w"
where
  "AirDBSdk_Put rpc s key val w =
     (let (r, s', w') = ask rpc (key, val) rp_success s w in (code_of r, s', w'))"

definition AirDBSdk_Get ::
  "(string, get_response, 'w) rpc \<Rightarrow> sdk \<Rightarrow> string \<Rightarrow> 'w \<Rightarrow> (int \<times> string option) \<times> sdk \<times> 'w"
where
  "AirDBSdk_Get rpc s key w =
     (let (r, s', w') = ask rpc key (\<lambda>res. gr_hit res \<and> gr_success res) s w
      in ((code_of r, map_option gr_value r), s', w'))"

definition AirDBSdk_Delete ::
  "(string, sdk_reply, 'w) rpc \<Rightarrow> sdk \<Rightarrow> string \<Rightarrow> 'w \<Rightarrow> int \<times> sdk \<times> 'w"
where
  "AirDBSdk_Delete rpc s key w =
     (let (r, s', w') = ask rpc key rp_success s w in (code_of r, s', w'))"

definition AirDBSdk_Lock ::
  "(string, sdk_reply, 'w) rpc \<Rightarrow> sdk \<Rightarrow> string \<Rightarrow> 'w \<Rightarrow> int \<times> sdk \<times> 'w"
where
  "AirDBSdk_Lock rpc s key w =
     (let (r, s', w') = ask rpc key rp_success s w in (code_of r, s', w'))"

definition AirDBSdk_UnLock ::
  "(string, sdk_reply, 'w) rpc \<Rightarrow> sdk \<Rightarrow> string \<Rightarrow> 'w \<Rightarrow> int \<times> sdk \<times> 'w"
where
  "AirDBSdk_UnLock rpc s key w =
     (let (r, s', w') = ask rpc key rp_success s w in (code_of r, s', w'))"

record node_info =
  ni_server_id :: string
  ni_status :: db_node_status
  ni_current_term :: int
  ni_last_log_index :: int
  ni_last_log_term :: int
  ni_commit_index :: int
  ni_last_applied_index :: int

definition info_of :: "string \<Rightarrow> show_status_response option \<Rightarrow> node_info" where
  "info_of server_id response =
     (case response of
        Some res \<Rightarrow> \<lparr>ni_server_id = server_id, ni_status = sr_status res, ni_current_term = sr_term res,
          ni_last_log_index = sr_last_log_index res, ni_last_log_term = sr_last_log_term res,
          ni_commit_index = sr_commit_index res, ni_last_applied_index = sr_last_applied res\<rparr>
      | None \<Rightarrow> \<lparr>ni_server_id = server_id, ni_status = kOffline, ni_current_term = -1,
          ni_last_log_index = -1, ni_last_log_term = -1, ni_commit_index = -1,
          ni_last_applied_index = -1\<rparr>)"

definition newline :: string where
  "newline = [CHR 0x0A]"

definition show_error_line :: string where
  "show_error_line = ''========= call ShowStatus happen error ===='' @ newline"

text \<open>The loop over the servers: their statuses, and what it prints on standard output.\<close>

fun show_servers ::
  "(unit, show_status_response, 'w) rpc \<Rightarrow> string list \<Rightarrow> rpc_client \<Rightarrow> 'w \<Rightarrow>
     node_info list \<times> string \<times> rpc_client \<times> 'w"
where
  "show_servers rpc [] c w = ([], [], c, w)"
| "show_servers rpc (server_id # rest) c w =
     (let (stub, c') = GetStub c server_id;
          (w', response, slept) = SendRequest (rpc stub ()) 1 w;
          (infos, out, c'', w'') = show_servers rpc rest c' w'
      in (info_of server_id response # infos,
          (if response = None then show_error_line else []) @ out, c'', w''))"

definition ShowClusterStatus ::
  "(unit, show_status_response, 'w) rpc \<Rightarrow> sdk \<Rightarrow> 'w \<Rightarrow> node_info list \<times> string \<times> sdk \<times> 'w"
where
  "ShowClusterStatus rpc s w =
     (let (infos, out, c, w') = show_servers rpc (server_members s) (sdk_rpc_client s) w
      in (infos, out, s\<lparr>sdk_rpc_client := c\<rparr>, w'))"

text \<open>The enumerators are 0 to 3.\<close>

definition StatusToString :: "int \<Rightarrow> string" where
  "StatusToString s =
     (if s = 0 then ''Leader'' else if s = 1 then ''Candidate'' else if s = 2 then ''Follower''
      else if s = 3 then ''Offline'' else ''UnKnown'')"

fun status_code :: "db_node_status \<Rightarrow> int" where
  "status_code kLeader = 0"
| "status_code kCandidate = 1"
| "status_code kFollower = 2"
| "status_code kOffline = 3"

section \<open>The programs\<close>

text \<open>
  The command line tool: what it prints on standard output and its exit code, from the results
  of the calls of the library and the clock. A C string ends at its first NUL character.
\<close>

definition c_str :: "string \<Rightarrow> string" where
  "c_str s = takeWhile (\<lambda>c. c \<noteq> CHR 0x00) s"

definition AddRow_args :: "tprinter \<Rightarrow> int \<Rightarrow> string list \<Rightarrow> bool \<times> tprinter" where
  "AddRow_args p argc args =
     (if argc \<noteq> int (tp_cols p) then (False, p) else AddRow p (map c_str args))"

definition show_row :: "node_info \<Rightarrow> string list" where
  "show_row i = [ni_server_id i, StatusToString (status_code (ni_status i)),
     IntToString (ni_current_term i), IntToString (ni_last_log_index i),
     IntToString (ni_last_log_term i), IntToString (ni_commit_index i),
     IntToString (ni_last_applied_index i)]"

definition show_head :: "string list" where
  "show_head = [''server node'', ''role'', ''term'', ''last_log_index'', ''last_log_term'',
     ''commit_index'', ''last_applied'']"

definition show_table :: "node_info list \<Rightarrow> tprinter" where
  "show_table infos =
     fold (\<lambda>i p. snd (AddRow_args p 7 (show_row i))) infos
       (snd (AddRow_args (TPrinter_init 7) 7 show_head))"

datatype cli_result =
    CliShow "node_info list" string
  | CliPut int
  | CliGet int string
  | CliDel string int
  | CliOther

definition time_used :: "int \<Rightarrow> int \<Rightarrow> string" where
  "time_used start_time end_time =
     ''time used:'' @ IntToString ((end_time - start_time) sdiv 1000) @ ''(ms)'' @ newline"

definition cli_main :: "cli_result \<Rightarrow> string \<Rightarrow> int \<Rightarrow> int \<Rightarrow> string \<times> int" where
  "cli_main r key start_time end_time =
     (let finish = (\<lambda>out. (out @ time_used start_time end_time, 0)) in
      case r of
        CliShow infos printed \<Rightarrow>
          if infos = [] then (printed, -1)
          else finish (printed @ ToString (show_table infos) True)
      | CliPut ret \<Rightarrow> finish []
      | CliGet ret val \<Rightarrow>
          if ret = 0 then finish (''key:'' @ key @ '';value:'' @ val @ newline)
          else finish (''get failed '' @ newline)
      | CliDel del_key ret \<Rightarrow>
          if ret = 0 then (''del key['' @ del_key @ ''] success'' @ newline, 0)
          else (''del key['' @ del_key @ ''] failed'' @ newline, -1)
      | CliOther \<Rightarrow> finish ('' the cmd not support '' @ newline))"

section \<open>Lemmas\<close>

definition rpc_client_ok :: "rpc_client \<Rightarrow> bool" where
  "rpc_client_ok c \<longleftrightarrow>
     (\<forall>s ch. host_map c s = Some ch \<longrightarrow> ch_server ch = s \<and> ch_id ch < channels c) \<and>
     inj_on (\<lambda>s. map_option ch_id (host_map c s)) (dom (host_map c))"

lemma RpcClient_init_ok [simp]: "rpc_client_ok RpcClient_init"
  by (simp add: rpc_client_ok_def RpcClient_init_def)

lemma GetStub_ok:
  assumes ok: "rpc_client_ok c" and stub: "GetStub c server = (ch, c')"
  shows "rpc_client_ok c'" and "ch_server ch = server" and "host_map c' server = Some ch"
    and "\<And>s x. host_map c s = Some x \<Longrightarrow> host_map c' s = Some x"
proof -
  show "ch_server ch = server" "host_map c' server = Some ch"
    using assms by (auto simp: GetStub_def rpc_client_ok_def Let_def split: option.splits)
  show "host_map c' s = Some x" if "host_map c s = Some x" for s x
    using stub that by (auto simp: GetStub_def Let_def split: option.splits)
  show "rpc_client_ok c'"
  proof (cases "host_map c server")
    case None
    have lt: "ch_server x = s \<and> ch_id x < channels c" if "host_map c s = Some x" for s x
      using ok that by (simp add: rpc_client_ok_def)
    then have ne: "channels c \<noteq> ch_id x" "ch_id x \<noteq> channels c" if "host_map c s = Some x" for s x
      using that by (metis less_irrefl)+
    have inj: "s = t" if "host_map c s = Some x" "host_map c t = Some y" "ch_id x = ch_id y" for s t x y
      using ok that by (auto simp: rpc_client_ok_def dest: inj_onD [of _ _ s t])
    have c': "c' = c\<lparr>host_map := (host_map c)(server := Some \<lparr>ch_id = channels c, ch_server = server\<rparr>),
        channels := channels c + 1\<rparr>"
      using stub None by (auto simp: GetStub_def Let_def)
    show ?thesis
      unfolding rpc_client_ok_def c'
      by (auto simp: inj_on_def less_Suc_eq split: if_splits dest: lt ne intro: inj)
  next
    case (Some x)
    then show ?thesis using assms by (simp add: GetStub_def)
  qed
qed

lemma send_attempts_fails:
  "fst (snd (send_attempts call n w)) = None \<longleftrightarrow> (\<forall>k < n. snd (call (((fst \<circ> call) ^^ k) w)) = None)"
proof (induction n arbitrary: w)
  case 0
  then show ?case by simp
next
  case (Suc n)
  obtain w' r where call: "call w = (w', r)" by fastforce
  show ?case
    using Suc [of w'] call
    by (cases r) (auto simp: less_Suc_eq_0_disj funpow_Suc_right case_prod_beta Let_def simp del: funpow.simps(2))
qed

lemma send_attempts_sleeps: "snd (snd (send_attempts call n w)) \<le> n - 1"
proof (induction n arbitrary: w)
  case (Suc n)
  obtain w' r where call: "call w = (w', r)" by fastforce
  show ?case using Suc [of w'] call by (cases r) (auto simp: case_prod_beta Let_def)
qed simp

text \<open>The calls made on the way, with their channels and answers, from one world to another.\<close>

fun calls_run :: "('q, 'a, 'w) rpc \<Rightarrow> 'q \<Rightarrow> (channel \<times> 'a option) list \<Rightarrow> 'w \<Rightarrow> 'w \<Rightarrow> bool" where
  "calls_run rpc q [] w w' \<longleftrightarrow> w' = w"
| "calls_run rpc q ((ch, r) # calls) w w' \<longleftrightarrow>
     snd (rpc ch q w) = r \<and> calls_run rpc q calls (fst (rpc ch q w)) w'"

definition declined :: "('a \<Rightarrow> bool) \<Rightarrow> 'a option \<Rightarrow> bool" where
  "declined accepts r \<longleftrightarrow> (case r of None \<Rightarrow> True | Some a \<Rightarrow> \<not> accepts a)"

definition ends_with :: "('a \<Rightarrow> bool) \<Rightarrow> 'a option \<Rightarrow> nat \<Rightarrow> (channel \<times> 'a option) list \<Rightarrow> bool" where
  "ends_with accepts r n calls \<longleftrightarrow>
     (case r of
        None \<Rightarrow> length calls = n \<and> list_all (\<lambda>c. declined accepts (snd c)) calls
      | Some a \<Rightarrow> calls \<noteq> [] \<and> snd (last calls) = Some a \<and> accepts a \<and>
          list_all (\<lambda>c. declined accepts (snd c)) (butlast calls))"

text \<open>
  Between the caches before and after: a channel is created exactly for the servers asked that had
  none, and kept; every call used the channel that the cache has for its server.
\<close>

definition cached :: "rpc_client \<Rightarrow> rpc_client \<Rightarrow> (channel \<times> 'a option) list \<Rightarrow> bool" where
  "cached c c' calls \<longleftrightarrow>
     rpc_client_ok c' \<and> list_all (\<lambda>(ch, r). host_map c' (ch_server ch) = Some ch) calls \<and>
     (\<forall>s. s \<in> dom (host_map c) \<or> s \<notin> ch_server ` fst ` set calls \<longrightarrow> host_map c' s = host_map c s) \<and>
     channels c' = channels c + card (ch_server ` fst ` set calls - dom (host_map c))"

lemma cached_nil: "rpc_client_ok c \<Longrightarrow> cached c c []"
  by (simp add: cached_def)

lemma cached_cons:
  assumes ok: "rpc_client_ok c" and stub: "GetStub c s = (ch, c1)" and rest: "cached c1 c' calls"
  shows "cached c c' ((ch, r) # calls)"
proof -
  note ch = GetStub_ok [OF ok stub]
  let ?S = "ch_server ` fst ` set calls"
  have c1: "dom (host_map c1) = insert s (dom (host_map c))"
    "\<And>x. x \<noteq> s \<Longrightarrow> host_map c1 x = host_map c x"
    "channels c1 = channels c + (if s \<in> dom (host_map c) then 0 else 1)"
    using stub by (auto simp: GetStub_def Let_def split: option.splits)
  have kept: "host_map c' s = Some ch" using rest ch(3) by (auto simp: cached_def)
  have "insert s ?S - dom (host_map c) =
      (if s \<in> dom (host_map c) then ?S - insert s (dom (host_map c))
       else insert s (?S - insert s (dom (host_map c))))" by auto
  then have "card (insert s ?S - dom (host_map c)) =
      (if s \<in> dom (host_map c) then 0 else 1) + card (?S - insert s (dom (host_map c)))" by simp
  then have "channels c' = channels c + card (insert s ?S - dom (host_map c))"
    using rest c1 by (simp add: cached_def)
  moreover have "host_map c' x = host_map c x" if "x \<in> dom (host_map c) \<or> x \<notin> insert s ?S" for x
    using that rest c1 ch(3,4) kept unfolding cached_def by (cases "x = s") auto
  ultimately show ?thesis using rest kept ch(2) by (simp add: cached_def)
qed

lemma SendRequest_once: "SendRequest call 1 w = (fst (call w), snd (call w), 0)"
  by (simp add: SendRequest_def case_prod_beta split: option.split)

lemma ask_servers_calls:
  assumes "rpc_client_ok c" and "ask_servers rpc q accepts servers c w = (r, c', w')"
  shows "\<exists>calls. calls_run rpc q calls w w' \<and>
    map (\<lambda>x. ch_server (fst x)) calls = take (length calls) servers \<and>
    ends_with accepts r (length servers) calls \<and> cached c c' calls"
  using assms
proof (induction servers arbitrary: c w)
  case Nil
  then show ?case by (intro exI [of _ "[]"]) (auto simp: ends_with_def cached_nil)
next
  case (Cons s servers)
  obtain ch c1 where stub: "GetStub c s = (ch, c1)" by fastforce
  obtain w1 x where call: "rpc ch q w = (w1, x)" by fastforce
  note ok = GetStub_ok [OF Cons.prems(1) stub]
  show ?case
  proof (cases "declined accepts x")
    case True
    then have "ask_servers rpc q accepts servers c1 w1 = (r, c', w')"
      using Cons.prems(2) by (auto simp: stub SendRequest_once call declined_def split: option.splits)
    then obtain calls where calls: "calls_run rpc q calls w1 w'"
      "map (\<lambda>x. ch_server (fst x)) calls = take (length calls) servers"
      "ends_with accepts r (length servers) calls" "cached c1 c' calls"
      using Cons.IH [OF ok(1)] by blast
    have "ends_with accepts r (length (s # servers)) ((ch, x) # calls)"
      using calls(3) True by (auto simp: ends_with_def split: option.splits)
    then show ?thesis
      using calls(1,2) call ok(2) cached_cons [OF Cons.prems(1) stub calls(4), of x]
      by (intro exI [of _ "(ch, x) # calls"]) simp
  next
    case False
    then obtain a where a: "x = Some a" "accepts a" by (auto simp: declined_def split: option.splits)
    then have "r = Some a" "c' = c1" "w' = w1"
      using Cons.prems(2) by (simp_all add: stub SendRequest_once call)
    then show ?thesis
      using a call ok(2) cached_cons [OF Cons.prems(1) stub cached_nil [OF ok(1)], of x]
      by (intro exI [of _ "[(ch, x)]"]) (simp add: ends_with_def)
  qed
qed

section \<open>Properties\<close>

text \<open>
  C37: A \<open>Put\<close> of the client library asks the servers in the configured order, each in the world that
  the call before left, and stops at the first that answers with success: it returns 0 when one
  does, and -1 when it has asked them all and none has. Whatever the calls answer and do. Every
  call goes over the channel that is cached for its server afterwards; channels that were cached
  stay, and exactly one is created for every server asked that had none.
\<close>

theorem sdk_put_first_success:
  assumes "rpc_client_ok (sdk_rpc_client s)" and "AirDBSdk_Put rpc s k v w = (code, s', w')"
  shows "\<exists>calls r. calls_run rpc (k, v) calls w w' \<and>
    map (\<lambda>x. ch_server (fst x)) calls = take (length calls) (server_members s) \<and>
    ends_with rp_success r (length (server_members s)) calls \<and> code = (if r = None then -1 else 0) \<and>
    cached (sdk_rpc_client s) (sdk_rpc_client s') calls \<and> server_members s' = server_members s"
proof -
  obtain r c where run: "ask_servers rpc (k, v) rp_success (server_members s) (sdk_rpc_client s) w = (r, c, w')"
    and s': "s' = s\<lparr>sdk_rpc_client := c\<rparr>" "code = code_of r"
    using assms(2) by (auto simp: AirDBSdk_Put_def ask_def split: prod.splits)
  then show ?thesis
    using ask_servers_calls [OF assms(1) run] by (auto simp: code_of_def split: option.split)
qed

definition sample_answer :: "string \<Rightarrow> sdk_reply option" where
  "sample_answer s = (if s = ''a'' then None else Some \<lparr>rp_success = (s = ''c''), rp_leader_id = []\<rparr>)"

theorem sdk_put_first_success_witness:
  "\<exists>s' w' c. AirDBSdk_Put (\<lambda>ch q w. (w @ [ch_server ch], sample_answer (ch_server ch)))
     (AirDBSdk_init [''a'', ''b'', ''c'', ''d'']) ''k'' ''v'' [] = (0, s', w') \<and> w' = [''a'', ''b'', ''c''] \<and>
     host_map (sdk_rpc_client s') ''c'' = Some c \<and> channels (sdk_rpc_client s') = 3"
proof -
  let ?rpc = "\<lambda>ch q w. (w @ [ch_server ch], sample_answer (ch_server ch))"
    and ?s = "AirDBSdk_init [''a'', ''b'', ''c'', ''d'']"
  obtain code s' w' where run: "AirDBSdk_Put ?rpc ?s ''k'' ''v'' [] = (code, s', w')"
    using prod_cases3 by blast
  then have out: "code = 0" "w' = [''a'', ''b'', ''c'']" "channels (sdk_rpc_client s') = 3"
    by (auto simp: AirDBSdk_Put_def ask_def AirDBSdk_init_def RpcClient_init_def GetStub_def SendRequest_once
        sample_answer_def code_of_def Let_def)
  obtain calls r where c: "map (\<lambda>x. ch_server (fst x)) calls = take (length calls) [''a'', ''b'', ''c'', ''d'']"
    "calls_run ?rpc (''k'', ''v'') calls [] w'" "list_all (\<lambda>(ch, r). host_map (sdk_rpc_client s') (ch_server ch) = Some ch) calls"
    using sdk_put_first_success [OF _ run] by (auto simp: AirDBSdk_init_def cached_def)
  have "w' = v @ map (\<lambda>x. ch_server (fst x)) calls" if "calls_run ?rpc q calls v w'" for q v calls
    using that by (induction calls arbitrary: v) fastforce+
  from this [OF c(2)] have "map (\<lambda>x. ch_server (fst x)) calls = [''a'', ''b'', ''c'']" using out(2) by simp
  then have "''c'' \<in> set (map (\<lambda>x. ch_server (fst x)) calls)" by (simp del: set_map)
  then obtain ch x where "(ch, x) \<in> set calls" "ch_server ch = ''c''" by auto
  then have "host_map (sdk_rpc_client s') ''c'' = Some ch" using c(3) by (auto simp: list_all_iff)
  then show ?thesis using run out by blast
qed

text \<open>
  \<open>SendRequest\<close> fails only when every one of its calls failed, the world of each call being
  what the call before it left; it pauses between calls only.
\<close>

lemma send_request_retries:
  "(fst (snd (SendRequest call n w)) = None \<longleftrightarrow>
      (\<forall>k < nat n. snd (call (((fst \<circ> call) ^^ k) w)) = None)) \<and>
   snd (snd (SendRequest call n w)) \<le> nat n - 1"
  using send_attempts_sleeps [of call "nat n" w] by (simp add: SendRequest_def send_attempts_fails)

text \<open>The table of the cluster: a head and a row for every server.\<close>

definition show_ok :: "nat \<Rightarrow> tprinter \<Rightarrow> bool" where
  "show_ok n p \<longleftrightarrow> printer_ok p \<and> 0 \<notin> set (col_width p) \<and> tp_cols p = 7 \<and> Rows p = n"

lemma show_ok_row: "show_ok n p \<Longrightarrow> show_ok (n + 1) (snd (AddRow_args p 7 (show_row i)))"
  using AddRow_ok [of p "map c_str (show_row i)"] AddRow_grows [of p "map c_str (show_row i)"]
    widths_stay_positive [of "col_width p" "col_width (snd (AddRow p (map c_str (show_row i))))"]
  by (simp add: show_ok_def AddRow_args_def show_row_def)

lemma show_ok_head: "show_ok 1 (snd (AddRow_args (TPrinter_init 7) 7 show_head))"
proof -
  have "printer_ok (snd (AddRow (TPrinter_init 7) (map c_str show_head)))"
    by (intro AddRow_ok TPrinter_init_ok) simp_all
  then show ?thesis
    by (simp add: show_ok_def AddRow_args_def AddRow_def TPrinter_init_def show_head_def c_str_def
        cut_cell_def kMaxColWidth_def Rows_def numeral_eq_Suc)
qed

lemma show_table_ok: "show_ok (length infos + 1) (show_table infos)"
proof -
  have "show_ok (length infos + k) (fold (\<lambda>i p. snd (AddRow_args p 7 (show_row i))) infos p)"
    if "show_ok k p" for k p
    using that
  proof (induction infos arbitrary: k p)
    case (Cons i infos)
    from Cons.IH [OF show_ok_row [OF Cons.prems]] show ?case by simp
  qed simp
  from this [OF show_ok_head] show ?thesis by (simp add: show_table_def)
qed

text \<open>
  The status table of the command line tool has one row per server below its head, whatever
  the servers answered, and all its rows are printed with the same length.
\<close>

lemma show_table_aligned:
  "Rows (show_table infos) = length infos + 1 \<and>
   (\<forall>line \<in> set (tp_table (show_table infos)).
      length (row_text (col_width (show_table infos)) line) = line_len (show_table infos))"
  using show_table_ok [of infos]
  by (auto simp: show_ok_def printer_ok_def line_len_def length_row_text)

end
