(* ===== verification/GcSpec.thy ===== *)
theory GcSpec
  imports ApplySpec GarbageCollection
begin

text \<open>
  What garbage collection of the log promises: a leader only asks for the deletion of entries
  that every server has applied, and a server that deletes can still read every entry it has yet
  to apply.
\<close>

lemma gc_min_applied_le:
  "gc_min_applied m answers = Some k \<Longrightarrow>
     k \<le> m \<and> (\<forall>r \<in> set answers. \<exists>x. r = Some x \<and> k \<le> sr_last_applied x)"
  by (induction m answers rule: gc_min_applied.induct) auto

text \<open>
  A round of garbage collection asks a server to delete only on a leader, only after every
  server answered, and only below a slot that every server reported as applied.
\<close>

lemma gc_asks_below_applied:
  assumes "GarbageClean interval n answers = (n', es)" and "SyncCleanBinlog addr i \<in> set es"
  shows "status n = kLeader \<and> addr \<in> set (all_server_addr n) \<and> last_safe_clean_index n' = i \<and>
    (\<forall>r \<in> set answers. \<exists>x. r = Some x \<and> i < sr_last_applied x)"
  using assms by (fastforce simp: GarbageClean_def Let_def dest!: gc_min_applied_le
      split: if_splits option.splits)

section \<open>Properties\<close>

text \<open>
  C27: A server that accepts to clean its log keeps what it has yet to apply: after the deletion
  the log still holds every slot from the last applied one, so the commit thread goes on as
  before; a request beyond what it has applied is refused.
\<close>

theorem gc_keeps_unapplied:
  assumes L: "leveldb_available L content" and ready: "commit_ready content lo log m n"
    and clean: "CleanBinlog n i = (ok, es)"
  shows "(ok \<longleftrightarrow> i \<le> last_applied_index n) \<and>
    (\<forall>k. AddDelBinlog k \<in> set es \<longrightarrow>
       k < last_applied_index n \<and> commit_ready content (max lo k) log m (DelBinlog L n k))"
proof -
  have ok: "ok \<longleftrightarrow> i \<le> last_applied_index n"
    and k: "AddDelBinlog k \<in> set es \<Longrightarrow> k < last_applied_index n" for k
    using clean by (auto simp: CleanBinlog_def split: if_splits)
  have "commit_ready content (max lo k) log m (DelBinlog L n k)" if "k < last_applied_index n" for k
    using ready that leveldb_laws.RemoveSlotBefore_rel [OF leveldb_available.axioms(1) [OF L]]
    by (auto simp: commit_ready_def DelBinlog_def)
  with ok k show ?thesis by blast
qed

theorem gc_keeps_unapplied_witness:
  "commit_ready map_of 0 sample_client_log
     (apply_spec sample_entry (\<lambda>_. None))
     (DelBinlog mem_leveldb (sample_replica\<lparr>last_applied_index := 0,
        data_store := [(''k'', type_and_value kPutOp ''value'')]\<rparr>) (-1))"
proof -
  let ?n = "sample_replica\<lparr>last_applied_index := 0,
    data_store := [(''k'', type_and_value kPutOp ''value'')]\<rparr>"
  have ready: "commit_ready map_of 0 sample_client_log (apply_spec sample_entry (\<lambda>_. None)) ?n"
    using sample_replica_ok
    by (simp add: replica_ok_def commit_ready_def store_rel_def apply_spec_def sample_entry_def)
  have "CleanBinlog ?n 0 = (True, [AddDelBinlog (-1)])" by (simp add: CleanBinlog_def)
  from gc_keeps_unapplied [OF mem.leveldb_available_axioms ready this] show ?thesis by simp
qed

end
