(* ===== verification/Anomalies.thy ===== *)
theory Anomalies
  imports ReplicationSpec ClientSpec
begin

text \<open>
  Behaviour of the program that the protocol it implements does not allow, found while modelling
  it: servers that restart vote twice in a term, a heartbeat commits entries the leader never
  sent, and a fresh cluster of five commits its first entry on two servers.
\<close>

section \<open>Restarts\<close>

text \<open>
  A restart opens the binlog again and runs the constructor on the databases of the server; the
  calls that were under way are lost.
\<close>

inductive crash_step :: "'db leveldb \<Rightarrow> string list \<Rightarrow> 'db cluster \<Rightarrow> 'db cluster \<Rightarrow> bool"
  for L M where
  runs: "cluster_step L M c c' \<Longrightarrow> crash_step L M c c'"
| restarts: "a \<in> set M \<Longrightarrow> BinLogger_open L (bl_db (binlogger (cl_node c a))) = Inr b \<Longrightarrow>
     AirDBImpl_init L a M b (data_store (cl_node c a)) d = Inr (n', es) \<Longrightarrow>
     crash_step L M c (c\<lparr>cl_node := (cl_node c)(a := n'),
       cl_calls := {p \<in> cl_calls c. fst p \<noteq> a}\<rparr>)"

lemma crash_steps: "(cluster_step L M)\<^sup>*\<^sup>* c c' \<Longrightarrow> (crash_step L M)\<^sup>*\<^sup>* c c'"
  by (erule mono_rtranclp [rule_format, rotated]) (rule runs)

lemma mem_binlog_Nil_open: "BinLogger_open mem_leveldb (bl_db (mem_binlog [])) = Inr (mem_binlog [])"
proof -
  have "IntToString 0 \<noteq> []" by (simp add: IntToString_def)
  then show ?thesis
    by (simp add: BinLogger_open_def mem_binlog_Nil mem_leveldb_def mem_get_def
        StringToInt_IntToString clamp_i32_def Let_def)
qed

lemma restart_second_leader:
  fixes a b d :: string
  assumes "distinct [a, b, d]"
  shows "\<exists>c. (crash_step mem_leveldb [a, b, d])\<^sup>*\<^sup>* (sample_cluster [a, b, d]) c \<and>
     {(1, a), (1, d)} \<subseteq> cl_elected c"
proof -
  let ?M = "[a, b, d]"
  have M: "length ?M = 3" "a \<in> set ?M" "b \<in> set ?M" "d \<in> set ?M" "a \<noteq> b" "d \<noteq> b" "d \<noteq> a"
    using assms by auto
  have fresh: "cl_node (sample_cluster ?M) x = sample_node x ?M []" for x
    by (simp add: sample_cluster_def)
  obtain c1 where s1: "(cluster_step mem_leveldb ?M)\<^sup>*\<^sup>* (sample_cluster ?M) c1"
    and e1: "(1, a) \<in> cl_elected c1" and b1: "cl_node c1 b = sample_voter b ?M a"
    and o1: "\<And>x. x \<noteq> a \<Longrightarrow> x \<noteq> b \<Longrightarrow> cl_node c1 x = cl_node (sample_cluster ?M) x"
    using sample_election [OF M(1,2,3,5) fresh fresh] by metis
  have b: "bl_db (binlogger (cl_node c1 b)) = bl_db (mem_binlog [])"
    "data_store (cl_node c1 b) = []" by (simp_all add: b1 sample_voter_def)
  define c2 where "c2 = c1\<lparr>cl_node := (cl_node c1)(b := sample_node b ?M []),
    cl_calls := {p \<in> cl_calls c1. fst p \<noteq> b}\<rparr>"
  have "BinLogger_open mem_leveldb (bl_db (binlogger (cl_node c1 b))) = Inr (mem_binlog [])"
    by (simp only: b mem_binlog_Nil_open)
  then have s2: "crash_step mem_leveldb ?M c1 c2"
    unfolding c2_def using sample_node_init [of b ?M "[]" 0] b(2)
    by (intro crash_step.restarts [OF M(3)]) simp_all
  have n2: "cl_node c2 d = sample_node d ?M []" "cl_node c2 b = sample_node b ?M []"
    using o1 [OF M(7,6)] fresh M(6) by (simp_all add: c2_def)
  obtain c3 where s3: "(cluster_step mem_leveldb ?M)\<^sup>*\<^sup>* c2 c3" and e3: "(1, d) \<in> cl_elected c3"
    "cl_elected c2 \<subseteq> cl_elected c3"
    using sample_election [OF M(1,4,3,6) n2] by metis
  have "(crash_step mem_leveldb ?M)\<^sup>*\<^sup>* (sample_cluster ?M) c3"
    using rtranclp_trans [OF rtranclp.rtrancl_into_rtrancl [OF crash_steps [OF s1] s2] crash_steps [OF s3]] .
  moreover have "(1, a) \<in> cl_elected c3" using e1 e3(2) by (auto simp: c2_def)
  ultimately show ?thesis using e3(1) by blast
qed

text \<open>
  C40: Election safety does not survive restarts. Of three servers, one wins the election of
  term 1 with the vote of the second; the second restarts, has forgotten its vote, and gives it
  to the third, which wins the election of the same term.
\<close>

theorem restart_two_leaders:
  "\<exists>c. (crash_step mem_leveldb [''a'', ''b'', ''c''])\<^sup>*\<^sup>* (sample_cluster [''a'', ''b'', ''c'']) c \<and>
     {(1, ''a''), (1, ''c'')} \<subseteq> cl_elected c"
  by (rule restart_second_leader) simp

section \<open>Heartbeats\<close>

text \<open>
  A heartbeat commits whatever the follower holds: its commit index becomes the smaller of
  its own last slot and the leader's commit index with no look at the entries, and the commit
  thread then applies the follower's entries up to there, though the leader may have committed
  others in these slots.
\<close>

lemma heartbeat_commits_own_entries:
  assumes L: "leveldb_available L content" and rep: "replica_ok content lo flog f"
    and run: "\<not> stop f" and req: "aq_entries req = []" "current_term f \<le> aq_term req"
    and c: "c = min (int (length flog) - 1) (aq_leader_commit_index req)"
      "last_applied_index f \<le> c" "c < 2147483647"
  shows "\<exists>f1 es1 res f2 es2. AppendEntriesImpl L f req = Inr (f1, es1, res) \<and> ar_success res \<and>
    commit_index f1 = c \<and> CommitIndex L f1 = Inr (f2, es2) \<and> last_applied_index f2 = c \<and>
    store_rel content (data_store f2) (fold apply_spec (take (nat (c + 1)) flog) (\<lambda>_. None))"
proof -
  let ?f = "f\<lparr>status := kFollower, current_term := aq_term req, cur_leader_addr := aq_leader_id req,
    headbeat_cnt := headbeat_cnt f + 1, commit_index := c\<rparr>"
  have rel: "binlog_rel content lo (binlogger f) flog"
    using rep by (simp add: replica_ok_def commit_ready_def)
  have "log_length f = int (length flog)" using leveldb_available.log_length_rel [OF L rel] .
  then have append: "\<exists>es res. AppendEntriesImpl L f req = Inr (?f, es, res) \<and> ar_success res"
    using req c(1)
    by (simp add: AppendEntriesImpl_def AppendEntries_check_def AppendEntries_write_def
        AppendEntries_finish_def ae_reply_def log_length_def Let_def)
  have "replica_ok content lo flog ?f" using rep by (simp add: replica_ok_def commit_ready_def)
  then obtain f2 es2 where "CommitIndex L ?f = Inr (f2, es2)" "last_applied_index f2 = c"
    "store_rel content (data_store f2) (fold apply_spec (take (nat (c + 1)) flog) (\<lambda>_. None))"
    by (rule leveldb_available.CommitIndex_replica [OF L]) (use run c in auto)
  with append show ?thesis by fastforce
qed

section \<open>The first slot\<close>

text \<open>
  In a cluster of five, the leader's own missing match index counts as 0, so the first slot
  is committed as soon as one follower holds it: two servers out of five, no majority.
\<close>

lemma first_slot_minority_commit:
  "\<exists>n' es. UpdateCommitIndex
     (sample_node ''a'' [''a'', ''b'', ''c'', ''d'', ''e''] []
        \<lparr>status := kLeader, match_index := [''b'' \<mapsto> 0, ''c'' \<mapsto> -1, ''d'' \<mapsto> -1, ''e'' \<mapsto> -1]\<rparr>) 0 =
       (n', es) \<and>
     commit_index n' = 0 \<and> \<not> majority [''a'', ''b'', ''c'', ''d'', ''e''] {''a'', ''b''}"
proof -
  let ?M = "[''a'', ''b'', ''c'', ''d'', ''e'']"
  let ?n = "sample_node ''a'' ?M []
    \<lparr>status := kLeader, match_index := [''b'' \<mapsto> 0, ''c'' \<mapsto> -1, ''d'' \<mapsto> -1, ''e'' \<mapsto> -1]\<rparr>"
  obtain n' es where run: "UpdateCommitIndex ?n 0 = (n', es)" by fastforce
  have "match_count ?n 0 ?M = 2" by (simp add: match_count_def at_default_def)
  then have "commit_index n' = 0"
    using update_commit_loop_exact [OF run [unfolded UpdateCommitIndex_def]] by (simp add: Let_def)
  moreover have "\<not> majority ?M {''a'', ''b''}" by (simp add: majority_def)
  ultimately show ?thesis using run by blast
qed

end
