(* ===== verification/StableLeader.thy ===== *)
theory StableLeader
  imports ReplicationSpec ClientSpec
begin

text \<open>
  A whole cluster under one leader, at the granularity of the mutexes: client calls, the
  \<open>ReplicateLog\<close> threads with their calls under way, the append handler in its three parts,
  heartbeats, and the commit threads with the application of an entry and its acknowledgement
  apart, in any order and interleaving. Assumed is that the leader stays (no election timer
  starts a round, nobody restarts) and that the network, which may lose a request and delay
  anything, does not lose the answer of an append request that was handled.
\<close>

section \<open>The state\<close>

text \<open>
  Where a \<open>ReplicateLog\<close> thread and its call stand: between two turns, with the request prepared,
  called, checked by the follower, written by it, or answered (\<open>None\<close>: the call failed).
\<close>

datatype repl_pc =
    Idle
  | Prepared repl_ctx
  | Called repl_ctx int append_entries_request
  | Checked repl_ctx int append_entries_request
  | Written repl_ctx int append_entries_request
  | Returned repl_ctx int "append_entries_response option"

record 'db group =
  gr_node :: "string \<Rightarrow> 'db node"
  gr_thread :: "string \<Rightarrow> repl_pc"
  gr_ok :: "string \<Rightarrow> bool"                  \<comment> \<open>\<open>latest_replicating_ok\<close> of a thread\<close>
  gr_end :: "string \<Rightarrow> int"                  \<comment> \<open>\<open>end_idx\<close> of a server's commit thread\<close>
  gr_applied :: "string \<Rightarrow> bool"             \<comment> \<open>an entry is applied and not yet acknowledged\<close>
  gr_beats :: "append_entries_request set"    \<comment> \<open>heartbeats that were sent\<close>
  gr_answers :: "append_entries_response set" \<comment> \<open>their answers\<close>

section \<open>The steps\<close>

text \<open>A writing call of a client that the leader accepts, on a key that is not the position's.\<close>

definition client_call :: "'db leveldb \<Rightarrow> 'db node \<Rightarrow> 'db node \<Rightarrow> bool" where
  "client_call L n n' \<longleftrightarrow>
     (\<exists>c k v es. k \<noteq> tag_last_applied_index \<and> entry_ok (call_entry n kLockOp k v) \<and>
        (Put L n c k v = Inr (Inr (n', es)) \<or> Delete L n c k = Inr (Inr (n', es)) \<or>
         v = k \<and> (Lock L n c k = Inr (Inr (n', es)) \<or> UnLock L n c k = Inr (Inr (n', es)))))"

definition set_node :: "string \<Rightarrow> 'db node \<Rightarrow> 'db group \<Rightarrow> 'db group" where
  "set_node a n g = g\<lparr>gr_node := (gr_node g)(a := n)\<rparr>"

definition set_thread :: "string \<Rightarrow> repl_pc \<Rightarrow> 'db group \<Rightarrow> 'db group" where
  "set_thread a pc g = g\<lparr>gr_thread := (gr_thread g)(a := pc)\<rparr>"

text \<open>
  The loop variable \<open>int i\<close> of \<open>CommitIndex\<close>: it starts as \<open>last_applied_index_ + 1\<close>, a 64-bit value
  converted to \<open>int\<close>, and is incremented with \<open>last_applied_index_\<close>. Past 2147483647 it is no number
  of a slot (the conversion gives a negative number, the increment overflows): the assertion on
  the slot ends the process, and the commit thread applies nothing more.
\<close>

definition loop_slot :: "'db node \<Rightarrow> int" where
  "loop_slot n = i32 (last_applied_index n + 1)"

inductive group_step ::
  "'db leveldb \<Rightarrow> string \<Rightarrow> string list \<Rightarrow> 'db group \<Rightarrow> 'db group \<Rightarrow> bool"
  for L A M where
  client: "client_call L (gr_node g A) n' \<Longrightarrow> group_step L A M g (set_node A n' g)"
| prepare: "a \<in> set M - {A} \<Longrightarrow> gr_thread g a = Idle \<Longrightarrow>
     ReplicateLog_prepare L (gr_node g A) a (gr_ok g a) = Inr (n', ReplSend c) \<Longrightarrow>
     group_step L A M g (set_thread a (Prepared c) (set_node A n' g))"
| collect: "a \<in> set M - {A} \<Longrightarrow> gr_thread g a = Prepared c \<Longrightarrow>
     ReplicateLog_collect L (gr_node g A) c = Inr (Some (req, mt)) \<Longrightarrow>
     group_step L A M g (set_thread a (Called c mt req) g)"
| lose: "a \<in> set M - {A} \<Longrightarrow> gr_thread g a = Called c mt req \<Longrightarrow>
     group_step L A M g (set_thread a (Returned c mt None) g)"
| inspect: "a \<in> set M - {A} \<Longrightarrow> gr_thread g a = Called c mt req \<Longrightarrow>
     AppendEntries_check L (gr_node g a) req = Inr (n', reply) \<Longrightarrow>
     group_step L A M g
       (set_thread a (if reply = None then Checked c mt req else Returned c mt reply)
         (set_node a n' g))"
| store: "a \<in> set M - {A} \<Longrightarrow> gr_thread g a = Checked c mt req \<Longrightarrow>
     AppendEntries_write L (gr_node g a) req = Inr n' \<Longrightarrow>
     group_step L A M g (set_thread a (Written c mt req) (set_node a n' g))"
| answer: "a \<in> set M - {A} \<Longrightarrow> gr_thread g a = Written c mt req \<Longrightarrow>
     AppendEntries_finish (gr_node g a) req = (n', es, res) \<Longrightarrow>
     group_step L A M g (set_thread a (Returned c mt (Some res)) (set_node a n' g))"
| turn: "a \<in> set M - {A} \<Longrightarrow> gr_thread g a = Returned c mt ret \<Longrightarrow>
     ReplicateLog_finish (gr_node g A) a c mt (gr_ok g a) ret = (n', ok, es, go) \<Longrightarrow>
     group_step L A M g (set_thread a Idle (set_node A n' (g\<lparr>gr_ok := (gr_ok g)(a := ok)\<rparr>)))"
| beat: "group_step L A M g
     (g\<lparr>gr_beats := insert (heartbeat_request (gr_node g A)) (gr_beats g)\<rparr>)"
| beat_handled: "a \<in> set M - {A} \<Longrightarrow> req \<in> gr_beats g \<Longrightarrow>
     AppendEntriesImpl L (gr_node g a) req = Inr (n', es, res) \<Longrightarrow>
     group_step L A M g (set_node a n' (g\<lparr>gr_answers := insert res (gr_answers g)\<rparr>))"
| beat_answered: "failed \<or> res \<in> gr_answers g \<Longrightarrow>
     group_step L A M g (set_node A (HeartBeatCallBack (gr_node g A) res failed) g)"
| timer: "a \<in> set M \<Longrightarrow> \<not> starts_round (gr_node g a) \<Longrightarrow>
     VoteLeader (gr_node g a) d = (n', es) \<Longrightarrow> group_step L A M g (set_node a n' g)"
| wake: "a \<in> set M \<Longrightarrow> gr_end g a \<le> last_applied_index (gr_node g a) \<Longrightarrow>
     last_applied_index (gr_node g a) < commit_index (gr_node g a) \<Longrightarrow>
     group_step L A M g (g\<lparr>gr_end := (gr_end g)(a := commit_index (gr_node g a))\<rparr>)"
| apply_entry: "a \<in> set M \<Longrightarrow> \<not> gr_applied g a \<Longrightarrow>
     last_applied_index (gr_node g a) < gr_end g a \<Longrightarrow> 0 \<le> loop_slot (gr_node g a) \<Longrightarrow>
     CommitIndex_apply L (gr_node g a) (loop_slot (gr_node g a)) = Inr n' \<Longrightarrow>
     group_step L A M g (set_node a n' (g\<lparr>gr_applied := (gr_applied g)(a := True)\<rparr>))"
| acknowledge: "a \<in> set M \<Longrightarrow> gr_applied g a \<Longrightarrow>
     CommitIndex_ack L (gr_node g a) (loop_slot (gr_node g a)) = (n', es) \<Longrightarrow>
     group_step L A M g (set_node a n' (g\<lparr>gr_applied := (gr_applied g)(a := False)\<rparr>))"

text \<open>
  The start: servers that have run nothing but elections since they were constructed on empty
  databases, one of which has won and is followed by the others.
\<close>

definition fresh_node ::
  "'db leveldb \<Rightarrow> ('db \<Rightarrow> string \<Rightarrow> string option) \<Rightarrow> string list \<Rightarrow> string \<Rightarrow> 'db node \<Rightarrow> bool"
where
  "fresh_node L content M a n \<longleftrightarrow>
     (\<exists>b ds d es. AirDBImpl_init L a M b ds d = Inr (n, es) \<and> binlog_rel content 0 b [] \<and>
        content ds = (\<lambda>_. None))"

inductive elect_step :: "'db leveldb \<Rightarrow> 'db node \<Rightarrow> 'db node \<Rightarrow> bool" for L where
  round: "VoteLeader n d = (n', es) \<Longrightarrow> elect_step L n n'"
| ballot: "Vote n r = (n', res) \<Longrightarrow> elect_step L n n'"
| count: "VoteCallBack L n res failed = Inr (n', es) \<Longrightarrow> elect_step L n n'"

definition only_elections ::
  "'db leveldb \<Rightarrow> ('db \<Rightarrow> string \<Rightarrow> string option) \<Rightarrow> string list \<Rightarrow> string \<Rightarrow> 'db node \<Rightarrow> bool"
where
  "only_elections L content M a n \<longleftrightarrow> (\<exists>m. fresh_node L content M a m \<and> (elect_step L)\<^sup>*\<^sup>* m n)"

definition group_start ::
  "'db leveldb \<Rightarrow> ('db \<Rightarrow> string \<Rightarrow> string option) \<Rightarrow> string \<Rightarrow> string list \<Rightarrow> 'db group \<Rightarrow> bool"
where
  "group_start L content A M g \<longleftrightarrow>
     A \<in> set M \<and> distinct M \<and> (\<forall>a \<in> set M. only_elections L content M a (gr_node g a)) \<and>
     status (gr_node g A) = kLeader \<and> in_i64 (current_term (gr_node g A)) \<and>
     (\<forall>a \<in> set M - {A}. status (gr_node g a) = kFollower \<and>
        current_term (gr_node g a) \<le> current_term (gr_node g A)) \<and>
     gr_thread g = (\<lambda>_. Idle) \<and> gr_ok g = (\<lambda>_. True) \<and> gr_end g = (\<lambda>_. -1) \<and>
     gr_applied g = (\<lambda>_. False) \<and> gr_beats g = {} \<and> gr_answers g = {}"

inductive group_reachable ::
  "'db leveldb \<Rightarrow> ('db \<Rightarrow> string \<Rightarrow> string option) \<Rightarrow> string \<Rightarrow> string list \<Rightarrow> 'db group \<Rightarrow> bool"
  for L content A M where
  start: "group_start L content A M g \<Longrightarrow> group_reachable L content A M g"
| step: "group_reachable L content A M g \<Longrightarrow> group_step L A M g g' \<Longrightarrow>
     group_reachable L content A M g'"

lemma loop_slot_eq:
  assumes "-1 \<le> last_applied_index n" and "last_applied_index n < 2147483647"
  shows "loop_slot n = last_applied_index n + 1"
  using assms by (simp add: loop_slot_def i32_id in_i32_def)

lemma loop_slot_nonneg:
  assumes "-1 \<le> last_applied_index n" and "last_applied_index n \<le> 2147483647" and "0 \<le> loop_slot n"
  shows "last_applied_index n < 2147483647" and "loop_slot n = last_applied_index n + 1"
proof -
  have "last_applied_index n \<noteq> 2147483647"
    using assms(3) by (auto simp: loop_slot_def i32_def)
  then show "last_applied_index n < 2147483647" using assms(2) by simp
  then show "loop_slot n = last_applied_index n + 1" using assms(1) by (simp add: loop_slot_eq)
qed

lemma set_node_simps [simp]:
  "gr_node (set_node a n g) = (gr_node g)(a := n)"
  "gr_thread (set_node a n g) = gr_thread g"
  "gr_ok (set_node a n g) = gr_ok g"
  "gr_end (set_node a n g) = gr_end g"
  "gr_applied (set_node a n g) = gr_applied g"
  "gr_beats (set_node a n g) = gr_beats g"
  "gr_answers (set_node a n g) = gr_answers g"
  by (simp_all add: set_node_def)

lemma set_thread_simps [simp]:
  "gr_thread (set_thread a pc g) = (gr_thread g)(a := pc)"
  "gr_node (set_thread a pc g) = gr_node g"
  "gr_ok (set_thread a pc g) = gr_ok g"
  "gr_end (set_thread a pc g) = gr_end g"
  "gr_applied (set_thread a pc g) = gr_applied g"
  "gr_beats (set_thread a pc g) = gr_beats g"
  "gr_answers (set_thread a pc g) = gr_answers g"
  by (simp_all add: set_thread_def)

end
