(* ===== verification/StableInv.thy ===== *)
theory StableInv
  imports StableLeader
begin

text \<open>
  The invariant of a cluster under one leader, and that every step keeps it: the log of every
  server is a prefix of the leader's, a \<open>ReplicateLog\<close> thread and its call agree with the log of
  their follower, every data store is the applied prefix of the leader's log, and nothing beyond
  the leader's commit index is applied anywhere.
\<close>

section \<open>The invariant\<close>

definition ctx_ok :: "binlog_entry list \<Rightarrow> int \<Rightarrow> int \<Rightarrow> int \<Rightarrow> repl_ctx \<Rightarrow> bool" where
  "ctx_ok llog T cmax i c \<longleftrightarrow>
     rc_index c = i \<and> 0 \<le> i \<and> 0 < rc_batch c \<and> i + rc_batch c \<le> int (length llog) \<and>
     rc_term c = T \<and> rc_prev_index c = i - 1 \<and> rc_prev_term c = term_at llog (i - 1) \<and>
     rc_commit c \<le> cmax"

definition req_of :: "binlog_entry list \<Rightarrow> string \<Rightarrow> repl_ctx \<Rightarrow> append_entries_request" where
  "req_of llog A c =
     \<lparr>aq_term = rc_term c, aq_leader_id = A, aq_prev_log_index = rc_prev_index c,
      aq_prev_log_term = rc_prev_term c, aq_leader_commit_index = rc_commit c,
      aq_entries = map pb_of_entry (take (nat (rc_batch c)) (drop (nat (rc_index c)) llog))\<rparr>"

text \<open>A thread with next index \<open>i\<close>, against the length of its follower's log.\<close>

fun thread_ok ::
  "binlog_entry list \<Rightarrow> int \<Rightarrow> string \<Rightarrow> int \<Rightarrow> int \<Rightarrow> int \<Rightarrow> repl_pc \<Rightarrow> bool"
where
  "thread_ok llog T A cmax len i Idle \<longleftrightarrow> len \<le> i"
| "thread_ok llog T A cmax len i (Prepared c) \<longleftrightarrow> ctx_ok llog T cmax i c \<and> len \<le> i"
| "thread_ok llog T A cmax len i (Called c mt req) \<longleftrightarrow>
     ctx_ok llog T cmax i c \<and> req = req_of llog A c \<and> len \<le> i"
| "thread_ok llog T A cmax len i (Checked c mt req) \<longleftrightarrow>
     ctx_ok llog T cmax i c \<and> req = req_of llog A c \<and> len = i"
| "thread_ok llog T A cmax len i (Written c mt req) \<longleftrightarrow>
     ctx_ok llog T cmax i c \<and> req = req_of llog A c \<and> len = i + rc_batch c"
| "thread_ok llog T A cmax len i (Returned c mt None) \<longleftrightarrow> ctx_ok llog T cmax i c \<and> len \<le> i"
| "thread_ok llog T A cmax len i (Returned c mt (Some res)) \<longleftrightarrow>
     ctx_ok llog T cmax i c \<and> ar_current_term res \<le> T \<and>
     (if ar_success res then len = i + rc_batch c
      else len \<le> i \<and> ar_log_length res = len \<and> (ar_is_busy res \<or> len < i))"

definition server_ok ::
  "('db \<Rightarrow> string \<Rightarrow> string option) \<Rightarrow> int \<Rightarrow> binlog_entry list \<Rightarrow> int \<Rightarrow> int \<Rightarrow> bool \<Rightarrow>
     int \<Rightarrow> binlog_entry list \<Rightarrow> 'db node \<Rightarrow> bool"
where
  "server_ok content lo llog T cmax half fin log n \<longleftrightarrow>
     binlog_rel content lo (binlogger n) log \<and> lo \<le> max 0 (last_applied_index n) \<and>
     log = take (length log) llog \<and> current_term n \<le> T \<and> commit_index n < int (length log) \<and> commit_index n \<le> cmax \<and>
     fin < int (length log) \<and> fin \<le> cmax \<and>
     -1 \<le> last_applied_index n \<and> last_applied_index n < int (length log) \<and>
     last_applied_index n \<le> cmax \<and> (half \<longrightarrow> last_applied_index n < fin) \<and>
     last_applied_index n + (if half then 1 else 0) \<le> 2147483647 \<and>
     store_rel content (data_store n)
       (fold apply_spec (take (nat (last_applied_index n + 1) + (if half then 1 else 0)) llog) (\<lambda>_. None))"

definition leader_ok :: "string \<Rightarrow> string list \<Rightarrow> binlog_entry list \<Rightarrow> 'db node \<Rightarrow> bool" where
  "leader_ok A M llog l \<longleftrightarrow>
     status l = kLeader \<and> \<not> stop l \<and> self_addr l = A \<and> all_server_addr l = M \<and>
     match_index l A \<in> {None, Some 0} \<and> list_all client_entry llog \<and>
     0 \<le> current_term l \<and> (\<forall>e \<in> set llog. be_term e = current_term l)"

definition follower_ok ::
  "binlog_entry list \<Rightarrow> string \<Rightarrow> 'db node \<Rightarrow> binlog_entry list \<Rightarrow> repl_pc \<Rightarrow> 'db node \<Rightarrow> string \<Rightarrow> bool"
where
  "follower_ok llog A l log pc n a \<longleftrightarrow>
     status n = kFollower \<and>
     (\<exists>i m. next_index l a = Some i \<and> match_index l a = Some m \<and> 0 \<le> i \<and> i \<le> int (length llog) \<and>
        m < int (length log) \<and>
        thread_ok llog (current_term l) A (commit_index l) (int (length log)) i pc)"

definition beats_ok :: "'db node \<Rightarrow> append_entries_request set \<Rightarrow> append_entries_response set \<Rightarrow> bool"
where
  "beats_ok l beats answers \<longleftrightarrow>
     (\<forall>r \<in> beats. aq_entries r = [] \<and> aq_term r = current_term l \<and>
        aq_leader_commit_index r \<le> commit_index l) \<and>
     (\<forall>r \<in> answers. ar_current_term r \<le> current_term l)"

definition held_by :: "string list \<Rightarrow> (string \<Rightarrow> binlog_entry list) \<Rightarrow> int \<Rightarrow> bool" where
  "held_by M log i \<longleftrightarrow> i \<le> 0 \<or> majority M {a \<in> set M. i < int (length (log a))}"

definition group_inv ::
  "('db \<Rightarrow> string \<Rightarrow> string option) \<Rightarrow> int \<Rightarrow> string \<Rightarrow> string list \<Rightarrow>
     (string \<Rightarrow> binlog_entry list) \<Rightarrow> 'db group \<Rightarrow> bool"
where
  "group_inv content lo A M log g \<longleftrightarrow>
     A \<in> set M \<and> distinct M \<and> leader_ok A M (log A) (gr_node g A) \<and>
     (\<forall>a \<in> set M. server_ok content lo (log A) (current_term (gr_node g A))
        (commit_index (gr_node g A)) (gr_applied g a) (gr_end g a) (log a) (gr_node g a)) \<and>
     (\<forall>a \<in> set M - {A}. follower_ok (log A) A (gr_node g A) (log a) (gr_thread g a) (gr_node g a) a) \<and>
     beats_ok (gr_node g A) (gr_beats g) (gr_answers g) \<and>
     held_by M log (commit_index (gr_node g A))"

section \<open>Growth\<close>

text \<open>The invariant of one server and one thread survives the growth of the leader's log.\<close>

lemma term_at_append: "i < int (length xs) \<Longrightarrow> term_at (xs @ ys) i = term_at xs i"
  by (simp add: term_at_def nth_append nat_less_iff)

lemma ctx_ok_grow:
  "ctx_ok llog T cmax i c \<Longrightarrow> cmax \<le> cmax' \<Longrightarrow> ctx_ok (llog @ es) T cmax' i c"
  by (auto simp: ctx_ok_def term_at_append)

lemma req_of_grow:
  assumes "ctx_ok llog T cmax i c"
  shows "req_of (llog @ es) A c = req_of llog A c"
proof -
  have "nat (rc_batch c) - (length llog - nat i) = 0" "nat i \<le> length llog"
    using assms by (auto simp: ctx_ok_def)
  then show ?thesis using assms by (simp add: req_of_def ctx_ok_def)
qed

lemma thread_ok_grow:
  "thread_ok llog T A cmax len i pc \<Longrightarrow> cmax \<le> cmax' \<Longrightarrow> thread_ok (llog @ es) T A cmax' len i pc"
  by (cases "(llog, T, A, cmax, len, i, pc)" rule: thread_ok.cases)
    (auto simp: req_of_grow intro: ctx_ok_grow)

lemma server_ok_bound:
  assumes "server_ok content lo llog T cmax half fin log n"
  shows "nat (last_applied_index n + 1) + (if half then 1 else 0) \<le> length log"
    and "length log \<le> length llog"
proof -
  have "log = take (length log) llog" using assms by (simp add: server_ok_def)
  then show "length log \<le> length llog" by (metis length_take min.cobounded1 min_def nat_le_linear)
  show "nat (last_applied_index n + 1) + (if half then 1 else 0) \<le> length log"
    using assms by (auto simp: server_ok_def)
qed

lemma server_ok_lo:
  "server_ok content lo llog T cmax half fin log n \<Longrightarrow> int (length log) \<le> i \<Longrightarrow> lo \<le> max 0 (i - 1)"
  by (auto simp: server_ok_def)

lemma server_ok_grow:
  assumes ok: "server_ok content lo llog T cmax half fin log n" and "cmax \<le> cmax'"
  shows "server_ok content lo (llog @ es) T cmax' half fin log n"
proof -
  have "take (length log) (llog @ es) = take (length log) llog"
    "take (nat (last_applied_index n + 1) + (if half then 1 else 0)) (llog @ es) =
      take (nat (last_applied_index n + 1) + (if half then 1 else 0)) llog"
    using server_ok_bound [OF ok] by auto
  then show ?thesis using assms by (auto simp: server_ok_def)
qed

lemma server_ok_frame:
  assumes "server_ok content lo llog T cmax half fin log n" and "binlogger n' = binlogger n"
    and "commit_index n' = commit_index n" and "last_applied_index n' = last_applied_index n"
    and "data_store n' = data_store n" and "current_term n' \<le> T"
  shows "server_ok content lo llog T cmax half fin log n'"
  using assms by (simp add: server_ok_def)

lemma held_by_mono:
  assumes "held_by M log i" and "\<And>a. a \<in> set M \<Longrightarrow> length (log a) \<le> length (log' a)"
  shows "held_by M log' i"
proof (cases "i \<le> 0")
  case False
  then have "majority M {a \<in> set M. i < int (length (log a))}"
    using assms(1) by (simp add: held_by_def)
  moreover have "card {a \<in> set M. i < int (length (log a))} \<le> card {a \<in> set M. i < int (length (log' a))}"
    using assms(2) by (intro card_mono) (fastforce dest: order_less_le_trans)+
  ultimately show ?thesis by (simp add: held_by_def majority_def)
qed (simp add: held_by_def)

section \<open>What the operations do\<close>

context leveldb_available
begin

lemma client_call_rel:
  assumes call: "client_call L n n'" and lead: "status n = kLeader"
    and rel: "binlog_rel content lo (binlogger n) log"
  obtains e where "client_entry e" and "be_term e = current_term n" and "binlog_rel content lo (binlogger n') (log @ [e])"
    and "\<exists>a. n' = n\<lparr>binlogger := binlogger n',
      sdk_ack_map := (sdk_ack_map n)(int (length log) := Some a)\<rparr>"
proof -
  obtain c k v es where k: "k \<noteq> tag_last_applied_index" and ok: "entry_ok (call_entry n kLockOp k v)"
    and run: "Put L n c k v = Inr (Inr (n', es)) \<or> Delete L n c k = Inr (Inr (n', es)) \<or>
      v = k \<and> (Lock L n c k = Inr (Inr (n', es)) \<or> UnLock L n c k = Inr (Inr (n', es)))"
    using call by (auto simp: client_call_def)
  note calls = leader_calls [OF lead rel ok, of c]
  have "\<exists>e f. be_key e = k \<and> be_term e = current_term n \<and> call_logged content lo log e f n n'"
    using run calls unfolding call_entry_def by (elim disjE conjE) force+
  then obtain e f where e: "be_key e = k" "be_term e = current_term n" and logged: "call_logged content lo log e f n n'" by blast
  then show thesis
    using k unfolding call_logged_def by (intro that [of e]) (auto simp: client_entry_def)
qed

text \<open>A thread of the leader prepares a request, and copies the entries into it.\<close>

lemma prepare_eq:
  assumes rel: "binlog_rel content lo (binlogger l) llog"
    and st: "status l = kLeader" "\<not> stop l"
    and i: "next_index l a = Some i" "0 \<le> i" "i \<le> int (length llog)" and lo: "lo \<le> max 0 (i - 1)"
  shows "ReplicateLog_prepare L l a ok = Inr (l,
    if i = int (length llog) then ReplWait
    else ReplSend \<lparr>rc_index = i, rc_term = current_term l, rc_prev_index = i - 1,
      rc_prev_term = term_at llog (i - 1), rc_commit = commit_index l,
      rc_batch = (if ok then int (length llog) - i else 1)\<rparr>)"
proof -
  have touch: "l\<lparr>next_index := touch 0 a (next_index l)\<rparr> = l"
    using i(1) by (simp add: touch_def at_default_def fun_upd_idem)
  have len: "log_length l = int (length llog)" by (rule log_length_rel [OF rel])
  have "ReadSlot L (binlogger l) (i - 1) = Inr (Some (llog ! nat (i - 1)))" if "-1 < i - 1"
    using log.read_holds [OF rel, of "i - 1"] that i lo by simp
  then show ?thesis
    using i st by (auto simp: ReplicateLog_prepare_def Let_def touch len at_default_def term_at_def min_def
        Suc_le_eq)
qed

lemma prepare_rel:
  assumes rel: "binlog_rel content lo (binlogger l) llog" and st: "status l = kLeader" "\<not> stop l"
    and i: "next_index l a = Some i" "0 \<le> i" "i \<le> int (length llog)" and lo: "lo \<le> max 0 (i - 1)"
    and run: "ReplicateLog_prepare L l a ok = Inr (l', ReplSend c)"
  shows "l' = l" and "ctx_ok llog (current_term l) (commit_index l) i c"
  using run i unfolding prepare_eq [OF rel st i lo] by (auto simp: ctx_ok_def split: if_splits)

lemma collect_eq:
  assumes rel: "binlog_rel content lo (binlogger l) llog" and c: "ctx_ok llog T cmax i c"
    and lo: "lo \<le> max 0 (i - 1)"
  shows "\<exists>mt. ReplicateLog_collect L l c = Inr (Some (req_of llog (self_addr l) c, mt))"
  using collect_entries_rel [OF rel, of "rc_index c" "nat (rc_batch c)"] c lo
  by (auto simp: ReplicateLog_collect_def ctx_ok_def req_of_def)

text \<open>
  The follower looks at the request: with its log a prefix of the leader's it never cuts it, and
  goes on only when the request starts right behind its log.
\<close>

lemma check_eq:
  fixes A :: string
  assumes ok: "server_ok content lo llog T cmax half fin log n" and c: "ctx_ok llog T cmax' i c"
    and len: "int (length log) \<le> i"
  defines "n' \<equiv> n\<lparr>status := kFollower, current_term := T, cur_leader_addr := A,
    headbeat_cnt := headbeat_cnt n + 1\<rparr>"
  shows "AppendEntries_check L n (req_of llog A c) = Inr (n',
    if int (length log) < i then Some (ae_reply n' False (int (length log)) False)
    else if commit_index n - last_applied_index n > 100000
    then Some (ae_reply n' False (int (length log)) True) else None)"
proof -
  let ?req = "req_of llog A c"
  have rel: "binlog_rel content lo (binlogger n') log" and pre: "log = take (length log) llog"
    and T: "current_term n \<le> T" using ok by (auto simp: server_ok_def n'_def)
  have lenn: "log_length n' = int (length log)" by (rule log_length_rel [OF rel])
  have req: "aq_term ?req = T" "aq_leader_id ?req = A" "aq_prev_log_index ?req = i - 1"
    "aq_prev_log_term ?req = term_at llog (i - 1)" "aq_entries ?req \<noteq> []"
    using c by (auto simp: req_of_def ctx_ok_def)
  note defs = AppendEntries_check_def Let_def n'_def [symmetric]
  show ?thesis
  proof (cases "int (length log) < i")
    case True
    then show ?thesis using T lenn req by (simp add: defs)
  next
    case False
    then have i: "int (length log) = i" using len by simp
    have "prev_term_of L n' (i - 1) = Inr (term_at log (i - 1))"
      using i server_ok_lo [OF ok len] by (intro prev_term_of_rel [OF rel]) auto
    moreover have "term_at log (i - 1) = term_at llog (i - 1)"
      using i by (subst pre) (auto simp: term_at_def nat_less_iff)
    ultimately show ?thesis using False T lenn req by (simp add: defs) (simp add: n'_def)
  qed
qed

lemma check_rel:
  assumes "server_ok content lo llog T cmax half fin log n" and "ctx_ok llog T cmax' i c"
    and "int (length log) \<le> i" and "AppendEntries_check L n (req_of llog A c) = Inr (n', reply)"
  obtains h where "n' = n\<lparr>status := kFollower, current_term := T, cur_leader_addr := A, headbeat_cnt := h\<rparr>"
    and "reply = None \<Longrightarrow> int (length log) = i"
    and "\<And>res. reply = Some res \<Longrightarrow> ar_current_term res = T \<and> \<not> ar_success res \<and>
      ar_log_length res = int (length log) \<and> (ar_is_busy res \<or> int (length log) < i)"
  using assms(3,4) unfolding check_eq [OF assms(1-3)]
  by (intro that [of "headbeat_cnt n + 1"]) (auto simp: ae_reply_def split: if_splits)

text \<open>The follower writes the entries, which extend its log by the next ones of the leader's.\<close>

lemma take_drop_prefix:
  "xs = take (length xs) ys \<Longrightarrow> int (length xs) = i \<Longrightarrow> 0 \<le> k \<Longrightarrow> i + k \<le> int (length ys) \<Longrightarrow>
     xs @ take (nat k) (drop (nat i) ys) = take (nat (i + k)) ys"
  by (metis nat_add_distrib nat_int of_nat_0_le_iff take_add)

lemma store_entries_rel:
  assumes ok: "server_ok content lo llog T cmax half fin log n" and c: "ctx_ok llog T cmax' i c"
    and len: "int (length log) = i" and llog: "\<forall>e \<in> set llog. entry_ok e"
  obtains b log' where "AppendEntries_write L n (req_of llog A c) = Inr (n\<lparr>binlogger := b\<rparr>)" and "binlog_rel content lo b log'"
    and "log' = take (length log') llog" and "int (length log') = i + rc_batch c"
proof -
  let ?es = "take (nat (rc_batch c)) (drop (nat i) llog)"
  have rel: "binlog_rel content lo (binlogger n) log" and pre: "log = take (length log) llog"
    using ok by (auto simp: server_ok_def)
  have c': "rc_index c = i" "0 < rc_batch c" "i + rc_batch c \<le> int (length llog)" "0 \<le> i"
    using c by (auto simp: ctx_ok_def)
  then have req: "aq_entries (req_of llog A c) = map pb_of_entry ?es" "map pb_of_entry ?es \<noteq> []"
    by (auto simp: req_of_def)
  have "\<forall>p \<in> set (map pb_of_entry ?es). entry_ok (entry_of_pb p)"
    using llog by (auto dest!: in_set_takeD in_set_dropD)
  then obtain b where b: "WriteEntryList L (binlogger n) (map pb_of_entry ?es) = Inr b"
    "binlog_rel content lo b (log @ ?es)"
    using log.write_many_holds [OF rel, of "map pb_of_entry ?es"] by (auto simp: comp_def)
  have eq: "log @ ?es = take (nat (i + rc_batch c)) llog"
    using take_drop_prefix [OF pre len] c' by simp
  have "int (length (log @ ?es)) = i + rc_batch c" using c' by (simp add: eq)
  moreover have "AppendEntries_write L n (req_of llog A c) = Inr (n\<lparr>binlogger := b\<rparr>)"
    using req b(1) by (simp add: AppendEntries_write_def)
  moreover have "log @ ?es = take (length (log @ ?es)) llog"
    using calculation(1) by (metis eq nat_int)
  ultimately show thesis using b(2) by (rule_tac that)
qed

lemma finish_rel:
  assumes rel: "binlog_rel content lo (binlogger n) log" and run: "AppendEntries_finish n req = (n', es, res)"
  shows "n' = n\<lparr>commit_index := min (int (length log) - 1) (aq_leader_commit_index req)\<rparr>"
    and "ar_success res" and "ar_current_term res = current_term n"
  using run log_length_rel [OF rel] by (auto simp: AppendEntries_finish_def ae_reply_def Let_def)

lemma heartbeat_rel:
  assumes ok: "server_ok content lo llog T cmax half fin log n"
    and req: "aq_entries req = []" "aq_term req = T"
    and run: "AppendEntriesImpl L n req = Inr (n', es, res)"
  obtains a h where "n' = n\<lparr>status := kFollower, current_term := T, cur_leader_addr := a, headbeat_cnt := h,
      commit_index := min (int (length log) - 1) (aq_leader_commit_index req)\<rparr>"
    and "ar_current_term res = T"
proof -
  have rel: "binlog_rel content lo (binlogger n) log" and T: "current_term n \<le> T"
    using ok by (auto simp: server_ok_def)
  show thesis
    using run T req log_length_rel [OF rel]
    by (intro that [where a = "aq_leader_id req" and h = "headbeat_cnt n + 1"])
      (auto simp: AppendEntriesImpl_def AppendEntries_check_def AppendEntries_write_def
        AppendEntries_finish_def ae_reply_def Let_def log_length_def)
qed

end

text \<open>
  The leader counts who has a slot: the match indices keep what they say, and the commit index
  moves only to that slot, if a majority holds it or it is the first one.
\<close>

lemma turn_counts:
  assumes M': "all_server_addr l = M" and mA: "match_index l A \<in> {None, Some 0}"
    and M: "distinct M" "A \<in> set M" "a \<in> set M" "a \<noteq> A"
    and u: "UpdateCommitIndex (l\<lparr>next_index := nx, match_index := (match_index l)(a := Some k)\<rparr>) k = (n', es)"
  obtains ma cm where "n' = l\<lparr>next_index := nx, match_index := ma, commit_index := cm\<rparr>"
    and "ma a = Some k" "ma A \<in> {None, Some 0}"
    and "\<And>b. match_index l b \<noteq> None \<Longrightarrow> b \<noteq> a \<Longrightarrow> ma b = match_index l b"
    and "cm = commit_index l \<or> cm = k \<and> commit_index l < k \<and>
      (k = 0 \<or> majority M (insert A {b \<in> set M. ma b = Some k}))"
proof -
  let ?l = "l\<lparr>next_index := nx, match_index := (match_index l)(a := Some k)\<rparr>"
  define ma where "ma = (\<lambda>b. if b \<in> set M then Some (at_default 0 (match_index ?l) b)
    else match_index ?l b)"
  define adv where "adv \<longleftrightarrow> M \<noteq> [] \<and> length M div 2 \<le> match_count ?l k M \<and> commit_index l < k"
  have n': "n' = l\<lparr>next_index := nx, match_index := ma, commit_index := (if adv then k else commit_index l)\<rparr>"
    using UpdateCommitIndex_eq [OF u] M' by (simp add: ma_def adv_def)
  have maA: "match_index ?l A \<in> {None, Some 0}" using mA M by simp
  have ma: "ma a = Some k" "ma A \<in> {None, Some 0}"
    "\<And>b. match_index l b \<noteq> None \<Longrightarrow> b \<noteq> a \<Longrightarrow> ma b = match_index l b"
    using maA M by (auto simp: ma_def at_default_def)
  have "k = 0 \<or> majority M (insert A {b \<in> set M. ma b = Some k})" if adv
  proof (cases "k = 0")
    case False
    then have "majority M (insert A {b \<in> set M. match_index ?l b = Some k})"
      using that M by (intro match_count_majority [OF _ _ _ maA]) (auto simp: adv_def)
    also have "{b \<in> set M. match_index ?l b = Some k} = {b \<in> set M. ma b = Some k}"
      using False by (auto simp: ma_def at_default_def split: option.splits)
    finally show ?thesis by simp
  qed simp
  moreover have "commit_index l < k" if adv using that by (simp add: adv_def)
  ultimately show thesis using ma by (intro that [OF n']) auto
qed

text \<open>
  The leader digests an answer: the next index moves to the follower's log length, or stays; the
  match index of the follower becomes its last slot; and the commit index moves only to a slot
  that a majority holds (or to the first one).
\<close>

lemma turn_rel:
  assumes lead: "leader_ok A M llog l" and M: "distinct M" "A \<in> set M" "a \<in> set M" "a \<noteq> A"
    and idx: "next_index l a = Some i" "match_index l a = Some m" "0 \<le> i" "i \<le> int (length llog)"
    and th: "thread_ok llog (current_term l) A (commit_index l) len i (Returned c mt ret)"
    and run: "ReplicateLog_finish l a c mt ok ret = (l', ok', es, go)"
  obtains i' m' cm ma where "l' = l\<lparr>next_index := (next_index l)(a := Some i'), match_index := ma,
      commit_index := cm\<rparr>"
    and "0 \<le> i'" "i' \<le> int (length llog)" "len \<le> i'"
    and "ma a = Some m'" "m' = m \<or> m' = len - 1"
    and "\<And>b. match_index l b \<noteq> None \<Longrightarrow> b \<noteq> a \<Longrightarrow> ma b = match_index l b"
    and "ma A \<in> {None, Some 0}"
    and "cm = commit_index l \<or> cm = len - 1 \<and> len \<le> int (length llog) \<and>
      commit_index l < cm \<and> (cm = 0 \<or> majority M (insert A {b \<in> set M. ma b = Some cm}))"
proof -
  have st: "status l = kLeader" "self_addr l = A" "all_server_addr l = M" "match_index l A \<in> {None, Some 0}"
    using lead by (auto simp: leader_ok_def)
  have same: "l = l\<lparr>next_index := (next_index l)(a := Some i), match_index := match_index l,
      commit_index := commit_index l\<rparr>"
    using idx(1) by (simp add: fun_upd_idem)
  show thesis
  proof (cases ret)
    case None
    then have "l' = l" using run st by (simp add: ReplicateLog_finish_def)
    with same show thesis
      using th None idx st by (intro that [where i' = i and ma = "match_index l" and cm = "commit_index l" and m' = m]) simp_all
  next
    case (Some res)
    note th = th [unfolded Some, simplified]
    have c: "rc_index c = i" "i + rc_batch c \<le> int (length llog)" "0 < rc_batch c"
      using th by (auto simp: ctx_ok_def)
    note defs = ReplicateLog_finish_def Let_def Some
    show thesis
    proof (cases "ar_success res")
      case False
      show thesis
      proof (cases "ar_is_busy res")
        case True
        then have "l' = l" using run False st th by (simp add: defs)
        with same show thesis
          using th False idx st by (intro that [where i' = i and ma = "match_index l" and cm = "commit_index l" and m' = m]) simp_all
      next
        case nb: False
        then have len: "len < i" "ar_log_length res = len" using th False by auto
        then have "min (i - 1) len = len" by simp
        then have "l' = l\<lparr>next_index := (next_index l)(a := Some (if len < 0 then 0 else len))\<rparr>"
          using run False nb st th len(2) idx by (simp add: defs split: if_splits)
        then show thesis
          using len idx st by (intro that [where i' = "if len < 0 then 0 else len" and ma = "match_index l" and cm = "commit_index l" and m' = m])
            simp_all
      qed
    next
      case True
      let ?l = "l\<lparr>next_index := (next_index l)(a := Some (i + rc_batch c)),
        match_index := (match_index l)(a := Some (i + rc_batch c - 1))\<rparr>"
      have len: "len = i + rc_batch c" using th True by simp
      show thesis
      proof (cases "mt = current_term l")
        case False
        then have "l' = ?l" using run True st th by (simp add: defs c)
        then show thesis
          using len c idx st M by (intro that [where i' = len and ma = "match_index ?l" and cm = "commit_index l" and m' = "len - 1"]) simp_all
      next
        case t: True
        obtain n2 es2 where u: "UpdateCommitIndex ?l (len - 1) = (n2, es2)" by fastforce
        have l': "l' = n2" using run True st th t u by (simp add: defs c len)
        obtain ma cm where n2: "n2 = l\<lparr>next_index := (next_index l)(a := Some len), match_index := ma, commit_index := cm\<rparr>"
          and ma: "ma a = Some (len - 1)" "ma A \<in> {None, Some 0}"
            "\<And>b. match_index l b \<noteq> None \<Longrightarrow> b \<noteq> a \<Longrightarrow> ma b = match_index l b"
          and cm: "cm = commit_index l \<or> cm = len - 1 \<and> commit_index l < len - 1 \<and>
            (len - 1 = 0 \<or> majority M (insert A {b \<in> set M. ma b = Some (len - 1)}))"
          by (rule turn_counts [OF st(3,4) M(1,2,3,4) u [folded len]]) (rule that)
        show thesis
          using ma cm len c idx(3)
          by (intro that [where i' = len and ma = ma and m' = "len - 1" and cm = cm, OF n2 [folded l']]) auto
      qed
    qed
  qed
qed

section \<open>Steps of one server\<close>

definition same_role :: "'db node \<Rightarrow> 'db node \<Rightarrow> bool" where
  "same_role n n' \<longleftrightarrow>
     status n' = status n \<and> stop n' = stop n \<and> self_addr n' = self_addr n \<and>
     all_server_addr n' = all_server_addr n \<and> next_index n' = next_index n \<and>
     match_index n' = match_index n \<and> current_term n' = current_term n \<and>
     commit_index n' = commit_index n"

lemma same_role_refl [simp]: "same_role n n"
  by (simp add: same_role_def)

lemma leader_ok_same_role: "leader_ok A M llog l \<Longrightarrow> same_role l l' \<Longrightarrow> leader_ok A M llog l'"
  by (simp add: leader_ok_def same_role_def)

lemma follower_ok_same_role:
  "follower_ok llog A l log pc n a \<Longrightarrow> same_role l l' \<Longrightarrow> follower_ok llog A l' log pc n a"
  by (simp add: follower_ok_def same_role_def)

lemma beats_ok_same_role: "beats_ok l B R \<Longrightarrow> same_role l l' \<Longrightarrow> beats_ok l' B R"
  by (simp add: beats_ok_def same_role_def)

lemma group_inv_parts:
  assumes "group_inv content lo A M log g"
  shows "A \<in> set M" "distinct M" "leader_ok A M (log A) (gr_node g A)"
    "beats_ok (gr_node g A) (gr_beats g) (gr_answers g)" "held_by M log (commit_index (gr_node g A))"
    and "a \<in> set M \<Longrightarrow> server_ok content lo (log A) (current_term (gr_node g A))
        (commit_index (gr_node g A)) (gr_applied g a) (gr_end g a) (log a) (gr_node g a)"
    and "a \<in> set M \<Longrightarrow> a \<noteq> A \<Longrightarrow>
      follower_ok (log A) A (gr_node g A) (log a) (gr_thread g a) (gr_node g a) a"
  using assms unfolding group_inv_def by blast+

text \<open>What a step of one server has to show; the log of a follower may grow.\<close>

lemma group_inv_node:
  assumes inv: "group_inv content lo A M log g" and a: "a \<in> set M"
    and node: "gr_node g' = (gr_node g)(a := n')" "gr_thread g' = (gr_thread g)(a := pc')"
      "gr_applied g' = (gr_applied g)(a := half)" "gr_end g' = (gr_end g)(a := fin)"
    and role: "a = A \<Longrightarrow> same_role (gr_node g A) n'"
    and log: "length (log a) \<le> length lg" "a = A \<Longrightarrow> lg = log A"
    and srv: "server_ok content lo (log A) (current_term (gr_node g A)) (commit_index (gr_node g A)) half fin lg n'"
    and thr: "a \<noteq> A \<Longrightarrow> follower_ok (log A) A (gr_node g A) lg pc' n' a"
    and beats: "beats_ok (gr_node g A) (gr_beats g') (gr_answers g')"
  shows "group_inv content lo A M (log(a := lg)) g'"
proof -
  let ?l = "gr_node g A" and ?l' = "gr_node g' A"
  have logA: "(log(a := lg)) A = log A" using log(2) by auto
  have role': "same_role ?l ?l'" using role by (auto simp: node)
  then have T: "current_term ?l' = current_term ?l" "commit_index ?l' = commit_index ?l"
    by (auto simp: same_role_def)
  have "held_by M (log(a := lg)) (commit_index ?l)"
    by (rule held_by_mono [OF group_inv_parts(5) [OF inv]]) (simp add: log(1))
  moreover have "server_ok content lo (log A) (current_term ?l) (commit_index ?l)
      (gr_applied g' b) (gr_end g' b) ((log(a := lg)) b) (gr_node g' b)" if "b \<in> set M" for b
    using group_inv_parts(6) [OF inv that] srv by (cases "b = a") (simp_all add: node)
  moreover have "follower_ok (log A) A ?l' ((log(a := lg)) b) (gr_thread g' b) (gr_node g' b) b"
    if "b \<in> set M - {A}" for b
  proof (rule follower_ok_same_role [OF _ role'])
    show "follower_ok (log A) A ?l ((log(a := lg)) b) (gr_thread g' b) (gr_node g' b) b"
      using that group_inv_parts(7) [OF inv, of b] thr by (cases "b = a") (simp_all add: node)
  qed
  ultimately show ?thesis
    using group_inv_parts(1,2) [OF inv] leader_ok_same_role [OF group_inv_parts(3) [OF inv] role']
      beats_ok_same_role [OF beats role']
    unfolding group_inv_def logA T by (intro conjI ballI)
qed

text \<open>The invariant holds again, and the leader's log has at most grown at its end.\<close>

definition grown ::
  "('db \<Rightarrow> string \<Rightarrow> string option) \<Rightarrow> int \<Rightarrow> string \<Rightarrow> string list \<Rightarrow> binlog_entry list \<Rightarrow> 'db group \<Rightarrow> bool"
where
  "grown content lo A M llog g \<longleftrightarrow> (\<exists>log ys. group_inv content lo A M log g \<and> log A = llog @ ys)"

lemma grown_refl: "group_inv content lo A M log g \<Longrightarrow> grown content lo A M (log A) g"
  unfolding grown_def by (intro exI [of _ log] exI [of _ "[]"]) simp

lemma grown_follower:
  "group_inv content lo A M (log(a := lg)) g \<Longrightarrow> a \<noteq> A \<Longrightarrow> grown content lo A M (log A) g"
  using grown_refl [of content lo A M "log(a := lg)" g] by simp

lemma grown_leader:
  "group_inv content lo A M (log(A := log A @ es)) g \<Longrightarrow> grown content lo A M (log A) g"
  unfolding grown_def by (intro exI [of _ "log(A := log A @ es)"] exI [of _ es]) simp

lemma grown_trans:
  assumes "grown content lo A M llog g"
    and "\<And>log. group_inv content lo A M log g \<Longrightarrow> grown content lo A M (log A) g'"
  shows "grown content lo A M llog g'"
proof -
  obtain log ys where "group_inv content lo A M log g" "log A = llog @ ys"
    using assms(1) by (auto simp: grown_def)
  then show ?thesis using assms(2) [of log] by (auto simp: grown_def)
qed

lemma server_ok_log: "server_ok content lo llog T cmax half fin log n \<Longrightarrow> binlog_rel content lo (binlogger n) log"
  by (simp add: server_ok_def)

lemma group_inv_log:
  "group_inv content lo A M log g \<Longrightarrow> a \<in> set M \<or> a = A \<Longrightarrow>
     binlog_rel content lo (binlogger (gr_node g a)) (log a)"
  by (auto intro: server_ok_log dest: group_inv_parts(1,6))

context leveldb_available
begin

lemma apply_rel:
  assumes ok: "server_ok content lo llog T cmax False fin log n" and cl: "list_all client_entry llog"
    and i: "last_applied_index n < fin" and slot: "0 \<le> loop_slot n"
  obtains ds where "CommitIndex_apply L n (loop_slot n) = Inr (n\<lparr>data_store := ds\<rparr>)"
    and "server_ok content lo llog T cmax True fin log (n\<lparr>data_store := ds\<rparr>)"
proof -
  let ?i = "last_applied_index n + 1"
  have max: "last_applied_index n < 2147483647" and eq: "loop_slot n = ?i"
    using loop_slot_nonneg [OF _ _ slot] ok by (auto simp: server_ok_def)
  have rel: "binlog_rel content lo (binlogger n) log" and pre: "log = take (length log) llog"
    and b: "0 \<le> ?i" "?i < int (length log)"
    and lo: "lo \<le> ?i"
    using ok i by (auto simp: server_ok_def)
  let ?ds = "apply_entry L (data_store n) (log ! nat ?i)"
  have run: "CommitIndex_apply L n ?i = Inr (n\<lparr>data_store := ?ds\<rparr>)"
    using log.read_holds [OF rel lo b(2)] by (simp add: CommitIndex_apply_def ReadSlot_assert_def)
  have nth: "log ! nat ?i = llog ! nat ?i" "nat ?i < length llog"
    using b server_ok_bound(2) [OF ok] by (subst pre, auto simp: nat_less_iff)
  have "client_entry (log ! nat ?i)" using cl nth by (auto simp: list_all_length)
  then have "store_rel content ?ds (apply_spec (log ! nat ?i) (fold apply_spec (take (nat ?i) llog) (\<lambda>_. None)))"
    using ok by (intro apply_entry_rel) (auto simp: server_ok_def)
  moreover have "apply_spec (log ! nat ?i) (fold apply_spec (take (nat ?i) llog) (\<lambda>_. None)) =
      fold apply_spec (take (nat ?i + 1) llog) (\<lambda>_. None)"
    using nth by (simp add: take_Suc_conv_app_nth)
  ultimately show thesis using ok i max by (intro that [OF run [folded eq]]) (simp add: server_ok_def eq)
qed

lemma ack_rel:
  assumes ok: "server_ok content lo llog T cmax True fin log n"
    and run: "CommitIndex_ack L n (loop_slot n) = (n', es)"
  obtains m i ds where "n' = n\<lparr>sdk_ack_map := m, last_applied_index := i, data_store := ds\<rparr>"
    and "server_ok content lo llog T cmax False fin log n'"
proof -
  have eq: "loop_slot n = last_applied_index n + 1"
    using ok by (intro loop_slot_eq) (auto simp: server_ok_def)
  have n': "n' = n\<lparr>sdk_ack_map := acks_after n (last_applied_index n + 1) 1,
      last_applied_index := last_applied_index n + 1,
      data_store := fst (StorageKV_Put L (data_store n) tag_last_applied_index
        (IntToString (last_applied_index n + 1)))\<rparr>"
    using run [unfolded eq] by (simp add: CommitIndex_ack_eq)
  have "nat (last_applied_index n + 1 + 1) = nat (last_applied_index n + 1) + 1"
    using ok by (auto simp: server_ok_def nat_add_distrib)
  then show thesis
    using ok put_tag_rel by (intro that [OF n']) (auto simp: n' server_ok_def)
qed

end

section \<open>Steps of the leader\<close>

lemma server_ok_commit:
  assumes "server_ok content lo llog T cmax half fin log n" and "cmax \<le> cmax'"
  shows "server_ok content lo llog T cmax' half fin log n"
  using server_ok_grow [OF assms, of "[]"] by simp

lemma follower_ok_commit:
  assumes ok: "follower_ok llog A l log pc n a"
    and l': "next_index l' a = next_index l a" "match_index l' a = match_index l a"
      "current_term l' = current_term l" "commit_index l \<le> commit_index l'"
  shows "follower_ok (llog @ es) A l' log pc n a"
proof -
  obtain i m where "status n = kFollower" "next_index l a = Some i" "match_index l a = Some m" "0 \<le> i"
    "i \<le> int (length llog)" "m < int (length log)"
    "thread_ok llog (current_term l) A (commit_index l) (int (length log)) i pc"
    using ok by (auto simp: follower_ok_def)
  then show ?thesis
    using thread_ok_grow [of llog "current_term l" A "commit_index l" "int (length log)" i pc "commit_index l'" es] l'
    by (auto simp: follower_ok_def)
qed

text \<open>A client's call extends the log of the leader.\<close>

lemma client_inv:
  assumes inv: "group_inv content lo A M log g" and rel: "binlog_rel content lo b (log A @ [e])"
    and e: "client_entry e" "be_term e = current_term (gr_node g A)"
    and n': "n' = gr_node g A\<lparr>binlogger := b, sdk_ack_map := m\<rparr>"
  shows "group_inv content lo A M (log(A := log A @ [e])) (set_node A n' g)"
proof -
  let ?l = "gr_node g A" and ?log = "log(A := log A @ [e])"
  note parts = group_inv_parts [OF inv]
  have "leader_ok A M (log A @ [e]) n'" using parts(3) e by (simp add: leader_ok_def n')
  moreover have "server_ok content lo (log A @ [e]) (current_term ?l) (commit_index ?l)
      (gr_applied g a) (gr_end g a) (?log a) (((gr_node g)(A := n')) a)" if "a \<in> set M" for a
  proof (cases "a = A")
    case True
    then show ?thesis
      using server_ok_grow [OF parts(6) [OF that] order_refl, of "[e]"] rel
      by (auto simp: server_ok_def n')
  next
    case False
    then show ?thesis using server_ok_grow [OF parts(6) [OF that] order_refl, of "[e]"] by simp
  qed
  moreover have "follower_ok (log A @ [e]) A n' (log a) (gr_thread g a) (gr_node g a) a"
    if "a \<in> set M" "a \<noteq> A" for a
    using parts(7) [OF that] by (rule follower_ok_commit) (simp_all add: n')
  moreover have "held_by M ?log (commit_index ?l)"
    by (rule held_by_mono [OF parts(5)]) simp
  moreover have "beats_ok n' (gr_beats g) (gr_answers g)" using parts(4) by (simp add: beats_ok_def n')
  moreover have "current_term n' = current_term ?l" "commit_index n' = commit_index ?l"
    by (simp_all add: n')
  ultimately show ?thesis using parts(1,2) by (simp add: group_inv_def)
qed

text \<open>The end of a turn moves a next and a match index, and perhaps the commit index.\<close>

lemma turn_inv:
  assumes inv: "group_inv content lo A M log g" and a: "a \<in> set M" "a \<noteq> A"
    and l': "n' = gr_node g A\<lparr>next_index := (next_index (gr_node g A))(a := Some i'), match_index := ma,
      commit_index := cm\<rparr>"
    and i': "0 \<le> i'" "i' \<le> int (length (log A))" "int (length (log a)) \<le> i'"
    and ma: "ma a = Some m'" "m' < int (length (log a))" "ma A \<in> {None, Some 0}"
      "\<And>b. match_index (gr_node g A) b \<noteq> None \<Longrightarrow> b \<noteq> a \<Longrightarrow> ma b = match_index (gr_node g A) b"
    and cm: "commit_index (gr_node g A) \<le> cm" "cm < int (length (log A))"
      "cm \<noteq> commit_index (gr_node g A) \<Longrightarrow> cm = 0 \<or> majority M (insert A {b \<in> set M. ma b = Some cm})"
    and g': "gr_node g' = (gr_node g)(A := n')" "gr_thread g' = (gr_thread g)(a := Idle)"
      "gr_applied g' = gr_applied g" "gr_end g' = gr_end g" "gr_beats g' = gr_beats g"
      "gr_answers g' = gr_answers g"
  shows "group_inv content lo A M log g'"
proof -
  let ?l = "gr_node g A"
  note parts = group_inv_parts [OF inv]
  have "leader_ok A M (log A) n'" using parts(3) ma(3) by (simp add: leader_ok_def l')
  moreover have "server_ok content lo (log A) (current_term ?l) cm
      (gr_applied g b) (gr_end g b) (log b) (((gr_node g)(A := n')) b)" if "b \<in> set M" for b
    using server_ok_commit [OF parts(6) [OF that] cm(1)] cm(2) by (auto simp: server_ok_def l')
  moreover have match: "\<exists>m < int (length (log b)). ma b = Some m" if "b \<in> set M" "b \<noteq> A" for b
    using parts(7) [OF that] ma(1,2,4) by (cases "b = a") (auto simp: follower_ok_def)
  have "follower_ok (log A) A n' (log b) (((gr_thread g)(a := Idle)) b) (gr_node g b) b"
    if "b \<in> set M" "b \<noteq> A" for b
  proof (cases "b = a")
    case True
    then show ?thesis using parts(7) [OF that] i' ma(1,2) by (auto simp: follower_ok_def l')
  next
    case False
    have "ma b = match_index ?l b" using parts(7) [OF that] False by (intro ma(4)) (auto simp: follower_ok_def)
    then have "follower_ok (log A @ []) A n' (log b) (gr_thread g b) (gr_node g b) b"
      using False cm(1) by (intro follower_ok_commit [OF parts(7) [OF that]]) (simp_all add: l')
    then show ?thesis using False by simp
  qed
  moreover have "held_by M log cm"
  proof (cases "cm = commit_index ?l \<or> cm = 0")
    case True
    then show ?thesis using parts(5) by (auto simp: held_by_def)
  next
    case False
    then have "majority M (insert A {b \<in> set M. ma b = Some cm})" using cm(3) by simp
    moreover have "insert A {b \<in> set M. ma b = Some cm} \<subseteq> {b \<in> set M. cm < int (length (log b))}"
      using parts(1) cm(2) match by force
    then have "card (insert A {b \<in> set M. ma b = Some cm}) \<le> card {b \<in> set M. cm < int (length (log b))}"
      by (intro card_mono) simp_all
    ultimately show ?thesis by (simp add: held_by_def majority_def)
  qed
  moreover have "beats_ok n' (gr_beats g) (gr_answers g)"
    using parts(4) cm(1) by (auto simp: beats_ok_def l')
  moreover have "current_term n' = current_term ?l" "commit_index n' = cm" by (simp_all add: l')
  ultimately show ?thesis using parts(1,2) a by (simp add: group_inv_def g')
qed

section \<open>Every step keeps the invariant\<close>

lemma follower_okD:
  assumes "follower_ok llog A l log pc n a"
  obtains i m where "status n = kFollower" "next_index l a = Some i" "match_index l a = Some m" "0 \<le> i"
    "i \<le> int (length llog)" "m < int (length log)"
    "thread_ok llog (current_term l) A (commit_index l) (int (length log)) i pc"
  using assms by (auto simp: follower_ok_def)

text \<open>A step of a follower's thread that leaves the leader and the follower's log alone.\<close>

lemma thread_inv:
  assumes inv: "group_inv content lo A M log g" and a: "a \<in> set M" "a \<noteq> A"
    and n': "server_ok content lo (log A) (current_term (gr_node g A)) (commit_index (gr_node g A))
      (gr_applied g a) (gr_end g a) lg n'" "status n' = kFollower"
    and lg: "length (log a) \<le> length lg"
    and pc: "\<And>i. next_index (gr_node g A) a = Some i \<Longrightarrow>
      thread_ok (log A) (current_term (gr_node g A)) A (commit_index (gr_node g A)) (int (length lg)) i pc"
  shows "group_inv content lo A M (log(a := lg)) (set_thread a pc (set_node a n' g))"
proof (rule group_inv_node [OF inv a(1), where n' = n' and half = "gr_applied g a" and fin = "gr_end g a"])
  show "follower_ok (log A) A (gr_node g A) lg pc n' a"
    using group_inv_parts(7) [OF inv a] n'(2) lg pc by (auto elim!: follower_okD simp: follower_ok_def)
  show "beats_ok (gr_node g A) (gr_beats (set_thread a pc (set_node a n' g)))
      (gr_answers (set_thread a pc (set_node a n' g)))"
    using group_inv_parts(4) [OF inv] by simp
qed (use n'(1) lg a in \<open>simp_all add: fun_upd_idem\<close>)

text \<open>The same when the follower does not change either.\<close>

lemma pc_inv:
  assumes inv: "group_inv content lo A M log g" and a: "a \<in> set M" "a \<noteq> A"
    and pc: "\<And>i. next_index (gr_node g A) a = Some i \<Longrightarrow>
      thread_ok (log A) (current_term (gr_node g A)) A (commit_index (gr_node g A))
        (int (length (log a))) i pc"
  shows "group_inv content lo A M log (set_thread a pc g)"
proof -
  have same: "set_node a (gr_node g a) g = g" by (simp add: set_node_def fun_upd_idem)
  have "group_inv content lo A M (log(a := log a)) (set_thread a pc (set_node a (gr_node g a) g))"
    using group_inv_parts(6) [OF inv a(1)] group_inv_parts(7) [OF inv a] pc
    by (intro thread_inv [OF inv a]) (auto elim: follower_okD)
  then show ?thesis unfolding same by simp
qed

text \<open>A step of a server's commit thread or timer, or of a heartbeat.\<close>

lemma local_inv:
  assumes inv: "group_inv content lo A M log g" and a: "a \<in> set M"
    and g': "gr_node g' = (gr_node g)(a := n')" "gr_thread g' = gr_thread g"
      "gr_applied g' = (gr_applied g)(a := half)" "gr_end g' = (gr_end g)(a := fin)"
    and srv: "server_ok content lo (log A) (current_term (gr_node g A)) (commit_index (gr_node g A)) half fin (log a) n'"
    and role: "a = A \<Longrightarrow> same_role (gr_node g A) n'" and st: "a \<noteq> A \<Longrightarrow> status n' = kFollower"
    and beats: "beats_ok (gr_node g A) (gr_beats g') (gr_answers g')"
  shows "group_inv content lo A M log g'"
proof -
  have "group_inv content lo A M (log(a := log a)) g'"
    using group_inv_parts(7) [OF inv a] st
    by (intro group_inv_node [OF inv a g'(1) _ g'(3,4) role _ _ srv _ beats, where pc' = "gr_thread g a"])
      (auto simp: g' follower_ok_def)
  then show ?thesis by simp
qed

context leveldb_available
begin

text \<open>One lemma per step; \<open>a\<close> is the follower whose thread moves, or the server.\<close>

lemma step_client:
  assumes client: "client_call L (gr_node g A) n'"
    and inv: "group_inv content lo A M log g"
  shows "grown content lo A M (log A)
    (set_node A n' g)"
proof -
  note parts = group_inv_parts [OF inv]
  have lead: "status (gr_node g A) = kLeader" using parts(3) by (simp add: leader_ok_def)
  obtain e m where e: "client_entry e" "be_term e = current_term (gr_node g A)"
      "binlog_rel content lo (binlogger n') (log A @ [e])"
    and n': "n' = gr_node g A\<lparr>binlogger := binlogger n', sdk_ack_map := m\<rparr>"
    by (rule client_call_rel [OF client(1) lead group_inv_log [OF inv disjI2 [OF refl]]]) blast
  show ?thesis by (rule grown_leader [OF client_inv [OF inv e(3,1,2) n']])
qed

lemma step_prepare:
  assumes prepare: "a \<in> set M - {A}"
      "gr_thread g a = Idle"
      "ReplicateLog_prepare L (gr_node g A) a (gr_ok g a) = Inr (n', ReplSend c)"
    and inv: "group_inv content lo A M log g"
  shows "grown content lo A M (log A)
    (set_thread a (Prepared c) (set_node A n' g))"
proof -
  have a: "a \<in> set M" "a \<noteq> A" using prepare(1) by auto
  note parts = group_inv_parts [OF inv]
  obtain i m where idx: "next_index (gr_node g A) a = Some i" "0 \<le> i" "i \<le> int (length (log A))"
    and th: "int (length (log a)) \<le> i"
    using parts(7) [OF a] prepare(2) by (auto elim!: follower_okD)
  have st: "status (gr_node g A) = kLeader" "\<not> stop (gr_node g A)"
    using parts(3) by (auto simp: leader_ok_def)
  note p = prepare_rel [OF group_inv_log [OF inv disjI2 [OF refl]] st idx
      server_ok_lo [OF parts(6) [OF a(1)] th] prepare(3)]
  have same: "set_node A n' g = g" unfolding p(1) by (simp add: set_node_def fun_upd_idem)
  show ?thesis unfolding same
    using p(2) th idx by (intro grown_refl pc_inv [OF inv a]) simp
qed

lemma step_collect:
  assumes collect: "a \<in> set M - {A}"
      "gr_thread g a = Prepared c"
      "ReplicateLog_collect L (gr_node g A) c = Inr (Some (req, mt))"
    and inv: "group_inv content lo A M log g"
  shows "grown content lo A M (log A)
    (set_thread a (Called c mt req) g)"
proof -
  have a: "a \<in> set M" "a \<noteq> A" using collect(1) by auto
  note parts = group_inv_parts [OF inv]
  obtain i m where idx: "next_index (gr_node g A) a = Some i"
    and th: "ctx_ok (log A) (current_term (gr_node g A)) (commit_index (gr_node g A)) i c"
      "int (length (log a)) \<le> i"
    using parts(7) [OF a] collect(2) by (auto elim!: follower_okD)
  have "req = req_of (log A) (self_addr (gr_node g A)) c"
    using collect_eq [OF group_inv_log [OF inv disjI2 [OF refl]] th(1)
        server_ok_lo [OF parts(6) [OF a(1)] th(2)]] collect(3) by auto
  then show ?thesis
    using th idx parts(3) by (intro grown_refl pc_inv [OF inv a]) (simp add: leader_ok_def)
qed

lemma step_lose:
  assumes lose: "a \<in> set M - {A}"
      "gr_thread g a = Called c mt req"
    and inv: "group_inv content lo A M log g"
  shows "grown content lo A M (log A)
    (set_thread a (Returned c mt None) g)"
proof -
  have a: "a \<in> set M" "a \<noteq> A" using lose(1) by auto
  note parts = group_inv_parts [OF inv]
  show ?thesis
    using parts(7) [OF a] lose(2) by (intro grown_refl pc_inv [OF inv a]) (auto elim!: follower_okD)
qed

lemma step_inspect:
  assumes inspect: "a \<in> set M - {A}"
      "gr_thread g a = Called c mt req"
      "AppendEntries_check L (gr_node g a) req = Inr (n', reply)"
    and inv: "group_inv content lo A M log g"
  shows "grown content lo A M (log A)
    (set_thread a (if reply = None then Checked c mt req else Returned c mt reply) (set_node a n' g))"
proof -
  have a: "a \<in> set M" "a \<noteq> A" using inspect(1) by auto
  note parts = group_inv_parts [OF inv]
  obtain i where idx: "next_index (gr_node g A) a = Some i" and st: "status (gr_node g a) = kFollower"
    and th: "ctx_ok (log A) (current_term (gr_node g A)) (commit_index (gr_node g A)) i c"
      "req = req_of (log A) A c" "int (length (log a)) \<le> i"
    using parts(7) [OF a] inspect(2) by (auto elim!: follower_okD)
  obtain h where n': "n' = gr_node g a\<lparr>status := kFollower, current_term := current_term (gr_node g A),
      cur_leader_addr := A, headbeat_cnt := h\<rparr>"
    and none: "reply = None \<Longrightarrow> int (length (log a)) = i"
    and some: "\<And>res. reply = Some res \<Longrightarrow> ar_current_term res = current_term (gr_node g A) \<and>
      \<not> ar_success res \<and> ar_log_length res = int (length (log a)) \<and>
      (ar_is_busy res \<or> int (length (log a)) < i)"
    by (rule check_rel [OF parts(6) [OF a(1)] th(1,3) inspect(3) [unfolded th(2)]]) blast
  have srv: "server_ok content lo (log A) (current_term (gr_node g A)) (commit_index (gr_node g A))
      (gr_applied g a) (gr_end g a) (log a) n'"
    by (rule server_ok_frame [OF parts(6) [OF a(1)]]) (simp_all add: n')
  have "group_inv content lo A M (log(a := log a))
     (set_thread a (if reply = None then Checked c mt req else Returned c mt reply) (set_node a n' g))"
  proof (rule thread_inv [OF inv a srv])
    fix i' assume "next_index (gr_node g A) a = Some i'"
    then show "thread_ok (log A) (current_term (gr_node g A)) A (commit_index (gr_node g A))
        (int (length (log a))) i' (if reply = None then Checked c mt req else Returned c mt reply)"
      using idx th none some by (cases reply) auto
  qed (simp_all add: n')
  then show ?thesis using a(2) by (rule grown_follower)
qed

lemma step_store:
  assumes store: "a \<in> set M - {A}"
      "gr_thread g a = Checked c mt req"
      "AppendEntries_write L (gr_node g a) req = Inr n'"
    and inv: "group_inv content lo A M log g"
  shows "grown content lo A M (log A)
    (set_thread a (Written c mt req) (set_node a n' g))"
proof -
  have a: "a \<in> set M" "a \<noteq> A" using store(1) by auto
  note parts = group_inv_parts [OF inv]
  obtain i where idx: "next_index (gr_node g A) a = Some i" and st: "status (gr_node g a) = kFollower"
    and th: "ctx_ok (log A) (current_term (gr_node g A)) (commit_index (gr_node g A)) i c"
      "req = req_of (log A) A c" "int (length (log a)) = i"
    using parts(7) [OF a] store(2) by (auto elim!: follower_okD)
  have ok: "\<forall>e \<in> set (log A). entry_ok e"
    using binlog_rel_ok [OF group_inv_log [OF inv disjI2 [OF refl]]] by blast
  obtain b lg where "AppendEntries_write L (gr_node g a) (req_of (log A) A c) = Inr (gr_node g a\<lparr>binlogger := b\<rparr>)"
    and lg: "binlog_rel content lo b lg" "lg = take (length lg) (log A)" "int (length lg) = i + rc_batch c"
    by (rule store_entries_rel [OF parts(6) [OF a(1)] th(1,3) ok])
  then have n': "n' = gr_node g a\<lparr>binlogger := b\<rparr>" using store(3) by (simp add: th(2))
  have longer: "length (log a) \<le> length lg" using lg(3) th by (auto simp: ctx_ok_def)
  have srv: "server_ok content lo (log A) (current_term (gr_node g A)) (commit_index (gr_node g A))
      (gr_applied g a) (gr_end g a) lg n'"
    using parts(6) [OF a(1)] lg longer by (auto simp: server_ok_def n')
  have "group_inv content lo A M (log(a := lg)) (set_thread a (Written c mt req) (set_node a n' g))"
    using idx th lg by (intro thread_inv [OF inv a srv _ longer]) (simp_all add: n' st)
  then show ?thesis using a(2) by (rule grown_follower)
qed

lemma step_answer:
  assumes answer: "a \<in> set M - {A}"
      "gr_thread g a = Written c mt req"
      "AppendEntries_finish (gr_node g a) req = (n', es, res)"
    and inv: "group_inv content lo A M log g"
  shows "grown content lo A M (log A)
    (set_thread a (Returned c mt (Some res)) (set_node a n' g))"
proof -
  have a: "a \<in> set M" "a \<noteq> A" using answer(1) by auto
  note parts = group_inv_parts [OF inv]
  obtain i where idx: "next_index (gr_node g A) a = Some i" and st: "status (gr_node g a) = kFollower"
    and th: "ctx_ok (log A) (current_term (gr_node g A)) (commit_index (gr_node g A)) i c"
      "req = req_of (log A) A c" "int (length (log a)) = i + rc_batch c"
    using parts(7) [OF a] answer(2) by (auto elim!: follower_okD)
  note fin = finish_rel [OF server_ok_log [OF parts(6) [OF a(1)]] answer(3)]
  have lc: "aq_leader_commit_index req \<le> commit_index (gr_node g A)"
    using th by (simp add: req_of_def ctx_ok_def)
  have srv: "server_ok content lo (log A) (current_term (gr_node g A)) (commit_index (gr_node g A))
      (gr_applied g a) (gr_end g a) (log a) n'"
    using parts(6) [OF a(1)] lc by (auto simp: server_ok_def fin(1))
  have res: "ar_current_term res \<le> current_term (gr_node g A)"
    using parts(6) [OF a(1)] fin(3) by (simp add: server_ok_def)
  have "group_inv content lo A M (log(a := log a)) (set_thread a (Returned c mt (Some res)) (set_node a n' g))"
    using idx th res fin(2) by (intro thread_inv [OF inv a srv]) (simp_all add: fin(1) st)
  then show ?thesis using a(2) by (rule grown_follower)
qed

lemma step_turn:
  assumes turn: "a \<in> set M - {A}"
      "gr_thread g a = Returned c mt ret"
      "ReplicateLog_finish (gr_node g A) a c mt (gr_ok g a) ret = (n', ok, es, go)"
    and inv: "group_inv content lo A M log g"
  shows "grown content lo A M (log A)
    (set_thread a Idle (set_node A n' (g\<lparr>gr_ok := (gr_ok g)(a := ok)\<rparr>)))"
proof -
  have a: "a \<in> set M" "a \<noteq> A" using turn(1) by auto
  note parts = group_inv_parts [OF inv]
  obtain i m where idx: "next_index (gr_node g A) a = Some i" "match_index (gr_node g A) a = Some m" "0 \<le> i"
      "i \<le> int (length (log A))" and m: "m < int (length (log a))"
    and th: "thread_ok (log A) (current_term (gr_node g A)) A (commit_index (gr_node g A))
      (int (length (log a))) i (Returned c mt ret)"
    using parts(7) [OF a] turn(2) by (auto elim!: follower_okD)
  obtain i' m' cm ma where n': "n' = gr_node g A\<lparr>next_index := (next_index (gr_node g A))(a := Some i'),
      match_index := ma, commit_index := cm\<rparr>"
    and i': "0 \<le> i'" "i' \<le> int (length (log A))" "int (length (log a)) \<le> i'"
    and ma: "ma a = Some m'" "m' = m \<or> m' = int (length (log a)) - 1"
      "\<And>b. match_index (gr_node g A) b \<noteq> None \<Longrightarrow> b \<noteq> a \<Longrightarrow> ma b = match_index (gr_node g A) b"
      "ma A \<in> {None, Some 0}"
    and cm: "cm = commit_index (gr_node g A) \<or> cm = int (length (log a)) - 1 \<and>
      int (length (log a)) \<le> int (length (log A)) \<and> commit_index (gr_node g A) < cm \<and>
      (cm = 0 \<or> majority M (insert A {b \<in> set M. ma b = Some cm}))"
    by (rule turn_rel [OF parts(3,2,1) a idx th turn(3)]) (rule that)
  have "commit_index (gr_node g A) < int (length (log A))"
    using parts(6) [OF parts(1)] by (simp add: server_ok_def)
  then have "group_inv content lo A M log
      (set_thread a Idle (set_node A n' (g\<lparr>gr_ok := (gr_ok g)(a := ok)\<rparr>)))"
    using cm m ma(2) by (intro turn_inv [OF inv a n' i' ma(1) _ ma(4,3)]) auto
  then show ?thesis by (rule grown_refl)
qed

lemma step_beat:
  assumes inv: "group_inv content lo A M log g"
  shows "grown content lo A M (log A)
    (g\<lparr>gr_beats := insert (heartbeat_request (gr_node g A)) (gr_beats g)\<rparr>)"
proof -
  note parts = group_inv_parts [OF inv]
  have "beats_ok (gr_node g A) (insert (heartbeat_request (gr_node g A)) (gr_beats g)) (gr_answers g)"
    using parts(4) by (auto simp: beats_ok_def heartbeat_request_def)
  then show ?thesis using inv by (intro grown_refl) (simp add: group_inv_def)
qed

lemma step_beat_handled:
  assumes beat_handled: "a \<in> set M - {A}"
      "req \<in> gr_beats g"
      "AppendEntriesImpl L (gr_node g a) req = Inr (n', es, res)"
    and inv: "group_inv content lo A M log g"
  shows "grown content lo A M (log A)
    (set_node a n' (g\<lparr>gr_answers := insert res (gr_answers g)\<rparr>))"
proof -
  have a: "a \<in> set M" "a \<noteq> A" using beat_handled(1) by auto
  note parts = group_inv_parts [OF inv]
  have req: "aq_entries req = []" "aq_term req = current_term (gr_node g A)"
    "aq_leader_commit_index req \<le> commit_index (gr_node g A)"
    using parts(4) beat_handled(2) by (auto simp: beats_ok_def)
  obtain x h where n': "n' = gr_node g a\<lparr>status := kFollower, current_term := current_term (gr_node g A),
      cur_leader_addr := x, headbeat_cnt := h,
      commit_index := min (int (length (log a)) - 1) (aq_leader_commit_index req)\<rparr>"
    and res: "ar_current_term res = current_term (gr_node g A)"
    by (rule heartbeat_rel [OF parts(6) [OF a(1)] req(1,2) beat_handled(3)])
  have "group_inv content lo A M log (set_node a n' (g\<lparr>gr_answers := insert res (gr_answers g)\<rparr>))"
  proof (rule local_inv [OF inv a(1), where n' = n' and half = "gr_applied g a" and fin = "gr_end g a"])
    show "server_ok content lo (log A) (current_term (gr_node g A)) (commit_index (gr_node g A))
        (gr_applied g a) (gr_end g a) (log a) n'"
      using parts(6) [OF a(1)] req(3) by (auto simp: server_ok_def n')
    show "beats_ok (gr_node g A) (gr_beats (set_node a n' (g\<lparr>gr_answers := insert res (gr_answers g)\<rparr>)))
        (gr_answers (set_node a n' (g\<lparr>gr_answers := insert res (gr_answers g)\<rparr>)))"
      using parts(4) res by (simp add: beats_ok_def)
  qed (use a in \<open>simp_all add: n' fun_upd_idem\<close>)
  then show ?thesis by (rule grown_refl)
qed

lemma step_beat_answered:
  assumes beat_answered: "failed \<or> res \<in> gr_answers g"
    and inv: "group_inv content lo A M log g"
  shows "grown content lo A M (log A)
    (set_node A (HeartBeatCallBack (gr_node g A) res failed) g)"
proof -
  note parts = group_inv_parts [OF inv]
  have "HeartBeatCallBack (gr_node g A) res failed = gr_node g A"
    using parts(3,4) beat_answered(1) by (auto simp: HeartBeatCallBack_def leader_ok_def beats_ok_def)
  then have same: "set_node A (HeartBeatCallBack (gr_node g A) res failed) g = g"
    by (simp add: set_node_def fun_upd_idem)
  show ?thesis unfolding same using inv by (rule grown_refl)
qed

lemma step_timer:
  assumes timer: "a \<in> set M"
      "\<not> starts_round (gr_node g a)"
      "VoteLeader (gr_node g a) d = (n', es)"
    and inv: "group_inv content lo A M log g"
  shows "grown content lo A M (log A)
    (set_node a n' g)"
proof -
  note parts = group_inv_parts [OF inv]
  obtain h where n': "n' = gr_node g a\<lparr>headbeat_cnt := h\<rparr>"
    using timer(2,3) by (cases "status (gr_node g a) = kLeader")
      (auto simp: VoteLeader_def starts_round_def Let_def intro: that [of "headbeat_cnt (gr_node g a)"])
  have "group_inv content lo A M log (set_node a n' g)"
  proof (rule local_inv [OF inv timer(1), where n' = n' and half = "gr_applied g a" and fin = "gr_end g a"])
    show "server_ok content lo (log A) (current_term (gr_node g A)) (commit_index (gr_node g A))
        (gr_applied g a) (gr_end g a) (log a) n'"
      using parts(6) [OF timer(1)] by (auto simp: server_ok_def n')
    show "status n' = kFollower" if "a \<noteq> A"
      using parts(7) [OF timer(1) that] by (simp add: n' follower_ok_def)
  qed (use parts(4) in \<open>simp_all add: n' fun_upd_idem same_role_def\<close>)
  then show ?thesis by (rule grown_refl)
qed

lemma step_wake:
  assumes wake: "a \<in> set M"
      "gr_end g a \<le> last_applied_index (gr_node g a)"
      "last_applied_index (gr_node g a) < commit_index (gr_node g a)"
    and inv: "group_inv content lo A M log g"
  shows "grown content lo A M (log A)
    (g\<lparr>gr_end := (gr_end g)(a := commit_index (gr_node g a))\<rparr>)"
proof -
  note parts = group_inv_parts [OF inv]
  have "group_inv content lo A M log (g\<lparr>gr_end := (gr_end g)(a := commit_index (gr_node g a))\<rparr>)"
  proof (rule local_inv [OF inv wake(1), where n' = "gr_node g a" and half = "gr_applied g a"
        and fin = "commit_index (gr_node g a)"])
    show "server_ok content lo (log A) (current_term (gr_node g A)) (commit_index (gr_node g A))
        (gr_applied g a) (commit_index (gr_node g a)) (log a) (gr_node g a)"
      using parts(6) [OF wake(1)] wake(3) by (auto simp: server_ok_def)
    show "status (gr_node g a) = kFollower" if "a \<noteq> A"
      using parts(7) [OF wake(1) that] by (simp add: follower_ok_def)
  qed (use parts(4) in \<open>simp_all add: fun_upd_idem same_role_def\<close>)
  then show ?thesis by (rule grown_refl)
qed

lemma step_apply_entry:
  assumes apply_entry: "a \<in> set M"
      "\<not> gr_applied g a"
      "last_applied_index (gr_node g a) < gr_end g a"
      "0 \<le> loop_slot (gr_node g a)"
      "CommitIndex_apply L (gr_node g a) (loop_slot (gr_node g a)) = Inr n'"
    and inv: "group_inv content lo A M log g"
  shows "grown content lo A M (log A)
    (set_node a n' (g\<lparr>gr_applied := (gr_applied g)(a := True)\<rparr>))"
proof -
  note parts = group_inv_parts [OF inv]
  have "list_all client_entry (log A)" using parts(3) by (simp add: leader_ok_def)
  moreover have "server_ok content lo (log A) (current_term (gr_node g A)) (commit_index (gr_node g A))
      False (gr_end g a) (log a) (gr_node g a)" using parts(6) [OF apply_entry(1)] apply_entry(2) by simp
  ultimately obtain ds where "CommitIndex_apply L (gr_node g a) (loop_slot (gr_node g a)) =
      Inr (gr_node g a\<lparr>data_store := ds\<rparr>)"
    and srv: "server_ok content lo (log A) (current_term (gr_node g A)) (commit_index (gr_node g A))
      True (gr_end g a) (log a) (gr_node g a\<lparr>data_store := ds\<rparr>)"
    using apply_rel [OF _ _ apply_entry(3,4)] by blast
  then have n': "n' = gr_node g a\<lparr>data_store := ds\<rparr>"
    and srv: "server_ok content lo (log A) (current_term (gr_node g A)) (commit_index (gr_node g A))
      True (gr_end g a) (log a) n'" using apply_entry(5) by simp_all
  have "group_inv content lo A M log (set_node a n' (g\<lparr>gr_applied := (gr_applied g)(a := True)\<rparr>))"
  proof (rule local_inv [OF inv apply_entry(1) _ _ _ _ srv])
    show "status n' = kFollower" if "a \<noteq> A"
      using parts(7) [OF apply_entry(1) that] by (simp add: n' follower_ok_def)
  qed (use parts(4) in \<open>simp_all add: n' fun_upd_idem same_role_def\<close>)
  then show ?thesis by (rule grown_refl)
qed

lemma step_acknowledge:
  assumes acknowledge: "a \<in> set M"
      "gr_applied g a"
      "CommitIndex_ack L (gr_node g a) (loop_slot (gr_node g a)) = (n', es)"
    and inv: "group_inv content lo A M log g"
  shows "grown content lo A M (log A)
    (set_node a n' (g\<lparr>gr_applied := (gr_applied g)(a := False)\<rparr>))"
proof -
  note parts = group_inv_parts [OF inv]
  have "server_ok content lo (log A) (current_term (gr_node g A)) (commit_index (gr_node g A))
      True (gr_end g a) (log a) (gr_node g a)" using parts(6) [OF acknowledge(1)] acknowledge(2) by simp
  then obtain m i ds where n': "n' = gr_node g a\<lparr>sdk_ack_map := m, last_applied_index := i, data_store := ds\<rparr>"
    and srv: "server_ok content lo (log A) (current_term (gr_node g A)) (commit_index (gr_node g A))
      False (gr_end g a) (log a) n'"
    using ack_rel [OF _ acknowledge(3)] by blast
  have "group_inv content lo A M log (set_node a n' (g\<lparr>gr_applied := (gr_applied g)(a := False)\<rparr>))"
  proof (rule local_inv [OF inv acknowledge(1) _ _ _ _ srv])
    show "status n' = kFollower" if "a \<noteq> A"
      using parts(7) [OF acknowledge(1) that] by (simp add: n' follower_ok_def)
  qed (use parts(4) in \<open>simp_all add: n' fun_upd_idem same_role_def\<close>)
  then show ?thesis by (rule grown_refl)
qed

lemma group_step_inv:
  assumes "group_step L A M g g'" and "group_inv content lo A M log g"
  shows "grown content lo A M (log A) g'"
  using assms
  by (induction rule: group_step.induct) (rule step_client step_prepare step_collect step_lose step_inspect step_store step_answer step_turn
    step_beat step_beat_handled step_beat_answered step_timer step_wake step_apply_entry step_acknowledge; assumption)+

end

end
