(* ===== verification/StableSafety.thy ===== *)
theory StableSafety
  imports StableInv
begin

text \<open>
  What follows for a cluster under one leader: the start satisfies the invariant, so it holds in
  every reachable state, and under it all data stores are applied prefixes of one log and no
  handler of the replication and of the commit threads runs into a fault.
\<close>

section \<open>The start\<close>

lemma start_replica_loop_indices:
  assumes "replicating n = {}"
  shows "next_index (fst (start_replica_loop n addrs)) a =
      (if a \<in> set addrs \<and> a \<noteq> self_addr n then Some (log_length n) else next_index n a)"
    and "match_index (fst (start_replica_loop n addrs)) a =
      (if a \<in> set addrs \<and> a \<noteq> self_addr n then Some (-1) else match_index n a)"
  using assms
  by (induction addrs arbitrary: n) (auto simp: Let_def case_prod_beta log_length_def)

text \<open>What a server is that does not lead and has an empty log; elections do not change it.\<close>

definition quiet ::
  "('db \<Rightarrow> string \<Rightarrow> string option) \<Rightarrow> string list \<Rightarrow> string \<Rightarrow> 'db node \<Rightarrow> bool"
where
  "quiet content M a n \<longleftrightarrow>
     binlog_rel content 0 (binlogger n) [] \<and> content (data_store n) = (\<lambda>_. None) \<and> \<not> stop n \<and>
     self_addr n = a \<and> all_server_addr n = M \<and> commit_index n = -1 \<and> last_applied_index n = -1 \<and>
     last_safe_clean_index n = -1 \<and> next_index n = (\<lambda>_. None) \<and> match_index n = (\<lambda>_. None) \<and>
     replicating n = {} \<and> 0 \<le> current_term n"

lemma quiet_election:
  assumes "quiet content M a n"
  shows "VoteLeader n d = (n', es) \<Longrightarrow> quiet content M a n'"
    and "Vote n r = (n', res) \<Longrightarrow> quiet content M a n'"
    and "current_term n < t \<Longrightarrow> quiet content M a (SwitchToFollower n t)"
    and "quiet content M a (n\<lparr>vote_pass := vp\<rparr>)"
  using assms
  by (auto simp: quiet_def VoteLeader_def Vote_def SwitchToFollower_def Let_def case_prod_beta split: if_splits)

text \<open>A leader takes no part in elections.\<close>

lemma elect_step_leader: "elect_step L n n' \<Longrightarrow> status n = kLeader \<Longrightarrow> n' = n"
  by (induction rule: elect_step.induct)
    (auto simp: VoteLeader_def Vote_def VoteCallBack_def Let_def case_prod_beta)

definition made_leader ::
  "'db leveldb \<Rightarrow> ('db \<Rightarrow> string \<Rightarrow> string option) \<Rightarrow> string list \<Rightarrow> string \<Rightarrow> 'db node \<Rightarrow> bool"
where
  "made_leader L content M a n \<longleftrightarrow> (\<exists>m es. quiet content M a m \<and> SwitchToLeader L m = Inr (n, es))"

lemma made_leader_status: "made_leader L content M a n \<Longrightarrow> status n = kLeader"
  by (auto simp: made_leader_def elim!: SwitchToLeader_frame)

lemma elect_step_quiet:
  assumes "elect_step L n n'" and n: "quiet content M a n" and "status n \<noteq> kLeader"
  shows "quiet content M a n' \<and> status n' \<noteq> kLeader \<or> made_leader L content M a n'"
  using assms(1)
proof cases
  case (round d es)
  then show ?thesis
    using quiet_election(1) [OF n] assms(3) by (auto simp: VoteLeader_def Let_def split: if_splits)
next
  case (ballot r res)
  then show ?thesis
    using quiet_election(2) [OF n] assms(3) by (auto simp: Vote_def Let_def case_prod_beta split: if_splits)
next
  case (count res failed es)
  then show ?thesis
    using quiet_election(3,4) [OF n] n assms(3)
    by (auto simp: VoteCallBack_def Let_def made_leader_def split: if_splits)
qed

context leveldb_available
begin

lemma fresh_quiet: "fresh_node L content M a n \<Longrightarrow> quiet content M a n \<and> status n = kFollower"
  using store.get_view
  by (auto simp: fresh_node_def quiet_def AirDBImpl_init_def Let_def split: prod.splits option.splits)

lemma only_elections_cases:
  assumes "only_elections L content M a n"
  shows "quiet content M a n \<and> status n \<noteq> kLeader \<or> made_leader L content M a n"
proof -
  obtain m where m: "fresh_node L content M a m" and run: "(elect_step L)\<^sup>*\<^sup>* m n"
    using assms by (auto simp: only_elections_def)
  show ?thesis
    using run
  proof (induction rule: rtranclp_induct)
    case base
    then show ?case using fresh_quiet [OF m] by simp
  next
    case (step n n')
    then show ?case using elect_step_quiet elect_step_leader made_leader_status by metis
  qed
qed

lemma nop_entry_ok: "in_i64 t \<Longrightarrow> entry_ok (nop_entry t)" "client_entry (nop_entry t)"
  by (simp_all add: nop_entry_def entry_ok_def entry_size_def in_i32_def client_entry_def
      tag_last_applied_index_def)

lemma made_leaderD:
  assumes "made_leader L content M A l" and "in_i64 (current_term l)"
  shows "binlog_rel content 0 (binlogger l) [nop_entry (current_term l)]" and "status l = kLeader" and "\<not> stop l"
    and "self_addr l = A" and "all_server_addr l = M" and "0 \<le> current_term l"
    and "commit_index l = -1" and "last_applied_index l = -1" and "content (data_store l) = (\<lambda>_. None)"
    and "match_index l A = None" and "last_safe_clean_index l = -1"
    and "a \<in> set M \<Longrightarrow> a \<noteq> A \<Longrightarrow> next_index l a = Some 0 \<and> match_index l a = Some (-1)"
proof -
  obtain m es where m: "quiet content M A m" and lead: "SwitchToLeader L m = Inr (l, es)"
    using assms(1) by (auto simp: made_leader_def)
  define n where "n = m\<lparr>status := kLeader, cur_leader_addr := self_addr m\<rparr>"
  have q: "quiet content M A n" and st: "status n = kLeader" using m by (simp_all add: n_def quiet_def)
  then have n: "self_addr n = A" "all_server_addr n = M" "replicating n = {}" "next_index n = (\<lambda>_. None)"
    "match_index n = (\<lambda>_. None)" "binlog_rel content 0 (binlogger n) []" by (simp_all add: quiet_def)
  obtain ni mi where frame: "fst (start_replica_loop n M) = n\<lparr>next_index := ni, match_index := mi\<rparr>"
    using start_replica_loop_frame by blast
  obtain ni' mi' b' where l': "l = n\<lparr>next_index := ni', match_index := mi', binlogger := b'\<rparr>"
    by (rule SwitchToLeader_frame [OF lead]) (simp add: n_def)
  then have ok: "entry_ok (nop_entry (current_term n))" using assms(2) by (intro nop_entry_ok(1)) simp
  obtain b where b: "WriteEntry L (binlogger n) (nop_entry (current_term n)) = Inr b"
    "binlog_rel content 0 b [nop_entry (current_term n)]"
    using log.write_one_holds [OF n(6) ok] by auto
  have l: "l = n\<lparr>next_index := ni, match_index := mi, binlogger := b\<rparr>"
    using lead frame b(1) n(2)
    by (simp add: SwitchToLeader_def StartReplicaLog_def n_def [symmetric] Let_def case_prod_beta)
  have "ni a = next_index (fst (start_replica_loop n M)) a"
    "mi a = match_index (fst (start_replica_loop n M)) a" for a by (simp_all add: frame)
  then have idx: "ni a = (if a \<in> set M \<and> a \<noteq> A then Some (log_length n) else None)"
    "mi a = (if a \<in> set M \<and> a \<noteq> A then Some (-1) else None)" for a
    using start_replica_loop_indices [OF n(3)] n by simp_all
  have "log_length n = 0" using log_length_rel [OF n(6)] by simp
  then show "binlog_rel content 0 (binlogger l) [nop_entry (current_term l)]" "status l = kLeader" "\<not> stop l"
    "self_addr l = A" "all_server_addr l = M" "0 \<le> current_term l" "commit_index l = -1"
    "last_applied_index l = -1" "content (data_store l) = (\<lambda>_. None)" "match_index l A = None"
    "last_safe_clean_index l = -1"
    "a \<in> set M \<Longrightarrow> a \<noteq> A \<Longrightarrow> next_index l a = Some 0 \<and> match_index l a = Some (-1)"
    using b(2) q st idx by (simp_all add: l quiet_def)
qed

lemma first_leader:
  assumes "group_start L content A M g"
  shows "made_leader L content M A (gr_node g A)" and "in_i64 (current_term (gr_node g A))"
  using assms only_elections_cases by (auto simp: group_start_def)

lemma store_rel_empty: "content ds = (\<lambda>_. None) \<Longrightarrow> store_rel content ds (\<lambda>_. None)"
  by (simp add: store_rel_def)

lemma group_start_inv:
  assumes start: "group_start L content A M g"
  shows "group_inv content 0 A M (\<lambda>a. if a = A then [nop_entry (current_term (gr_node g A))] else []) g"
proof -
  have M: "A \<in> set M" "distinct M" and g: "gr_thread g = (\<lambda>_. Idle)" "gr_end g = (\<lambda>_. -1)"
    "gr_applied g = (\<lambda>_. False)" "gr_beats g = {}" "gr_answers g = {}"
    using start by (auto simp: group_start_def)
  note l = made_leaderD [OF first_leader [OF start]]
  let ?t = "current_term (gr_node g A)"
  have "leader_ok A M [nop_entry ?t] (gr_node g A)"
    using l nop_entry_ok(2) [of ?t] by (simp add: leader_ok_def) (simp add: nop_entry_def)
  moreover have "server_ok content 0 [nop_entry ?t] ?t (-1) False (-1) [nop_entry ?t] (gr_node g A)"
    using l store_rel_empty by (simp add: server_ok_def)
  moreover have "server_ok content 0 [nop_entry ?t] ?t (-1) False (-1) [] (gr_node g a) \<and>
      status (gr_node g a) = kFollower" if "a \<in> set M" "a \<noteq> A" for a
  proof -
    have "status (gr_node g a) = kFollower" "current_term (gr_node g a) \<le> ?t"
      "only_elections L content M a (gr_node g a)" using start that by (auto simp: group_start_def)
    moreover from this have "quiet content M a (gr_node g a)"
      using only_elections_cases made_leader_status by fastforce
    ultimately show ?thesis by (simp add: quiet_def server_ok_def store_rel_empty)
  qed
  ultimately show ?thesis
    using M l by (simp add: group_inv_def g beats_ok_def held_by_def follower_ok_def)
qed

lemma group_reachable_inv:
  "group_reachable L content A M g \<Longrightarrow> \<exists>log. group_inv content 0 A M log g"
proof (induction rule: group_reachable.induct)
  case (start g)
  then show ?case using group_start_inv by blast
next
  case (step g g')
  then show ?case using group_step_inv unfolding grown_def by blast
qed

end

section \<open>Consequences of the invariant\<close>

text \<open>Reading a slot that the leader and a server hold gives the same entry.\<close>

lemma server_ok_read:
  assumes "leveldb_available L content" and ok: "server_ok content lo llog T cmax half fin log n"
    and "lo \<le> i" and "i < int (length log)"
  shows "ReadSlot L (binlogger n) i = Inr (Some (llog ! nat i))"
proof -
  have pre: "log = take (length log) llog" using ok by (simp add: server_ok_def)
  moreover have "0 \<le> i" using binlog_rel_lo [OF server_ok_log [OF ok]] assms(3) by simp
  ultimately have "log ! nat i = llog ! nat i" using assms(4) by (metis nat_less_iff nth_take)
  then show ?thesis
    using leveldb_available.read_log [OF assms(1) server_ok_log [OF ok] assms(3,4)] by simp
qed

lemma server_ok_applied:
  assumes "server_ok content lo llog T cmax half fin log n"
  shows "\<exists>k. binlog_rel content lo (binlogger n) (take k llog)" and "last_applied_index n \<le> cmax"
    and "store_rel content (data_store n)
      (fold apply_spec (take (nat (last_applied_index n + 1) + (if half then 1 else 0)) llog) (\<lambda>_. None))"
  using assms unfolding server_ok_def by metis+

context leveldb_available
begin

text \<open>The operations a thread is about to run succeed.\<close>

lemma group_inv_prepare:
  assumes "group_inv content lo A M log g" and "a \<in> set M" "a \<noteq> A" and idle: "gr_thread g a = Idle"
  shows "\<exists>r. ReplicateLog_prepare L (gr_node g A) a ok = Inr (gr_node g A, r) \<and> r \<noteq> ReplExit"
proof -
  note parts = group_inv_parts [OF assms(1)]
  obtain i where i: "next_index (gr_node g A) a = Some i" "0 \<le> i" "i \<le> int (length (log A))"
    and len: "int (length (log a)) \<le> i"
    using parts(7) [OF assms(2,3)] idle by (auto elim!: follower_okD)
  have st: "status (gr_node g A) = kLeader" "\<not> stop (gr_node g A)"
    using parts(3) by (auto simp: leader_ok_def)
  show ?thesis
    using prepare_eq [OF server_ok_log [OF parts(6) [OF parts(1)]] st i
        server_ok_lo [OF parts(6) [OF assms(2)] len]] by simp
qed

lemma group_inv_pc:
  assumes "group_inv content lo A M log g" and "a \<in> set M" "a \<noteq> A"
  shows "gr_thread g a = Prepared c \<Longrightarrow> \<exists>x. ReplicateLog_collect L (gr_node g A) c = Inr (Some x)"
    and "gr_thread g a = Called c mt req \<Longrightarrow> \<exists>x. AppendEntries_check L (gr_node g a) req = Inr x"
    and "gr_thread g a = Checked c mt req \<Longrightarrow> \<exists>x. AppendEntries_write L (gr_node g a) req = Inr x"
proof -
  note parts = group_inv_parts [OF assms(1)]
  obtain i where th: "thread_ok (log A) (current_term (gr_node g A)) A (commit_index (gr_node g A))
      (int (length (log a))) i (gr_thread g a)"
    using parts(7) [OF assms(2,3)] by (auto elim!: follower_okD)
  show "\<exists>x. ReplicateLog_collect L (gr_node g A) c = Inr (Some x)" if "gr_thread g a = Prepared c"
    using collect_eq [OF server_ok_log [OF parts(6) [OF parts(1)]] _
        server_ok_lo [OF parts(6) [OF assms(2)]], of _ _ i c] th that by fastforce
  show "\<exists>x. AppendEntries_check L (gr_node g a) req = Inr x" if "gr_thread g a = Called c mt req"
    using check_eq [OF parts(6) [OF assms(2)]] th that by auto
  have ok: "\<forall>e \<in> set (log A). entry_ok e"
    using binlog_rel_ok [OF server_ok_log [OF parts(6) [OF parts(1)]]] by blast
  show "\<exists>x. AppendEntries_write L (gr_node g a) req = Inr x" if "gr_thread g a = Checked c mt req"
    using store_entries_rel [OF parts(6) [OF assms(2)] _ _ ok] th that by auto metis
qed

lemma group_inv_apply:
  assumes "group_inv content lo A M log g" and "a \<in> set M" and "\<not> gr_applied g a"
    and "last_applied_index (gr_node g a) < gr_end g a" and "0 \<le> loop_slot (gr_node g a)"
  shows "\<exists>n'. CommitIndex_apply L (gr_node g a) (loop_slot (gr_node g a)) = Inr n'"
proof -
  note parts = group_inv_parts [OF assms(1)]
  have "list_all client_entry (log A)" using parts(3) by (simp add: leader_ok_def)
  moreover have "server_ok content lo (log A) (current_term (gr_node g A)) (commit_index (gr_node g A))
      False (gr_end g a) (log a) (gr_node g a)" using parts(6) [OF assms(2)] assms(3) by simp
  ultimately show ?thesis using apply_rel [OF _ _ assms(4,5)] by blast
qed

text \<open>Every log is a prefix of the leader's and every data store the applied prefix of it.\<close>

lemma group_inv_state_machine:
  assumes "group_inv content lo A M log g" and "a \<in> set M"
  shows "(\<exists>k. binlog_rel content lo (binlogger (gr_node g a)) (take k (log A))) \<and>
    lo \<le> max 0 (last_applied_index (gr_node g a)) \<and>
    last_applied_index (gr_node g a) \<le> commit_index (gr_node g A) \<and>
    store_rel content (data_store (gr_node g a))
      (fold apply_spec (take (nat (last_applied_index (gr_node g a) + 1) +
         (if gr_applied g a then 1 else 0)) (log A)) (\<lambda>_. None))"
proof -
  note srv = group_inv_parts(6) [OF assms]
  show ?thesis using server_ok_applied [OF srv] srv by (simp add: server_ok_def)
qed

text \<open>The slots of a log of less than \<open>2 ^ 31\<close> entries are within the loop variable's range.\<close>

lemma group_inv_loop_slot:
  assumes inv: "group_inv content lo A M log g" and a: "a \<in> set M"
    and len: "log_length (gr_node g A) \<le> 2147483647"
    and lag: "last_applied_index (gr_node g a) < gr_end g a \<or> last_applied_index (gr_node g a) < commit_index (gr_node g a)"
  shows "0 \<le> loop_slot (gr_node g a)" and "loop_slot (gr_node g a) < 2147483647"
    and "loop_slot (gr_node g a) = last_applied_index (gr_node g a) + 1"
proof -
  note srv = group_inv_parts(6) [OF inv a]
  have "int (length (log A)) \<le> 2147483647"
    using len log_length_rel [OF group_inv_log [OF inv disjI2 [OF refl]]] by simp
  then have "last_applied_index (gr_node g a) + 1 < 2147483647" and ge: "-1 \<le> last_applied_index (gr_node g a)"
    using lag srv server_ok_bound(2) [OF srv] by (auto simp: server_ok_def)
  then show "loop_slot (gr_node g a) = last_applied_index (gr_node g a) + 1"
    "0 \<le> loop_slot (gr_node g a)" "loop_slot (gr_node g a) < 2147483647"
    by (simp_all add: loop_slot_eq)
qed

lemma group_inv_no_fault:
  assumes inv: "group_inv content lo A M log g" and a: "a \<in> set M"
    and len: "log_length (gr_node g A) \<le> 2147483647"
  shows "(\<not> gr_applied g a \<and> last_applied_index (gr_node g a) < gr_end g a \<longrightarrow>
      loop_slot (gr_node g a) < 2147483647 \<and>
      (\<exists>n. CommitIndex_apply L (gr_node g a) (loop_slot (gr_node g a)) = Inr n)) \<and>
    (a \<noteq> A \<longrightarrow> (case gr_thread g a of
        Idle \<Rightarrow> \<exists>r. ReplicateLog_prepare L (gr_node g A) a (gr_ok g a) = Inr (gr_node g A, r) \<and> r \<noteq> ReplExit
      | Prepared c \<Rightarrow> \<exists>x. ReplicateLog_collect L (gr_node g A) c = Inr (Some x)
      | Called c mt req \<Rightarrow> \<exists>x. AppendEntries_check L (gr_node g a) req = Inr x
      | Checked c mt req \<Rightarrow> \<exists>x. AppendEntries_write L (gr_node g a) req = Inr x
      | _ \<Rightarrow> True))"
  using group_inv_apply [OF inv a] group_inv_loop_slot [OF inv a len] group_inv_prepare [OF inv a]
    group_inv_pc [OF inv a]
  by (auto split: repl_pc.split)

end

section \<open>A sample group\<close>

text \<open>Server \<open>a\<close> has won the election of the first term with the vote of \<open>b\<close>.\<close>

definition sample_winner :: "mem_db node" where
  "sample_winner =
     (let n = fst (VoteLeader (sample_node ''a'' [''a'', ''b''] []) 0)
      in case VoteCallBack mem_leveldb n \<lparr>vr_term = 1, vr_vote_pass = True\<rparr> False of
           Inr (n', es) \<Rightarrow> n' | Inl f \<Rightarrow> n)"

definition sample_group :: "mem_db group" where
  "sample_group = \<lparr>gr_node = (\<lambda>a. if a = ''a'' then sample_winner
       else fst (Vote (sample_node a [''a'', ''b''] [])
         (vote_request_of (fst (VoteLeader (sample_node ''a'' [''a'', ''b''] []) 0))))),
     gr_thread = (\<lambda>_. Idle), gr_ok = (\<lambda>_. True), gr_end = (\<lambda>_. -1), gr_applied = (\<lambda>_. False),
     gr_beats = {}, gr_answers = {}\<rparr>"

lemma sample_node_fresh: "fresh_node mem_leveldb map_of M a (sample_node a M [])"
  unfolding fresh_node_def
  using sample_node_init [of a M "[]" 0] mem_binlog_rel [of "[]"]
  by (intro exI [of _ "mem_binlog []"] exI [of _ "[]"] exI) auto

lemma sample_winner_leads:
  "only_elections mem_leveldb map_of [''a'', ''b''] ''a'' sample_winner"
  "status sample_winner = kLeader" "current_term sample_winner = 1"
proof -
  let ?m = "sample_node ''a'' [''a'', ''b''] []"
  obtain n es where v: "VoteLeader ?m 0 = (n, es)" by fastforce
  have "case VoteCallBack mem_leveldb (fst (VoteLeader ?m 0)) \<lparr>vr_term = 1, vr_vote_pass = True\<rparr> False of
      Inr (n, es) \<Rightarrow> status n = kLeader \<and> current_term n = 1 | Inl f \<Rightarrow> False"
    by code_simp
  then obtain n' es' where c: "VoteCallBack mem_leveldb n \<lparr>vr_term = 1, vr_vote_pass = True\<rparr> False = Inr (n', es')"
    and n': "status n' = kLeader" "current_term n' = 1"
    by (auto simp: v split: sum.splits)
  have w: "sample_winner = n'" by (simp add: sample_winner_def v c)
  have "(elect_step mem_leveldb)\<^sup>*\<^sup>* ?m n'"
    using elect_step.round [OF v] elect_step.count [OF c] by (meson converse_rtranclp_into_rtranclp r_into_rtranclp)
  then show "only_elections mem_leveldb map_of [''a'', ''b''] ''a'' sample_winner"
    using sample_node_fresh unfolding only_elections_def w by blast
  show "status sample_winner = kLeader" "current_term sample_winner = 1" by (simp_all add: w n')
qed

lemma sample_group_start: "group_start mem_leveldb map_of ''a'' [''a'', ''b''] sample_group"
proof -
  let ?b = "sample_node ''b'' [''a'', ''b''] []"
  let ?r = "vote_request_of (fst (VoteLeader (sample_node ''a'' [''a'', ''b''] []) 0))"
  have "status (fst (Vote ?b ?r)) = kFollower \<and> current_term (fst (Vote ?b ?r)) = 1" by code_simp
  moreover have "elect_step mem_leveldb ?b (fst (Vote ?b ?r))"
    by (rule elect_step.ballot [where res = "snd (Vote ?b ?r)"]) simp
  then have "only_elections mem_leveldb map_of [''a'', ''b''] ''b'' (fst (Vote ?b ?r))"
    using sample_node_fresh unfolding only_elections_def by blast
  ultimately show ?thesis
    using sample_winner_leads by (simp add: group_start_def sample_group_def in_i64_def)
qed

lemma sample_group_reachable: "group_reachable mem_leveldb map_of ''a'' [''a'', ''b''] sample_group"
  by (intro group_reachable.start sample_group_start)

end
