(* ===== verification/StableProgress.thy ===== *)
theory StableProgress
  imports StableSafety
begin

text \<open>
  A cluster under one leader can always make progress: whatever its threads are doing, there is
  a way on in which everything the leader has logged is committed. The way is a schedule of the
  threads: the calls under way end, each follower applies what it may, and each \<open>ReplicateLog\<close>
  thread turns until its follower has the leader's log.
\<close>

text \<open>The invariant holds, from whatever slot on the logs are kept.\<close>

definition led :: "('db \<Rightarrow> string \<Rightarrow> string option) \<Rightarrow> string \<Rightarrow> string list \<Rightarrow> 'db group \<Rightarrow> bool" where
  "led content A M g \<longleftrightarrow> (\<exists>lo log. group_inv content lo A M log g)"

lemma group_reachable_runs:
  "(group_step L A M)\<^sup>*\<^sup>* g g' \<Longrightarrow> group_reachable L content A M g \<Longrightarrow> group_reachable L content A M g'"
  by (induction rule: rtranclp_induct) (auto intro: group_reachable.step)

section \<open>When the followers agree\<close>

text \<open>
  A follower whose next index is the end of the leader's log has that log's last slot as its match
  index, and once all followers have, that slot is committed: nothing is left behind that only
  another call of a client would move.
\<close>

fun max_term_ok :: "int \<Rightarrow> repl_pc \<Rightarrow> bool" where
  "max_term_ok T (Called c mt req) \<longleftrightarrow> mt = T"
| "max_term_ok T (Checked c mt req) \<longleftrightarrow> mt = T"
| "max_term_ok T (Written c mt req) \<longleftrightarrow> mt = T"
| "max_term_ok T (Returned c mt ret) \<longleftrightarrow> mt = T"
| "max_term_ok T pc \<longleftrightarrow> True"

definition sync_inv :: "string \<Rightarrow> string list \<Rightarrow> 'db node \<Rightarrow> (string \<Rightarrow> repl_pc) \<Rightarrow> bool" where
  "sync_inv A M l pc \<longleftrightarrow>
     (\<forall>a \<in> set M - {A}. max_term_ok (current_term l) (pc a) \<and>
        (next_index l a = Some (log_length l) \<longrightarrow> match_index l a = Some (log_length l - 1))) \<and>
     ((\<forall>a \<in> set M - {A}. match_index l a = Some (log_length l - 1)) \<longrightarrow>
        log_length l - 1 \<le> commit_index l)"

lemma sync_inv_same:
  "sync_inv A M l pc \<Longrightarrow> same_role l l' \<Longrightarrow> log_length l' = log_length l \<Longrightarrow>
     (\<And>a. a \<in> set M - {A} \<Longrightarrow> max_term_ok (current_term l) (pc a) \<Longrightarrow> max_term_ok (current_term l) (pc' a)) \<Longrightarrow>
     sync_inv A M l' pc'"
  by (auto simp: sync_inv_def same_role_def)

lemma max_terms_same:
  assumes "es \<noteq> []" and "\<forall>e \<in> set es. be_term e = T" and "0 \<le> T"
  shows "max_terms es = T"
  using assms
proof (induction es)
  case (Cons e es)
  then show ?case by (cases "es = []") (simp_all add: max_terms_def)
qed simp

text \<open>What the leader makes of an answer, in full.\<close>

lemma turn_cases:
  assumes st: "status l = kLeader" "all_server_addr l = M" "a \<in> set M" "a \<noteq> A"
    and idx: "next_index l a = Some i" "0 \<le> len"
    and th: "thread_ok llog (current_term l) A cmax len i (Returned c mt ret)" "mt = current_term l"
    and run: "ReplicateLog_finish l a c mt ok ret = (l', ok', es, go)"
  obtains (same) "l' = l"
  | (lower) "len < i" "l' = l\<lparr>next_index := (next_index l)(a := Some len)\<rparr>"
  | (match) k m where "l' = l\<lparr>next_index := (next_index l)(a := Some len), match_index := m,
        commit_index := (if length M div 2 \<le> k \<and> commit_index l < len - 1 then len - 1 else commit_index l)\<rparr>"
      "m a = Some (len - 1)" "\<And>b. b \<in> set M \<Longrightarrow> match_index l b \<noteq> None \<Longrightarrow> b \<noteq> a \<Longrightarrow> m b = match_index l b"
      "k = length (filter (\<lambda>b. at_default 0 m b = len - 1) M)"
proof (cases ret)
  case None
  then show thesis using same run st by (simp add: ReplicateLog_finish_def)
next
  case (Some res)
  note th' = th(1) [unfolded Some, simplified]
  have c: "rc_index c = i" using th' by (simp add: ctx_ok_def)
  note defs = ReplicateLog_finish_def Let_def Some
  consider (no) "\<not> ar_success res" "ar_is_busy res" | (less) "\<not> ar_success res" "\<not> ar_is_busy res"
    | (yes) "ar_success res" by blast
  then show thesis
  proof cases
    case no
    then show thesis using same run st th' by (simp add: defs)
  next
    case less
    then have len: "len < i" "ar_log_length res = len" using th' by auto
    then have "min (i - 1) len = len" by simp
    then show thesis using lower run less st th' len idx by (simp add: defs)
  next
    case yes
    then have len: "len = i + rc_batch c" using th' by simp
    let ?l = "l\<lparr>next_index := (next_index l)(a := Some len), match_index := (match_index l)(a := Some (len - 1))\<rparr>"
    obtain n2 es2 where u: "UpdateCommitIndex ?l (len - 1) = (n2, es2)" by fastforce
    have "l' = n2" using run yes st th' u th(2) by (simp add: defs c len)
    moreover have "at_default 0 (\<lambda>b. if b \<in> set M then Some (at_default 0 (match_index ?l) b) else match_index ?l b) =
        at_default 0 (match_index ?l)" by (auto simp: at_default_def fun_eq_iff)
    ultimately show thesis
      using UpdateCommitIndex_eq [OF u] st
      by (intro match [where m = "\<lambda>b. if b \<in> set M then Some (at_default 0 (match_index ?l) b) else match_index ?l b"
            and k = "match_count ?l (len - 1) M"])
        (auto simp: match_count_def at_default_def)
  qed
qed

lemma sync_inv_turn:
  assumes sync: "sync_inv A M l pc" and M: "distinct M" "A \<in> set M" and a: "a \<in> set M" "a \<noteq> A"
    and st: "status l = kLeader" "all_server_addr l = M"
    and idx: "next_index l a = Some i" "i \<le> log_length l" "0 \<le> len" "len \<le> log_length l"
    and known: "\<And>b. b \<in> set M \<Longrightarrow> b \<noteq> A \<Longrightarrow> match_index l b \<noteq> None"
    and th: "thread_ok llog (current_term l) A cmax len i (Returned c mt ret)"
    and pc: "pc a = Returned c mt ret"
    and run: "ReplicateLog_finish l a c mt ok ret = (l', ok', es, go)"
  shows "sync_inv A M l' (pc(a := Idle))"
proof -
  have "max_term_ok (current_term l) (pc a)" using sync a by (simp add: sync_inv_def)
  then have mt: "mt = current_term l" by (simp add: pc)
  show ?thesis
  proof (rule turn_cases [OF st a idx(1,3) th mt run])
    assume "l' = l"
    then show ?thesis using sync by (auto simp: sync_inv_def)
  next
    assume "len < i" and l': "l' = l\<lparr>next_index := (next_index l)(a := Some len)\<rparr>"
    then have "len \<noteq> log_length l" using idx by simp
    then show ?thesis using sync by (auto simp: sync_inv_def l' log_length_def)
  next
    fix k m
    assume l': "l' = l\<lparr>next_index := (next_index l)(a := Some len), match_index := m,
        commit_index := (if length M div 2 \<le> k \<and> commit_index l < len - 1 then len - 1 else commit_index l)\<rparr>"
      and m: "m a = Some (len - 1)" "\<And>b. b \<in> set M \<Longrightarrow> match_index l b \<noteq> None \<Longrightarrow> b \<noteq> a \<Longrightarrow> m b = match_index l b"
      and k: "k = length (filter (\<lambda>b. at_default 0 m b = len - 1) M)"
    have len: "log_length l' = log_length l" by (simp add: l' log_length_def)
    have "log_length l - 1 \<le> commit_index l'" if all: "\<forall>b \<in> set M - {A}. m b = Some (log_length l - 1)"
    proof -
      have e: "len = log_length l" using all a m(1) by fastforce
      have "length M - 1 = card (set M - {A})" using M by (simp add: distinct_card)
      also have "\<dots> \<le> card (set (filter (\<lambda>b. at_default 0 m b = len - 1) M))"
        using all e by (intro card_mono) (auto simp: at_default_def)
      also have "\<dots> \<le> k" unfolding k by (rule card_length)
      finally have "length M div 2 \<le> k" using a M(2) by (cases M) auto
      then show ?thesis by (simp add: l' e)
    qed
    then show ?thesis
      using sync m known by (auto simp: sync_inv_def len) (auto simp: l')
  qed
qed

context leveldb_available
begin

lemma sync_inv_start:
  assumes "group_start L content A M g" and "2 \<le> length M"
  shows "sync_inv A M (gr_node g A) (gr_thread g)"
proof -
  have M: "A \<in> set M" "distinct M" and pc: "gr_thread g = (\<lambda>_. Idle)"
    using assms by (auto simp: group_start_def)
  note l = made_leaderD [OF first_leader [OF assms(1)]]
  have len: "log_length (gr_node g A) = 1" using log_length_rel [OF l(1)] by simp
  have "card (set M - {A}) \<noteq> 0" using M assms(2) by (simp add: distinct_card)
  then obtain b where "b \<in> set M - {A}" by (metis card.empty ex_in_conv)
  then show ?thesis using l(12) by (auto simp: sync_inv_def len pc)
qed

text \<open>The steps that the invariant depends on, one lemma each.\<close>

lemma sync_inv_client:
  assumes call: "client_call L (gr_node g A) n'" and inv: "group_inv content lo A M log g"
    and M: "2 \<le> length M" and sync: "sync_inv A M (gr_node g A) pc"
  shows "sync_inv A M n' pc"
proof -
  note parts = group_inv_parts [OF inv]
  let ?l = "gr_node g A"
  have rel: "binlog_rel content lo (binlogger ?l) (log A)" using group_inv_log [OF inv] by simp
  have len: "log_length ?l = int (length (log A))" by (rule log_length_rel [OF rel])
  have st: "status ?l = kLeader" using parts(3) by (simp add: leader_ok_def)
  obtain e m where e: "binlog_rel content lo (binlogger n') (log A @ [e])"
    and n': "n' = ?l\<lparr>binlogger := binlogger n', sdk_ack_map := m\<rparr>"
    by (rule client_call_rel [OF call st rel]) blast
  have len': "log_length n' = log_length ?l + 1" using log_length_rel [OF e] by (simp add: len)
  have n's: "next_index n' = next_index ?l" "match_index n' = match_index ?l" "current_term n' = current_term ?l"
    by (subst n', simp)+
  have "card (set M - {A}) \<noteq> 0" using parts(1,2) M by (simp add: distinct_card)
  then obtain b where b: "b \<in> set M" "b \<noteq> A" by (metis card.empty Diff_iff ex_in_conv singletonI)
  have behind: "next_index ?l a \<noteq> Some (log_length ?l + 1)" "match_index ?l a \<noteq> Some (log_length ?l)"
    if "a \<in> set M" "a \<noteq> A" for a
    using parts(7) [OF that] server_ok_bound(2) [OF parts(6) [OF that(1)]] by (auto elim!: follower_okD simp: len)
  then show ?thesis using sync b by (auto simp: sync_inv_def len' n's)
qed

lemma collected_term:
  assumes inv: "group_inv content lo A M log g" and a: "a \<in> set M - {A}" and pc: "gr_thread g a = Prepared c"
    and run: "ReplicateLog_collect L (gr_node g A) c = Inr (Some (req, mt))"
  shows "mt = current_term (gr_node g A)"
proof -
  note parts = group_inv_parts [OF inv]
  let ?l = "gr_node g A" and ?es = "take (nat (rc_batch c)) (drop (nat (rc_index c)) (log A))"
  have rel: "binlog_rel content lo (binlogger ?l) (log A)" using group_inv_log [OF inv] by simp
  obtain i where c: "ctx_ok (log A) (current_term ?l) (commit_index ?l) i c" and len: "int (length (log a)) \<le> i"
    using parts(7) [of a] a pc by (auto elim!: follower_okD)
  have "lo \<le> max 0 (i - 1)" using server_ok_lo [OF parts(6) len] a by simp
  then have "mt = max_terms ?es"
    using collect_entries_rel [OF rel, of "rc_index c" "nat (rc_batch c)"] c run
    by (auto simp: ReplicateLog_collect_def ctx_ok_def)
  moreover have "?es \<noteq> []" using c by (auto simp: ctx_ok_def)
  moreover have "\<forall>e \<in> set ?es. be_term e = current_term ?l" and "0 \<le> current_term ?l"
    using parts(3) by (auto simp: leader_ok_def dest!: in_set_takeD in_set_dropD)
  ultimately show ?thesis using max_terms_same by blast
qed

lemma sync_inv_finish:
  assumes inv: "group_inv content lo A M log g" and a: "a \<in> set M" "a \<noteq> A"
    and sync: "sync_inv A M (gr_node g A) (gr_thread g)" and pc: "gr_thread g a = Returned c mt ret"
    and run: "ReplicateLog_finish (gr_node g A) a c mt ok ret = (n', ok', es, go)"
  shows "sync_inv A M n' ((gr_thread g)(a := Idle))"
proof -
  note parts = group_inv_parts [OF inv]
  let ?l = "gr_node g A"
  have len: "log_length ?l = int (length (log A))"
    by (rule log_length_rel [OF group_inv_log [OF inv disjI2 [OF refl]]])
  have st: "status ?l = kLeader" "all_server_addr ?l = M" using parts(3) by (auto simp: leader_ok_def)
  obtain i where i: "next_index ?l a = Some i" "i \<le> int (length (log A))"
    and th: "thread_ok (log A) (current_term ?l) A (commit_index ?l) (int (length (log a))) i (Returned c mt ret)"
    using parts(7) [OF a] pc by (auto elim!: follower_okD)
  have la: "length (log a) \<le> length (log A)" by (rule server_ok_bound(2) [OF parts(6) [OF a(1)]])
  have known: "match_index ?l b \<noteq> None" if "b \<in> set M" "b \<noteq> A" for b
    using parts(7) [OF that] by (auto elim: follower_okD)
  show ?thesis
    by (rule sync_inv_turn [OF sync parts(2,1) a st i(1) _ _ _ known th pc run]) (simp_all add: len i la)
qed

text \<open>The steps that leave the leader's role and log alone.\<close>

lemma VoteLeader_same:
  "\<not> starts_round n \<Longrightarrow> VoteLeader n d = (n', es) \<Longrightarrow> same_role n n' \<and> log_length n' = log_length n"
  by (auto simp: VoteLeader_def starts_round_def Let_def same_role_def log_length_def split: if_splits)

lemma CommitIndex_apply_same:
  "CommitIndex_apply L n i = Inr n' \<Longrightarrow> same_role n n' \<and> log_length n' = log_length n"
  by (auto simp: CommitIndex_apply_def bindE_eq_Inr same_role_def log_length_def)

lemma CommitIndex_ack_same:
  "CommitIndex_ack L n i = (n', es) \<Longrightarrow> same_role n n' \<and> log_length n' = log_length n"
  by (auto simp: CommitIndex_ack_eq same_role_def log_length_def)

lemma sync_inv_step:
  assumes "group_step L A M g g'" and inv: "group_inv content lo A M log g" and M: "2 \<le> length M"
    and sync: "sync_inv A M (gr_node g A) (gr_thread g)"
  shows "sync_inv A M (gr_node g' A) (gr_thread g')"
proof -
  let ?l = "gr_node g A"
  have moved: "sync_inv A M ?l ((gr_thread g)(a := p'))"
    if "a \<in> set M - {A}" "gr_thread g a = p" "max_term_ok (current_term ?l) p \<Longrightarrow> max_term_ok (current_term ?l) p'"
    for a p p'
    by (rule sync_inv_same [OF sync]) (use that in \<open>auto split: if_splits\<close>)
  have same: "sync_inv A M (if a = A then n' else ?l) (gr_thread g)"
    if "same_role (gr_node g a) n' \<and> log_length n' = log_length (gr_node g a)" for a n'
    using that sync by (auto intro: sync_inv_same)
  show ?thesis
    using assms(1)
  proof cases
    case (client n')
    then show ?thesis using sync_inv_client [OF client(2) inv M sync] by simp
  next
    case (prepare a n' c)
    then have "n' = ?l" using group_inv_prepare [OF inv _ _ prepare(3), of "gr_ok g a"] by auto
    then show ?thesis using sync by (auto simp: sync_inv_def prepare(1))
  next
    case (collect a c req mt)
    then show ?thesis using sync collected_term [OF inv collect(2-4)] by (auto simp: sync_inv_def)
  next
    case (turn a c mt ret n' ok es go)
    then show ?thesis using sync_inv_finish [OF inv _ _ sync turn(3,4)] by simp
  next
    case (beat_answered failed res)
    have "HeartBeatCallBack ?l res failed = ?l"
      using group_inv_parts(3,4) [OF inv] beat_answered(2)
      by (auto simp: HeartBeatCallBack_def leader_ok_def beats_ok_def)
    then show ?thesis using sync by (simp add: beat_answered(1))
  next
    case (timer a d n' es)
    then show ?thesis using same [OF VoteLeader_same [OF timer(3,4)]] by auto
  next
    case (apply_entry a n')
    then show ?thesis using same [OF CommitIndex_apply_same [OF apply_entry(6)]] by auto
  next
    case (acknowledge a n' es)
    then show ?thesis using same [OF CommitIndex_ack_same [OF acknowledge(4)]] by auto
  next
    case (lose a c mt req)
    then show ?thesis using moved [OF lose(2,3), of "Returned c mt None"] by simp
  next
    case (inspect a c mt req n' reply)
    then show ?thesis
      using moved [OF inspect(2,3), of "if reply = None then Checked c mt req else Returned c mt reply"] by auto
  next
    case (store a c mt req n')
    then show ?thesis using moved [OF store(2,3), of "Written c mt req"] by auto
  next
    case (answer a c mt req n' es res)
    then show ?thesis using moved [OF answer(2,3), of "Returned c mt (Some res)"] by auto
  qed (use sync in auto)
qed

lemma group_reachable_sync:
  assumes "group_reachable L content A M g" and "2 \<le> length M"
  shows "sync_inv A M (gr_node g A) (gr_thread g)"
  using assms(1)
proof induction
  case (start g)
  then show ?case using sync_inv_start assms(2) by blast
next
  case (step g g')
  then show ?case using group_reachable_inv sync_inv_step assms(2) by blast
qed

lemma led_step: "led content A M g \<Longrightarrow> group_step L A M g g' \<Longrightarrow> led content A M g'"
  using group_step_inv unfolding led_def grown_def by blast

lemma led_runs: "(group_step L A M)\<^sup>*\<^sup>* g g' \<Longrightarrow> led content A M g \<Longrightarrow> led content A M g'"
  by (induction rule: rtranclp_induct) (auto intro: led_step)

lemma sync_runs:
  assumes "(group_step L A M)\<^sup>*\<^sup>* g g'" and "led content A M g" and "2 \<le> length M"
    and "sync_inv A M (gr_node g A) (gr_thread g)"
  shows "sync_inv A M (gr_node g' A) (gr_thread g')"
  using assms
proof (induction rule: rtranclp_induct)
  case (step g1 g2)
  obtain lo log where "group_inv content lo A M log g1"
    using led_runs [OF step.hyps(1) step.prems(1)] by (auto simp: led_def)
  then show ?case using sync_inv_step [OF step.hyps(2)] step.IH step.prems by blast
qed

lemma group_reachable_led: "group_reachable L content A M g \<Longrightarrow> led content A M g"
  using group_reachable_inv unfolding led_def by blast

end

section \<open>Applying\<close>

text \<open>The steps that are left until a server has applied what it knows to be committed.\<close>

definition apply_measure :: "string \<Rightarrow> 'db group \<Rightarrow> nat" where
  "apply_measure a g =
     3 * nat (commit_index (gr_node g a) - last_applied_index (gr_node g a)) +
     (if gr_applied g a then 0 else if last_applied_index (gr_node g a) < gr_end g a then 1 else 2)"

definition only_applied :: "string \<Rightarrow> 'db group \<Rightarrow> 'db group \<Rightarrow> bool" where
  "only_applied a g g' \<longleftrightarrow>
     (\<forall>b. b \<noteq> a \<longrightarrow> gr_node g' b = gr_node g b) \<and> gr_thread g' = gr_thread g \<and> gr_ok g' = gr_ok g \<and>
     binlogger (gr_node g' a) = binlogger (gr_node g a) \<and>
     commit_index (gr_node g' a) = commit_index (gr_node g a)"

lemma only_applied_refl [simp]: "only_applied a g g"
  by (simp add: only_applied_def)

lemma only_applied_trans: "only_applied a g g1 \<Longrightarrow> only_applied a g1 g2 \<Longrightarrow> only_applied a g g2"
  by (simp add: only_applied_def)

context leveldb_available
begin

lemma apply_some:
  assumes led: "led content A M g" and a: "a \<in> set M"
    and lag: "last_applied_index (gr_node g a) < commit_index (gr_node g a)"
    and len: "log_length (gr_node g A) \<le> 2147483647"
  shows "\<exists>g'. group_step L A M g g' \<and> only_applied a g g' \<and> apply_measure a g' < apply_measure a g"
proof -
  obtain lo log where inv: "group_inv content lo A M log g" using led by (auto simp: led_def)
  let ?n = "gr_node g a"
  note slot = group_inv_loop_slot [OF inv a len disjI2 [OF lag]]
  consider (ack) "gr_applied g a" | (go) "\<not> gr_applied g a" "last_applied_index ?n < gr_end g a"
    | (asleep) "\<not> gr_applied g a" "gr_end g a \<le> last_applied_index ?n" by linarith
  then show ?thesis
  proof cases
    case ack
    obtain n' es where run: "CommitIndex_ack L ?n (loop_slot ?n) = (n', es)" by fastforce
    then have n': "\<exists>m d. n' = ?n\<lparr>sdk_ack_map := m, last_applied_index := last_applied_index ?n + 1, data_store := d\<rparr>"
      by (auto simp: CommitIndex_ack_eq)
    show ?thesis
      using group_step.acknowledge [OF a ack run] n' lag ack
      by (intro exI [of _ "set_node a n' (g\<lparr>gr_applied := (gr_applied g)(a := False)\<rparr>)"] conjI) (auto simp: only_applied_def apply_measure_def)
  next
    case go
    obtain n' where run: "CommitIndex_apply L ?n (loop_slot ?n) = Inr n'"
      using group_inv_apply [OF inv a go slot(1)] by blast
    then have n': "\<exists>d. n' = ?n\<lparr>data_store := d\<rparr>" by (auto simp: CommitIndex_apply_def bindE_eq_Inr)
    show ?thesis
      using group_step.apply_entry [OF a go slot(1) run] n' go
      by (intro exI [of _ "set_node a n' (g\<lparr>gr_applied := (gr_applied g)(a := True)\<rparr>)"] conjI) (auto simp: only_applied_def apply_measure_def)
  next
    case asleep
    show ?thesis
      using group_step.wake [OF a asleep(2) lag] asleep lag
      by (intro exI [of _ "g\<lparr>gr_end := (gr_end g)(a := commit_index ?n)\<rparr>"] conjI) (auto simp: only_applied_def apply_measure_def)
  qed
qed

lemma apply_all:
  assumes "led content A M g" and "a \<in> set M" and "log_length (gr_node g A) \<le> 2147483647"
  shows "\<exists>g'. (group_step L A M)\<^sup>*\<^sup>* g g' \<and> only_applied a g g' \<and>
    commit_index (gr_node g' a) \<le> last_applied_index (gr_node g' a)"
  using assms(1,3)
proof (induction "apply_measure a g" arbitrary: g rule: less_induct)
  case less
  show ?case
  proof (cases "last_applied_index (gr_node g a) < commit_index (gr_node g a)")
    case True
    obtain g1 where g1: "group_step L A M g g1" "only_applied a g g1" "apply_measure a g1 < apply_measure a g"
      using apply_some [OF less.prems(1) assms(2) True less.prems(2)] by blast
    have "log_length (gr_node g1 A) \<le> 2147483647"
      using g1(2) less.prems(2) by (cases "A = a") (simp_all add: only_applied_def log_length_def)
    then obtain g2 where "(group_step L A M)\<^sup>*\<^sup>* g1 g2" "only_applied a g1 g2"
      "commit_index (gr_node g2 a) \<le> last_applied_index (gr_node g2 a)"
      using less.hyps [OF g1(3) led_step [OF less.prems(1) g1(1)]] by blast
    then show ?thesis using g1 by (meson converse_rtranclp_into_rtranclp only_applied_trans)
  qed (use only_applied_refl in force)
qed

end

section \<open>Ending the calls under way\<close>

lemma UpdateCommitIndex_binlogger: "UpdateCommitIndex n i = (n', es) \<Longrightarrow> binlogger n' = binlogger n"
  by (rule UpdateCommitIndex_frame [of n i]) auto

lemma ReplicateLog_finish_binlogger:
  "ReplicateLog_finish n0 a c mt ok ret = (n', ok', es, go) \<Longrightarrow> binlogger n' = binlogger n0"
  by (auto simp: ReplicateLog_finish_def Let_def dest: UpdateCommitIndex_binlogger
      split: if_splits option.splits prod.splits)

text \<open>A thread came to rest, and the leader's log is as before.\<close>

definition rested :: "string \<Rightarrow> string \<Rightarrow> 'db group \<Rightarrow> 'db group \<Rightarrow> bool" where
  "rested A a g g' \<longleftrightarrow>
     gr_thread g' = (gr_thread g)(a := Idle) \<and> binlogger (gr_node g' A) = binlogger (gr_node g A)"

context leveldb_available
begin

lemma return_idle:
  assumes "a \<in> set M - {A}" and "gr_thread g a = Returned c mt ret"
  shows "\<exists>g'. (group_step L A M)\<^sup>*\<^sup>* g g' \<and> rested A a g g'"
proof -
  obtain n' ok es go where run: "ReplicateLog_finish (gr_node g A) a c mt (gr_ok g a) ret = (n', ok, es, go)"
    using prod_cases4 by blast
  show ?thesis
    using group_step.turn [OF assms run] ReplicateLog_finish_binlogger [OF run]
    by (intro exI conjI r_into_rtranclp) (auto simp: rested_def)
qed

lemma rested_after_step:
  assumes "group_step L A M h h1" and "gr_thread h1 = (gr_thread h)(a := pc)"
    and "binlogger (gr_node h1 A) = binlogger (gr_node h A)"
    and "\<exists>g'. (group_step L A M)\<^sup>*\<^sup>* h1 g' \<and> rested A a h1 g'"
  shows "\<exists>g'. (group_step L A M)\<^sup>*\<^sup>* h g' \<and> rested A a h g'"
  using assms by (auto simp: rested_def intro: converse_rtranclp_into_rtranclp)

lemma drain:
  assumes led: "led content A M g" and a: "a \<in> set M" "a \<noteq> A"
  shows "\<exists>g'. (group_step L A M)\<^sup>*\<^sup>* g g' \<and> rested A a g g'"
proof -
  have aM: "a \<in> set M - {A}" using a by simp
  have called: "\<exists>g'. (group_step L A M)\<^sup>*\<^sup>* h g' \<and> rested A a h g'" if "gr_thread h a = Called c mt req" for h c mt req
    by (rule rested_after_step [OF group_step.lose [OF aM that]]) (simp_all add: return_idle [OF aM])
  have written: "\<exists>g'. (group_step L A M)\<^sup>*\<^sup>* h g' \<and> rested A a h g'" if "gr_thread h a = Written c mt req" for h c mt req
  proof -
    obtain n' es res where run: "AppendEntries_finish (gr_node h a) req = (n', es, res)"
      using prod_cases3 by blast
    show ?thesis
      by (rule rested_after_step [OF group_step.answer [where L = L, OF aM that run]])
        (use a in \<open>simp_all add: return_idle [OF aM]\<close>)
  qed
  obtain lo log where inv: "group_inv content lo A M log g" using led by (auto simp: led_def)
  note pc = group_inv_pc [OF inv a]
  show ?thesis
  proof (cases "gr_thread g a")
    case Idle
    then show ?thesis by (intro exI [of _ g]) (simp add: rested_def fun_upd_idem)
  next
    case (Prepared c)
    then obtain req mt where run: "ReplicateLog_collect L (gr_node g A) c = Inr (Some (req, mt))"
      using pc(1) by fastforce
    show ?thesis
      by (rule rested_after_step [OF group_step.collect [OF aM Prepared run]]) (simp_all add: called)
  next
    case (Checked c mt req)
    then obtain n' where run: "AppendEntries_write L (gr_node g a) req = Inr n'" using pc(3) by blast
    show ?thesis
      by (rule rested_after_step [OF group_step.store [OF aM Checked run]]) (use a in \<open>simp_all add: written\<close>)
  qed (use called written return_idle [OF aM] in blast)+
qed

lemma drain_all:
  assumes "led content A M g" and "set xs \<subseteq> set M - {A}"
  shows "\<exists>g'. (group_step L A M)\<^sup>*\<^sup>* g g' \<and> (\<forall>a \<in> set xs. gr_thread g' a = Idle) \<and>
    binlogger (gr_node g' A) = binlogger (gr_node g A)"
  using assms
proof (induction xs arbitrary: g)
  case (Cons a xs)
  obtain g1 where g1: "(group_step L A M)\<^sup>*\<^sup>* g g1" "\<forall>b \<in> set xs. gr_thread g1 b = Idle"
    "binlogger (gr_node g1 A) = binlogger (gr_node g A)"
    using Cons.IH [OF Cons.prems(1)] Cons.prems(2) by auto
  obtain g2 where g2: "(group_step L A M)\<^sup>*\<^sup>* g1 g2" "rested A a g1 g2"
    using drain [OF led_runs [OF g1(1) Cons.prems(1)], of a] Cons.prems(2) by auto
  then show ?case using g1 by (intro exI [of _ g2]) (auto simp: rested_def)
qed auto

end

section \<open>Catching up\<close>

text \<open>What a turn for follower \<open>a\<close> leaves alone, and how far the follower is behind.\<close>

definition turned :: "string \<Rightarrow> string \<Rightarrow> 'db group \<Rightarrow> 'db group \<Rightarrow> bool" where
  "turned A a g g' \<longleftrightarrow>
     gr_thread g' = gr_thread g \<and> binlogger (gr_node g' A) = binlogger (gr_node g A) \<and>
     (\<forall>b. b \<noteq> a \<longrightarrow> next_index (gr_node g' A) b = next_index (gr_node g A) b)"

definition behind :: "string \<Rightarrow> string \<Rightarrow> 'db group \<Rightarrow> nat" where
  "behind A a g =
     2 * nat (log_length (gr_node g A) - log_length (gr_node g a)) +
     (if next_index (gr_node g A) a = Some (log_length (gr_node g a)) then 0 else 1)"

lemma turned_trans: "turned A a g g1 \<Longrightarrow> turned A a g1 g2 \<Longrightarrow> turned A a g g2"
  by (simp add: turned_def)

lemma UpdateCommitIndex_next: "UpdateCommitIndex n i = (n', es) \<Longrightarrow> next_index n' = next_index n"
  by (rule UpdateCommitIndex_frame [of n i]) auto

text \<open>The leader digests an answer of a follower in its own term.\<close>

lemma finish_success:
  assumes "status l = kLeader" and "ar_current_term res = current_term l" and "ar_success res"
  shows "next_index (fst (ReplicateLog_finish l a c mt ok (Some res))) =
    (next_index l)(a := Some (rc_index c + rc_batch c))"
  using assms
  by (auto simp: ReplicateLog_finish_def Let_def dest: UpdateCommitIndex_next split: prod.splits)

lemma finish_behind:
  assumes "status l = kLeader" and "res = ae_reply n False len False" and "current_term n = current_term l"
    and "next_index l a = Some i" and "len < i" and "0 \<le> len"
  shows "next_index (fst (ReplicateLog_finish l a c mt ok (Some res))) = (next_index l)(a := Some len)"
proof -
  have "min (i - 1) len = len" using assms(5) by simp
  then show ?thesis using assms by (simp add: ReplicateLog_finish_def ae_reply_def Let_def at_default_def)
qed

text \<open>The follower's state after the checks.\<close>

definition checked :: "'db node \<Rightarrow> 'db node \<Rightarrow> string \<Rightarrow> 'db node" where
  "checked l n A = n\<lparr>status := kFollower, current_term := current_term l, cur_leader_addr := A,
     headbeat_cnt := headbeat_cnt n + 1\<rparr>"

context leveldb_available
begin

lemma answered_turn:
  assumes a: "a \<in> set M - {A}" and pc: "gr_thread h a = Returned c mt ret"
    and idle: "gr_thread h = (gr_thread g)(a := Returned c mt ret)" "gr_thread g a = Idle"
    and l: "gr_node h A = gr_node g A"
    and nx: "next_index (fst (ReplicateLog_finish (gr_node g A) a c mt (gr_ok h a) ret)) =
      (next_index (gr_node g A))(a := Some i)"
  shows "\<exists>g'. group_step L A M h g' \<and> turned A a g g' \<and> next_index (gr_node g' A) a = Some i \<and>
    gr_node g' a = gr_node h a"
proof -
  obtain n' ok es go where run: "ReplicateLog_finish (gr_node h A) a c mt (gr_ok h a) ret = (n', ok, es, go)"
    using prod_cases4 by blast
  have restored: "(gr_thread g)(a := Idle) = gr_thread g" using idle(2) by (rule fun_upd_idem)
  show ?thesis
    using group_step.turn [OF a pc run] ReplicateLog_finish_binlogger [OF run] nx run l a
    by (intro exI [of _ "set_thread a Idle (set_node A n' (h\<lparr>gr_ok := (gr_ok h)(a := ok)\<rparr>))"] conjI)
      (auto simp: turned_def idle(1) restored)
qed

text \<open>
  A turn begins: the request is prepared and sent. The follower then refuses it, being shorter, or
  appends the entries; either way it is less behind afterwards.
\<close>

lemma turn_opens:
  assumes inv: "group_inv content lo A M log g" and a: "a \<in> set M" "a \<noteq> A" and idle: "gr_thread g a = Idle"
    and lag: "next_index (gr_node g A) a \<noteq> Some (log_length (gr_node g A))"
  obtains i c mt where "next_index (gr_node g A) a = Some i" and "int (length (log a)) \<le> i"
    and "i < int (length (log A))"
    and "ctx_ok (log A) (current_term (gr_node g A)) (commit_index (gr_node g A)) i c"
    and "(group_step L A M)\<^sup>*\<^sup>* g (set_thread a (Called c mt (req_of (log A) A c)) g)"
proof -
  let ?l = "gr_node g A"
  note parts = group_inv_parts [OF inv]
  have aM: "a \<in> set M - {A}" using a by simp
  have rel: "binlog_rel content lo (binlogger ?l) (log A)" using group_inv_log [OF inv] by simp
  have st: "status ?l = kLeader" "\<not> stop ?l" "self_addr ?l = A" using parts(3) by (auto simp: leader_ok_def)
  obtain i where i: "next_index ?l a = Some i" "0 \<le> i" "i \<le> int (length (log A))" "int (length (log a)) \<le> i"
    using parts(7) [OF a] idle by (auto elim!: follower_okD)
  have lo: "lo \<le> max 0 (i - 1)" by (rule server_ok_lo [OF parts(6) [OF a(1)] i(4)])
  have lt: "i < int (length (log A))" using lag i log_length_rel [OF rel] by auto
  obtain c where prep: "ReplicateLog_prepare L ?l a (gr_ok g a) = Inr (?l, ReplSend c)"
    using prepare_eq [OF rel st(1,2) i(1-3) lo] lt by simp
  have c: "ctx_ok (log A) (current_term ?l) (commit_index ?l) i c"
    by (rule prepare_rel(2) [OF rel st(1,2) i(1-3) lo prep])
  obtain mt where coll: "ReplicateLog_collect L ?l c = Inr (Some (req_of (log A) A c, mt))"
    using collect_eq [OF rel c lo] st(3) by auto
  have same: "set_node A ?l g = g" by (simp add: set_node_def fun_upd_idem)
  define g1 where "g1 = set_thread a (Prepared c) g"
  have "group_step L A M g g1" using group_step.prepare [OF aM idle prep] unfolding same g1_def .
  moreover have "group_step L A M g1 (set_thread a (Called c mt (req_of (log A) A c)) g1)"
    using group_step.collect [of a M A g1 c L "req_of (log A) A c" mt] aM coll by (simp add: g1_def)
  moreover have "set_thread a (Called c mt (req_of (log A) A c)) g1 = set_thread a (Called c mt (req_of (log A) A c)) g"
    by (simp add: g1_def set_thread_def)
  ultimately show thesis
    using i(1,4) lt c by (intro that [of i c mt]) auto
qed

lemma turn_refused:
  assumes inv: "group_inv content lo A M log g" and a: "a \<in> set M" "a \<noteq> A" and idle: "gr_thread g a = Idle"
    and i: "next_index (gr_node g A) a = Some i" "int (length (log a)) < i" "i < int (length (log A))"
    and c: "ctx_ok (log A) (current_term (gr_node g A)) (commit_index (gr_node g A)) i c"
  shows "\<exists>g'. (group_step L A M)\<^sup>*\<^sup>* (set_thread a (Called c mt (req_of (log A) A c)) g) g' \<and>
    turned A a g g' \<and> behind A a g' < behind A a g"
proof -
  let ?l = "gr_node g A" and ?n = "gr_node g a"
  let ?g = "set_thread a (Called c mt (req_of (log A) A c)) g"
  define n1 where "n1 = checked ?l ?n A"
  note srv = group_inv_parts(6) [OF inv a(1)]
  have st: "status ?l = kLeader" using group_inv_parts(3) [OF inv] by (simp add: leader_ok_def)
  have lena: "log_length ?n = int (length (log a))" by (rule log_length_rel [OF server_ok_log [OF srv]])
  define res where "res = ae_reply n1 False (int (length (log a))) False"
  define g3 where "g3 = set_thread a (Returned c mt (Some res)) (set_node a n1 ?g)"
  have "group_step L A M ?g g3"
    using group_step.inspect [of a M A ?g c mt "req_of (log A) A c" L n1 "Some res"] a i(2)
      check_eq [OF srv c, of A]
    by (simp add: res_def g3_def n1_def checked_def)
  moreover obtain g4 where g4: "group_step L A M g3 g4" "turned A a g g4"
      "next_index (gr_node g4 A) a = Some (int (length (log a)))" "gr_node g4 a = n1"
    using answered_turn [of a M A g3 c mt "Some res" g "int (length (log a))"] idle a
      finish_behind [OF st res_def _ i(1,2)] by (auto simp: g3_def n1_def checked_def)
  moreover have "log_length (gr_node g4 A) = log_length ?l" "log_length n1 = log_length ?n"
    using g4(2) by (simp_all add: turned_def log_length_def n1_def checked_def)
  then have "behind A a g4 < behind A a g" using g4(3,4) i by (simp add: behind_def lena)
  ultimately show ?thesis by (meson r_into_rtranclp rtranclp.rtrancl_into_rtrancl)
qed

lemma turn_appends:
  assumes inv: "group_inv content lo A M log g" and a: "a \<in> set M" "a \<noteq> A" and idle: "gr_thread g a = Idle"
    and up: "commit_index (gr_node g a) \<le> last_applied_index (gr_node g a)"
    and i: "next_index (gr_node g A) a = Some i" "int (length (log a)) = i" "i < int (length (log A))"
    and c: "ctx_ok (log A) (current_term (gr_node g A)) (commit_index (gr_node g A)) i c"
  shows "\<exists>g'. (group_step L A M)\<^sup>*\<^sup>* (set_thread a (Called c mt (req_of (log A) A c)) g) g' \<and>
    turned A a g g' \<and> behind A a g' < behind A a g"
proof -
  let ?l = "gr_node g A" and ?n = "gr_node g a" and ?req = "req_of (log A) A c"
  let ?g = "set_thread a (Called c mt ?req) g"
  have aM: "a \<in> set M - {A}" using a by simp
  note parts = group_inv_parts [OF inv] and srv = group_inv_parts(6) [OF inv a(1)]
  have rel: "binlog_rel content lo (binlogger ?l) (log A)" using group_inv_log [OF inv] by simp
  have st: "status ?l = kLeader" using parts(3) by (simp add: leader_ok_def)
  define n1 where "n1 = checked ?l ?n A"
  have chk: "AppendEntries_check L ?n ?req = Inr (n1, None)"
    using check_eq [OF srv c, of A] i(2) up by (simp add: n1_def checked_def)
  define g3 where "g3 = set_thread a (Checked c mt ?req) (set_node a n1 ?g)"
  have s3: "group_step L A M ?g g3"
    using group_step.inspect [of a M A ?g c mt ?req L n1 None] aM chk by (simp add: g3_def)
  have srv1: "server_ok content lo (log A) (current_term ?l) (commit_index ?l) (gr_applied g a) (gr_end g a) (log a) n1"
    by (rule server_ok_frame [OF srv]) (simp_all add: n1_def checked_def)
  have ok: "\<forall>e \<in> set (log A). entry_ok e" using binlog_rel_ok [OF rel] by blast
  obtain b lg where wr: "AppendEntries_write L n1 ?req = Inr (n1\<lparr>binlogger := b\<rparr>)"
    and lg: "binlog_rel content lo b lg" "int (length lg) = i + rc_batch c"
    by (rule store_entries_rel [OF srv1 c i(2) ok, where A = A]) (rule that)
  define g4 where "g4 = set_thread a (Written c mt ?req) (set_node a (n1\<lparr>binlogger := b\<rparr>) g3)"
  have s4: "group_step L A M g3 g4"
    using group_step.store [of a M A g3 c mt ?req L] aM wr by (simp add: g3_def g4_def)
  obtain n2 es res where fin: "AppendEntries_finish (n1\<lparr>binlogger := b\<rparr>) ?req = (n2, es, res)"
    using prod_cases3 by blast
  have "binlog_rel content lo (binlogger (n1\<lparr>binlogger := b\<rparr>)) lg" using lg(1) by simp
  note n2 = finish_rel [OF this fin]
  define g5 where "g5 = set_thread a (Returned c mt (Some res)) (set_node a n2 g4)"
  have s5: "group_step L A M g4 g5"
    using group_step.answer [of a M A g4 c mt ?req n2 es res L] aM fin by (simp add: g4_def g5_def)
  have "rc_index c + rc_batch c = int (length lg)" using c lg(2) by (simp add: ctx_ok_def)
  moreover have "ar_current_term res = current_term ?l" using n2(3) by (simp add: n1_def checked_def)
  ultimately obtain g6 where g6: "group_step L A M g5 g6" "turned A a g g6"
      "next_index (gr_node g6 A) a = Some (int (length lg))" "gr_node g6 a = n2"
    using answered_turn [of a M A g5 c mt "Some res" g "int (length lg)"] aM idle a
      finish_success [OF st _ n2(2), of a c mt] by (auto simp: g5_def g4_def g3_def)
  moreover have "log_length (gr_node g6 A) = log_length ?l" using g6(2) by (simp add: turned_def log_length_def)
  moreover have "log_length n2 = int (length lg)" using lg(1) by (simp add: n2(1) log_length_def log.len_holds)
  ultimately have "behind A a g6 < behind A a g"
    using lg(2) c i log_length_rel [OF server_ok_log [OF srv]] log_length_rel [OF rel]
    by (simp add: behind_def ctx_ok_def)
  then show ?thesis using s3 s4 s5 g6(1,2) by (meson r_into_rtranclp rtranclp.rtrancl_into_rtrancl)
qed

lemma full_turn:
  assumes led: "led content A M g" and a: "a \<in> set M" "a \<noteq> A"
    and idle: "gr_thread g a = Idle" and up: "commit_index (gr_node g a) \<le> last_applied_index (gr_node g a)"
    and lag: "next_index (gr_node g A) a \<noteq> Some (log_length (gr_node g A))"
  shows "\<exists>g'. (group_step L A M)\<^sup>*\<^sup>* g g' \<and> turned A a g g' \<and> behind A a g' < behind A a g"
proof -
  obtain lo log where inv: "group_inv content lo A M log g" using led by (auto simp: led_def)
  obtain i c mt where i: "next_index (gr_node g A) a = Some i" "int (length (log a)) \<le> i" "i < int (length (log A))"
    and c: "ctx_ok (log A) (current_term (gr_node g A)) (commit_index (gr_node g A)) i c"
    and run: "(group_step L A M)\<^sup>*\<^sup>* g (set_thread a (Called c mt (req_of (log A) A c)) g)"
    by (rule turn_opens [OF inv a idle lag])
  then obtain g' where "(group_step L A M)\<^sup>*\<^sup>* (set_thread a (Called c mt (req_of (log A) A c)) g) g'"
    "turned A a g g'" "behind A a g' < behind A a g"
    using turn_refused [OF inv a idle i(1) _ i(3) c] turn_appends [OF inv a idle up i(1) _ i(3) c]
    by (cases "int (length (log a)) < i") fastforce+
  then show ?thesis using run by (meson rtranclp_trans)
qed

lemma only_applied_turned:
  "only_applied a g g' \<Longrightarrow> a \<noteq> A \<Longrightarrow> turned A a g g' \<and> behind A a g' = behind A a g \<and>
     next_index (gr_node g' A) = next_index (gr_node g A)"
  by (simp add: only_applied_def turned_def behind_def log_length_def)

lemma catch_up:
  assumes "led content A M g" and a: "a \<in> set M" "a \<noteq> A" and "gr_thread g a = Idle"
    and "log_length (gr_node g A) \<le> 2147483647"
  shows "\<exists>g'. (group_step L A M)\<^sup>*\<^sup>* g g' \<and> turned A a g g' \<and>
    next_index (gr_node g' A) a = Some (log_length (gr_node g A))"
  using assms(1,4,5)
proof (induction "behind A a g" arbitrary: g rule: less_induct)
  case less
  show ?case
  proof (cases "next_index (gr_node g A) a = Some (log_length (gr_node g A))")
    case False
    obtain g1 where g1: "(group_step L A M)\<^sup>*\<^sup>* g g1" "only_applied a g g1"
      "commit_index (gr_node g1 a) \<le> last_applied_index (gr_node g1 a)"
      using apply_all [OF less.prems(1) a(1) less.prems(3)] by blast
    note r1 = led_runs [OF g1(1) less.prems(1)]
    note o = only_applied_turned [OF g1(2) a(2)]
    have "log_length (gr_node g1 A) = log_length (gr_node g A)" using o by (simp add: turned_def log_length_def)
    then obtain g2 where g2: "(group_step L A M)\<^sup>*\<^sup>* g1 g2" "turned A a g1 g2" "behind A a g2 < behind A a g1"
      using full_turn [OF r1 a _ g1(3)] less.prems(2) False o by (auto simp: turned_def)
    note r2 = led_runs [OF g2(1) r1]
    have t: "turned A a g g2" using o g2(2) turned_trans by blast
    then have "gr_thread g2 a = Idle" "log_length (gr_node g2 A) = log_length (gr_node g A)"
      using less.prems(2) by (simp_all add: turned_def log_length_def)
    then obtain g3 where "(group_step L A M)\<^sup>*\<^sup>* g2 g3" "turned A a g2 g3"
      "next_index (gr_node g3 A) a = Some (log_length (gr_node g A))"
      using less.hyps [OF _ r2] g2(3) o less.prems(3) by auto
    then show ?thesis using g1(1) g2(1) t by (meson rtranclp_trans turned_trans)
  qed (use turned_def in blast)
qed

lemma catch_up_all:
  assumes "led content A M g" and "set xs \<subseteq> set M - {A}"
    and "\<forall>a \<in> set M - {A}. gr_thread g a = Idle" and max: "log_length (gr_node g A) \<le> 2147483647"
  shows "\<exists>g'. (group_step L A M)\<^sup>*\<^sup>* g g' \<and> binlogger (gr_node g' A) = binlogger (gr_node g A) \<and>
    gr_thread g' = gr_thread g \<and>
    (\<forall>a \<in> set xs. next_index (gr_node g' A) a = Some (log_length (gr_node g A)))"
  using assms(1,2)
proof (induction xs)
  case (Cons a xs)
  obtain g1 where g1: "(group_step L A M)\<^sup>*\<^sup>* g g1" "binlogger (gr_node g1 A) = binlogger (gr_node g A)"
    "gr_thread g1 = gr_thread g" "\<forall>b \<in> set xs. next_index (gr_node g1 A) b = Some (log_length (gr_node g A))"
    using Cons by auto
  have len: "log_length (gr_node g1 A) = log_length (gr_node g A)" using g1(2) by (simp add: log_length_def)
  have "a \<in> set M" "a \<noteq> A" "gr_thread g1 a = Idle" using Cons.prems(2) assms(3) g1(3) by auto
  then obtain g2 where g2: "(group_step L A M)\<^sup>*\<^sup>* g1 g2" "turned A a g1 g2"
    "next_index (gr_node g2 A) a = Some (log_length (gr_node g A))"
    using catch_up [OF led_runs [OF g1(1) assms(1)]] len max by metis
  then have "next_index (gr_node g2 A) b = Some (log_length (gr_node g A))" if "b \<in> set (a # xs)" for b
    using that g1(4) by (cases "b = a") (auto simp: turned_def)
  then show ?case
    using g1 g2 by (intro exI [of _ g2]) (auto simp: turned_def)
qed auto

text \<open>Then every follower holds the whole log of the leader, and all of it is committed.\<close>

lemma all_hold:
  assumes led: "led content A M g" and sync: "sync_inv A M (gr_node g A) (gr_thread g)"
    and all: "\<forall>a \<in> set M - {A}. next_index (gr_node g A) a = Some (log_length (gr_node g A))"
  shows "log_length (gr_node g A) - 1 \<le> commit_index (gr_node g A)"
    and "a \<in> set M \<Longrightarrow> log_length (gr_node g a) = log_length (gr_node g A)"
proof -
  show "log_length (gr_node g A) - 1 \<le> commit_index (gr_node g A)" using sync all by (simp add: sync_inv_def)
  obtain lo log where inv: "group_inv content lo A M log g" using led by (auto simp: led_def)
  note parts = group_inv_parts [OF inv]
  have len: "log_length (gr_node g b) = int (length (log b))" if "b \<in> set M" for b
    by (rule log_length_rel [OF server_ok_log [OF parts(6) [OF that]]])
  show "log_length (gr_node g a) = log_length (gr_node g A)" if a: "a \<in> set M"
  proof (cases "a = A")
    case False
    have "match_index (gr_node g A) a = Some (log_length (gr_node g A) - 1)"
      using sync all a False by (simp add: sync_inv_def)
    then have "int (length (log A)) - 1 < int (length (log a))"
      using parts(7) [OF a False] len [OF parts(1)] by (auto elim!: follower_okD)
    then show ?thesis using server_ok_bound(2) [OF parts(6) [OF a]] len [OF a] len [OF parts(1)] by simp
  qed simp
qed

text \<open>A heartbeat tells a follower what is committed, and its commit thread applies it.\<close>

lemma apply_committed:
  assumes led: "led content A M g" and a: "a \<in> set M" and len: "log_length (gr_node g A) \<le> 2147483647"
    and "log_length (gr_node g a) - 1 \<le> commit_index (gr_node g a)"
  shows "\<exists>g'. (group_step L A M)\<^sup>*\<^sup>* g g' \<and> only_applied a g g' \<and>
    last_applied_index (gr_node g' a) = log_length (gr_node g a) - 1"
proof -
  obtain g' where g': "(group_step L A M)\<^sup>*\<^sup>* g g'" "only_applied a g g'"
    "commit_index (gr_node g' a) \<le> last_applied_index (gr_node g' a)"
    using apply_all [OF led a len] by blast
  obtain lo log where inv: "group_inv content lo A M log g'"
    using led_runs [OF g'(1) led] by (auto simp: led_def)
  note srv = group_inv_parts(6) [OF inv a]
  have "last_applied_index (gr_node g' a) < log_length (gr_node g' a)"
    using srv log_length_rel [OF server_ok_log [OF srv]] by (simp add: server_ok_def)
  moreover have "log_length (gr_node g' a) = log_length (gr_node g a)"
    using g'(2) by (simp add: only_applied_def log_length_def)
  moreover have "log_length (gr_node g a) - 1 \<le> last_applied_index (gr_node g' a)"
    using g'(2,3) assms(4) by (simp add: only_applied_def)
  ultimately show ?thesis using g'(1,2) by auto
qed

lemma told:
  assumes led: "led content A M g" and a: "a \<in> set M"
    and c: "log_length (gr_node g A) - 1 \<le> commit_index (gr_node g A)"
    and len: "log_length (gr_node g a) = log_length (gr_node g A)"
    and max: "log_length (gr_node g A) \<le> 2147483647"
  shows "\<exists>g'. (group_step L A M)\<^sup>*\<^sup>* g g' \<and> (\<forall>b. b \<noteq> a \<longrightarrow> gr_node g' b = gr_node g b) \<and>
    commit_index (gr_node g' A) = commit_index (gr_node g A) \<and>
    log_length (gr_node g' a) = log_length (gr_node g A) \<and>
    last_applied_index (gr_node g' a) = log_length (gr_node g A) - 1"
proof (cases "a = A")
  case True
  then show ?thesis
    using apply_committed [OF led a max] c by (auto simp: only_applied_def log_length_def)
next
  case False
  let ?l = "gr_node g A" and ?n = "gr_node g a"
  obtain lo log where inv: "group_inv content lo A M log g" using led by (auto simp: led_def)
  have T: "current_term ?n \<le> current_term ?l"
    using group_inv_parts(6) [OF inv a] by (simp add: server_ok_def)
  let ?req = "heartbeat_request ?l"
  define g1 where "g1 = g\<lparr>gr_beats := insert ?req (gr_beats g)\<rparr>"
  have s1: "group_step L A M g g1" unfolding g1_def by (rule group_step.beat)
  define n' where "n' = ?n\<lparr>status := kFollower, current_term := current_term ?l, cur_leader_addr := self_addr ?l,
    headbeat_cnt := headbeat_cnt ?n + 1, commit_index := min (log_length ?n - 1) (commit_index ?l)\<rparr>"
  obtain es res where run: "AppendEntriesImpl L ?n ?req = Inr (n', es, res)"
    using T by (auto simp: AppendEntriesImpl_def AppendEntries_check_def AppendEntries_write_def n'_def
        AppendEntries_finish_def heartbeat_request_def Let_def log_length_def)
  define g2 where "g2 = set_node a n' (g1\<lparr>gr_answers := insert res (gr_answers g1)\<rparr>)"
  have s2: "group_step L A M g1 g2"
    unfolding g2_def by (rule group_step.beat_handled [where req = ?req and es = es])
      (use a False run in \<open>simp_all add: g1_def\<close>)
  have s: "(group_step L A M)\<^sup>*\<^sup>* g g2" using s1 s2 by (meson r_into_rtranclp rtranclp.rtrancl_into_rtrancl)
  have g2: "gr_node g2 a = n'" "b \<noteq> a \<Longrightarrow> gr_node g2 b = gr_node g b" for b by (simp_all add: g2_def g1_def)
  have n': "log_length n' = log_length ?l" "commit_index n' = log_length ?l - 1"
    using len c by (simp_all add: n'_def log_length_def)
  obtain g3 where g3: "(group_step L A M)\<^sup>*\<^sup>* g2 g3" "only_applied a g2 g3"
    "last_applied_index (gr_node g3 a) = log_length ?l - 1"
    using apply_committed [OF led_runs [OF s led] a] g2(1,2) n' max False by auto
  have "log_length (gr_node g3 a) = log_length ?l" using g3(2) g2(1) n'(1) by (simp add: only_applied_def log_length_def)
  then show ?thesis
    using s g3 g2(2) False by (intro exI [of _ g3]) (auto simp: only_applied_def)
qed

lemma told_all:
  assumes led: "led content A M g" and xs: "set xs \<subseteq> set M"
    and c: "log_length (gr_node g A) - 1 \<le> commit_index (gr_node g A)"
    and len: "\<forall>a \<in> set M. log_length (gr_node g a) = log_length (gr_node g A)"
    and max: "log_length (gr_node g A) \<le> 2147483647"
  shows "\<exists>g'. (group_step L A M)\<^sup>*\<^sup>* g g' \<and> commit_index (gr_node g' A) = commit_index (gr_node g A) \<and>
    (\<forall>a \<in> set M \<union> {A}. log_length (gr_node g' a) = log_length (gr_node g A)) \<and>
    (\<forall>a \<in> set xs. last_applied_index (gr_node g' a) = log_length (gr_node g A) - 1)"
  using xs
proof (induction xs)
  case Nil
  then show ?case using len by (intro exI [of _ g]) auto
next
  case (Cons a xs)
  obtain g1 where g1: "(group_step L A M)\<^sup>*\<^sup>* g g1" "commit_index (gr_node g1 A) = commit_index (gr_node g A)"
    "\<forall>a \<in> set M \<union> {A}. log_length (gr_node g1 a) = log_length (gr_node g A)"
    "\<forall>b \<in> set xs. last_applied_index (gr_node g1 b) = log_length (gr_node g A) - 1"
    using Cons by auto
  have a: "a \<in> set M" using Cons.prems by simp
  obtain g2 where g2: "(group_step L A M)\<^sup>*\<^sup>* g1 g2" "\<forall>b. b \<noteq> a \<longrightarrow> gr_node g2 b = gr_node g1 b"
    "commit_index (gr_node g2 A) = commit_index (gr_node g1 A)"
    "log_length (gr_node g2 a) = log_length (gr_node g1 A)"
    "last_applied_index (gr_node g2 a) = log_length (gr_node g1 A) - 1"
    using told [OF led_runs [OF g1(1) led] a] g1(2,3) a c max by auto
  have len': "log_length (gr_node g1 A) = log_length (gr_node g A)" using g1(3) by simp
  have "log_length (gr_node g2 b) = log_length (gr_node g A)" if "b \<in> set M \<union> {A}" for b
    using that g1(3) g2(2,4) len' by (cases "b = a") auto
  moreover have "last_applied_index (gr_node g2 b) = log_length (gr_node g A) - 1" if "b \<in> set (a # xs)" for b
    using that g1(4) g2(2,5) len' by (cases "b = a") auto
  ultimately show ?case using g1(1,2) g2(1,3) by (intro exI [of _ g2]) auto
qed

lemma group_converges:
  assumes led: "led content A M g" and M: "2 \<le> length M" and sync: "sync_inv A M (gr_node g A) (gr_thread g)"
    and max: "log_length (gr_node g A) \<le> 2147483647"
  shows "\<exists>g'. (group_step L A M)\<^sup>*\<^sup>* g g' \<and>
    (\<forall>a \<in> set M. log_length (gr_node g' a) = log_length (gr_node g A) \<and>
       last_applied_index (gr_node g' a) = log_length (gr_node g A) - 1)"
proof -
  have "\<exists>xs. set xs = set M - {A}" by (intro finite_list) simp
  then obtain xs where xs: "set xs = set M - {A}" by blast
  obtain g1 where g1: "(group_step L A M)\<^sup>*\<^sup>* g g1" "\<forall>a \<in> set M - {A}. gr_thread g1 a = Idle"
    "binlogger (gr_node g1 A) = binlogger (gr_node g A)"
    using drain_all [OF led, of xs] xs by auto
  note r1 = led_runs [OF g1(1) led]
  obtain g2 where g2: "(group_step L A M)\<^sup>*\<^sup>* g1 g2" "binlogger (gr_node g2 A) = binlogger (gr_node g1 A)"
    "\<forall>a \<in> set M - {A}. next_index (gr_node g2 A) a = Some (log_length (gr_node g1 A))"
    using catch_up_all [OF r1 _ g1(2), of xs] xs g1(3) max by (auto simp: log_length_def)
  note r2 = led_runs [OF g2(1) r1]
  have len: "log_length (gr_node g1 A) = log_length (gr_node g2 A)" "log_length (gr_node g2 A) = log_length (gr_node g A)"
    using g1(3) g2(2) by (simp_all add: log_length_def)
  have "sync_inv A M (gr_node g2 A) (gr_thread g2)"
    using sync_runs [OF g2(1) r1 M] sync_runs [OF g1(1) led M sync] by blast
  note hold = all_hold [OF r2 this g2(3) [unfolded len(1)]]
  obtain g3 where "(group_step L A M)\<^sup>*\<^sup>* g2 g3"
    "\<forall>a \<in> set M. log_length (gr_node g3 a) = log_length (gr_node g A) \<and>
      last_applied_index (gr_node g3 a) = log_length (gr_node g A) - 1"
    using told_all [OF r2 order.refl hold(1)] hold(2) len(2) max by auto
  then show ?thesis using g1(1) g2(1) by (meson rtranclp_trans)
qed

end

end
