(* ===== verification/StableClient.thy ===== *)
theory StableClient
  imports StableProgress
begin

text \<open>
  What a client is promised by a cluster under one leader, from its call to the answer: the leader's
  log only grows, a call waits at its slot until the commit thread gets there, and when it is
  answered a majority of the servers hold its entry. And it is answered: from every reachable state
  there is a way on to the answer, and to a state in which every server has applied the entry.
\<close>

section \<open>What a step does to the leader\<close>

definition calls_kept :: "'db node \<Rightarrow> 'db node \<Rightarrow> bool" where
  "calls_kept n n' \<longleftrightarrow>
     binlogger n' = binlogger n \<and> sdk_ack_map n' = sdk_ack_map n \<and>
     last_applied_index n' = last_applied_index n \<and> last_safe_clean_index n' = last_safe_clean_index n"

lemma calls_kept_refl [simp]: "calls_kept n n"
  by (simp add: calls_kept_def)

lemma UpdateCommitIndex_calls: "UpdateCommitIndex n i = (n', es) \<Longrightarrow> calls_kept n n'"
  by (rule UpdateCommitIndex_frame [of n i]) (auto simp: calls_kept_def)

lemma ReplicateLog_finish_calls:
  "ReplicateLog_finish n a c mt ok ret = (n', ok', es, go) \<Longrightarrow> calls_kept n n'"
  by (auto simp: ReplicateLog_finish_def Let_def calls_kept_def SwitchToFollower_def dest!: UpdateCommitIndex_calls
      split: if_splits option.splits prod.splits)

lemma VoteLeader_calls: "VoteLeader n d = (n', es) \<Longrightarrow> calls_kept n n'"
  by (auto simp: VoteLeader_def Let_def calls_kept_def split: if_splits)

lemma HeartBeatCallBack_calls: "calls_kept n (HeartBeatCallBack n res failed)"
  by (simp add: HeartBeatCallBack_def SwitchToFollower_def calls_kept_def)

lemma CommitIndex_apply_calls: "CommitIndex_apply L n i = Inr n' \<Longrightarrow> calls_kept n n'"
  by (auto simp: CommitIndex_apply_def bindE_eq_Inr calls_kept_def)

section \<open>The leader's log only grows\<close>

text \<open>
  \<open>promised content A M pfx ack g\<close>: the leader's log starts with \<open>pfx\<close>, and unless its last entry is already
  answered the call \<open>ack\<close> waits for it.
\<close>

definition promised ::
  "('db \<Rightarrow> string \<Rightarrow> string option) \<Rightarrow> string \<Rightarrow> string list \<Rightarrow> binlog_entry list \<Rightarrow> sdk_ack \<Rightarrow>
     'db group \<Rightarrow> bool"
where
  "promised content A M pfx ack g \<longleftrightarrow>
     (\<exists>lo log ys. group_inv content lo A M log g \<and> log A = pfx @ ys) \<and>
     (last_applied_index (gr_node g A) < int (length pfx) - 1 \<longrightarrow>
        sdk_ack_map (gr_node g A) (int (length pfx) - 1) = Some ack)"

context leveldb_available
begin

text \<open>A client's call, an answer of the commit thread, or nothing that concerns the calls.\<close>

lemma leader_moves:
  assumes step: "group_step L A M g g'" and inv: "group_inv content lo A M log g"
  shows "client_call L (gr_node g A) (gr_node g' A) \<or> calls_kept (gr_node g A) (gr_node g' A) \<or>
    gr_applied g A \<and>
    gr_node g' A = fst (CommitIndex_ack L (gr_node g A) (last_applied_index (gr_node g A) + 1))"
  using step
proof cases
  case (prepare a n' c)
  then have "n' = gr_node g A" using group_inv_prepare [OF inv _ _ prepare(3), of "gr_ok g a"] by auto
  then show ?thesis using prepare by simp
next
  case (apply_entry a n')
  then show ?thesis using CommitIndex_apply_calls by (cases "a = A") auto
next
  case (acknowledge a n' es)
  then have "loop_slot (gr_node g a) = last_applied_index (gr_node g a) + 1"
    using group_inv_parts(6) [OF inv acknowledge(2)] by (intro loop_slot_eq) (auto simp: server_ok_def)
  then show ?thesis using acknowledge by (cases "a = A") auto
next
  case (timer a d n' es)
  then show ?thesis using VoteLeader_calls by (cases "a = A") auto
qed (auto dest: ReplicateLog_finish_calls simp: HeartBeatCallBack_calls)

text \<open>Two logs that agree on what is below the cleaning index agree.\<close>

lemma binlog_rel_unique:
  assumes "binlog_rel content lo b (xs @ ys)" and "binlog_rel content lo b (xs @ zs)" and "lo \<le> int (length xs)"
  shows "ys = zs"
proof (rule nth_equalityI)
  show len: "length ys = length zs"
    using binlog_rel_length [OF assms(1)] binlog_rel_length [OF assms(2)] by simp
  fix i assume i: "i < length ys"
  let ?k = "int (length xs + i)"
  have "ReadSlot L b ?k = Inr (Some (ys ! i))" "ReadSlot L b ?k = Inr (Some (zs ! i))"
    using log.read_holds [OF assms(1), of ?k] log.read_holds [OF assms(2), of ?k] assms(3) i len
    by (simp_all add: nat_int_add)
  then show "ys ! i = zs ! i" by simp
qed

lemma promised_step:
  assumes step: "group_step L A M g g'" and p: "promised content A M pfx ack g"
  shows "promised content A M pfx ack g'"
proof -
  obtain lo log ys where inv: "group_inv content lo A M log g" and log: "log A = pfx @ ys"
    and ack: "last_applied_index (gr_node g A) < int (length pfx) - 1 \<longrightarrow>
        sdk_ack_map (gr_node g A) (int (length pfx) - 1) = Some ack"
    using p by (auto simp: promised_def)
  note parts = group_inv_parts [OF inv]
  have rel: "binlog_rel content lo (binlogger (gr_node g A)) (log A)"
    using group_inv_log [OF inv] by simp
  have lead: "status (gr_node g A) = kLeader" using parts(3) by (simp add: leader_ok_def)
  obtain log' zs where inv': "group_inv content lo A M log' g'" and zs: "log' A = log A @ zs"
    using group_step_inv [OF step inv] by (auto simp: grown_def)
  have "last_applied_index (gr_node g' A) < int (length pfx) - 1 \<Longrightarrow>
     sdk_ack_map (gr_node g' A) (int (length pfx) - 1) = Some ack"
    using leader_moves [OF step inv]
  proof (elim disjE)
    assume client: "client_call L (gr_node g A) (gr_node g' A)"
      and lag: "last_applied_index (gr_node g' A) < int (length pfx) - 1"
    obtain e a where n': "gr_node g' A = (gr_node g A)\<lparr>binlogger := binlogger (gr_node g' A),
        sdk_ack_map := (sdk_ack_map (gr_node g A))(int (length (log A)) := Some a)\<rparr>"
      by (rule client_call_rel [OF client lead rel]) blast
    have "last_applied_index (gr_node g' A) = last_applied_index (gr_node g A)"
      "sdk_ack_map (gr_node g' A) (int (length pfx) - 1) = sdk_ack_map (gr_node g A) (int (length pfx) - 1)"
      using log by (subst n'; simp)+
    then show ?thesis using ack lag by simp
  qed (use ack in \<open>auto simp: calls_kept_def CommitIndex_ack_eq acks_after_def\<close>)
  then show ?thesis using inv' log zs unfolding promised_def by auto
qed

lemma promised_run:
  "(group_step L A M)\<^sup>*\<^sup>* g g' \<Longrightarrow> promised content A M pfx ack g \<Longrightarrow> promised content A M pfx ack g'"
  by (induction rule: rtranclp_induct) (auto intro: promised_step)

lemma promised_ack:
  assumes p: "promised content A M pfx ack g" and "last_applied_index (gr_node g A) < int (length pfx) - 1"
  shows "ack_effects (cur_leader_addr (gr_node g A)) ack =
    snd (CommitIndex_ack L (gr_node g A) (int (length pfx) - 1))"
proof -
  obtain lo log where "group_inv content lo A M log g" using p by (auto simp: promised_def)
  then have "status (gr_node g A) = kLeader" using group_inv_parts(3) by (fastforce simp: leader_ok_def)
  then show ?thesis using assms by (simp add: promised_def CommitIndex_ack_eq answers_at_def)
qed

text \<open>A call that the leader accepts is promised.\<close>

lemma put_promised:
  assumes led: "led content A M g" and ok: "entry_ok (call_entry (gr_node g A) kLockOp k v)"
    and k: "k \<noteq> tag_last_applied_index"
  obtains n pfx ack where "Put L (gr_node g A) c k v = Inr (Inr (n, [BroadcastReplica]))"
    and "group_step L A M g (set_node A n g)"
    and "promised content A M (pfx @ [call_entry (gr_node g A) kPutOp k v]) ack (set_node A n g)"
    and "int (length pfx) = log_length (gr_node g A)"
    and "last_applied_index n = last_applied_index (gr_node g A)"
    and "last_applied_index (gr_node g A) < int (length pfx)"
    and "\<forall>x. {SetSuccess c, RunDone (Some c)} \<subseteq> set (ack_effects x ack)"
    and "log_length n = int (length pfx) + 1"
proof -
  obtain lo log where inv: "group_inv content lo A M log g" using led by (auto simp: led_def)
  note parts = group_inv_parts [OF inv]
  have lead: "status (gr_node g A) = kLeader" using parts(3) by (simp add: leader_ok_def)
  have rel: "binlog_rel content lo (binlogger (gr_node g A)) (log A)" using group_inv_log [OF inv] by simp
  let ?e = "call_entry (gr_node g A) kPutOp k v"
  obtain n where put: "Put L (gr_node g A) c k v = Inr (Inr (n, [BroadcastReplica]))"
    and logged: "call_logged content lo (log A) ?e (\<lambda>a. a\<lparr>ack_done := Some c, put_res := Some c\<rparr>) (gr_node g A) n"
    using leader_calls(1) [OF lead rel ok] by blast
  have call: "client_call L (gr_node g A) n" unfolding client_call_def using put k ok by blast
  then have step: "group_step L A M g (set_node A n g)" by (rule group_step.client)
  define ack where "ack = (at_default empty_ack (sdk_ack_map (gr_node g A)) (int (length (log A))))
    \<lparr>ack_done := Some c, put_res := Some c\<rparr>"
  have n: "binlog_rel content lo (binlogger n) (log A @ [?e])"
    and eq: "n = gr_node g A\<lparr>binlogger := binlogger n,
      sdk_ack_map := (sdk_ack_map (gr_node g A))(int (length (log A)) := Some ack)\<rparr>"
    using logged unfolding call_logged_def ack_def by blast+
  have fields: "last_applied_index n = last_applied_index (gr_node g A)"
    "sdk_ack_map n (int (length (log A))) = Some ack" by (subst eq, simp)+
  obtain log' zs where inv': "group_inv content lo A M log' (set_node A n g)" and zs: "log' A = log A @ zs"
    using group_step_inv [OF step inv] by (auto simp: grown_def)
  have "lo \<le> int (length (log A))" using server_ok_lo [OF parts(6) [OF parts(1)] order_refl] by linarith
  then have "log' A = log A @ [?e]"
    using binlog_rel_unique [OF _ n, of zs] group_inv_log [OF inv', of A] zs by simp
  then have pr: "promised content A M (log A @ [?e]) ack (set_node A n g)"
    using inv' fields by (auto simp: promised_def)
  have eff: "\<forall>x. {SetSuccess c, RunDone (Some c)} \<subseteq> set (ack_effects x ack)"
    by (simp add: ack_def ack_effects_def)
  have "int (length (log A)) = log_length (gr_node g A)" using log_length_rel [OF rel] by simp
  moreover have "last_applied_index (gr_node g A) < int (length (log A))"
    using parts(6) [OF parts(1)] by (simp add: server_ok_def)
  moreover have "log_length n = int (length (log A)) + 1" using log_length_rel [OF n] by simp
  ultimately show thesis by (rule that [OF put step pr _ fields(1) _ eff])
qed

text \<open>A commit thread gets past a slot by answering for it.\<close>

lemma ack_on_the_way:
  assumes "(group_step L A M)\<^sup>*\<^sup>* g g'" and "led content A M g"
    and "last_applied_index (gr_node g A) < i" and "i \<le> last_applied_index (gr_node g' A)"
  shows "\<exists>g1. (group_step L A M)\<^sup>*\<^sup>* g g1 \<and> (group_step L A M)\<^sup>*\<^sup>* g1 g' \<and> gr_applied g1 A \<and>
    last_applied_index (gr_node g1 A) + 1 = i"
  using assms
proof (induction rule: rtranclp_induct)
  case base
  then show ?case by simp
next
  case (step g1 g2)
  show ?case
  proof (cases "i \<le> last_applied_index (gr_node g1 A)")
    case True
    then obtain h where "(group_step L A M)\<^sup>*\<^sup>* g h" "(group_step L A M)\<^sup>*\<^sup>* h g1" "gr_applied h A"
      "last_applied_index (gr_node h A) + 1 = i"
      using step.IH step.prems by blast
    then show ?thesis using step.hyps(2) by (intro exI [of _ h]) auto
  next
    case False
    obtain lo log where inv: "group_inv content lo A M log g1"
      using led_runs [OF step.hyps(1) step.prems(1)] by (auto simp: led_def)
    have lead: "status (gr_node g1 A) = kLeader" using group_inv_parts(3) [OF inv] by (simp add: leader_ok_def)
    have "last_applied_index (gr_node g2 A) = last_applied_index (gr_node g1 A)"
      if call: "client_call L (gr_node g1 A) (gr_node g2 A)"
    proof -
      obtain b m where eq: "gr_node g2 A = (gr_node g1 A)\<lparr>binlogger := b, sdk_ack_map := m\<rparr>"
        by (rule client_call_rel [OF call lead group_inv_log [OF inv disjI2 [OF refl]]]) blast
      show ?thesis by (simp add: eq)
    qed
    then have "gr_applied g1 A \<and> last_applied_index (gr_node g1 A) + 1 = i"
      using leader_moves [OF step.hyps(2) inv] step.prems(3) False
      by (auto simp: calls_kept_def CommitIndex_ack_eq)
    then show ?thesis using step.hyps by (intro exI [of _ g1]) auto
  qed
qed

text \<open>The leader's log is never empty: it starts with the entry of the leader's term.\<close>

lemma leader_log_length:
  assumes "group_step L A M g g'" and inv: "group_inv content lo A M log g"
  shows "log_length (gr_node g A) \<le> log_length (gr_node g' A)"
proof -
  have rel: "binlog_rel content lo (binlogger (gr_node g A)) (log A)" using group_inv_log [OF inv] by simp
  have lead: "status (gr_node g A) = kLeader" using group_inv_parts(3) [OF inv] by (simp add: leader_ok_def)
  have "log_length (gr_node g A) \<le> log_length (gr_node g' A)"
    if call: "client_call L (gr_node g A) (gr_node g' A)"
  proof -
    obtain e where "binlog_rel content lo (binlogger (gr_node g' A)) (log A @ [e])"
      by (rule client_call_rel [OF call lead rel])
    then show ?thesis using log_length_rel [OF rel] log_length_rel by fastforce
  qed
  then show ?thesis
    using leader_moves [OF assms] by (auto simp: calls_kept_def CommitIndex_ack_eq log_length_def)
qed

lemma leader_log_starts:
  assumes "group_reachable L content A M g"
  shows "0 < log_length (gr_node g A)"
  using assms
proof induction
  case (start g)
  then show ?case using log_length_rel [OF made_leaderD(1) [OF first_leader]] by simp
next
  case (step g g')
  then obtain log where "group_inv content 0 A M log g" using group_reachable_inv by blast
  then show ?case using leader_log_length [OF step.hyps(2)] step.IH by fastforce
qed

text \<open>When a slot is answered for, a majority holds it, and the leader has applied it.\<close>

lemma promised_held:
  assumes p: "promised content A M (pfx @ [e]) ack g" and pfx: "pfx \<noteq> []"
    and half: "gr_applied g A" "last_applied_index (gr_node g A) + 1 = int (length pfx)"
  shows "majority M {a \<in> set M. ReadSlot L (binlogger (gr_node g a)) (int (length pfx)) = Inr (Some e)}"
    and "\<exists>m. store_rel content (data_store (gr_node g A)) (apply_spec e m)"
proof -
  obtain lo log ys where inv: "group_inv content lo A M log g" and log: "log A = pfx @ e # ys"
    using p by (auto simp: promised_def)
  note parts = group_inv_parts [OF inv]
  let ?c = "commit_index (gr_node g A)" and ?i = "int (length pfx)"
  have ok: "server_ok content lo (log A) (current_term (gr_node g A)) ?c True (gr_end g A) (log A) (gr_node g A)"
    using parts(6) [OF parts(1)] half(1) by simp
  then have c: "?i \<le> ?c" "0 < ?i" using half(2) pfx by (auto simp: server_ok_def)
  have lo: "lo \<le> ?i" using ok half(2) c(2) by (simp add: server_ok_def)
  have "\<not> ?c \<le> 0" using c by linarith
  then have "majority M {a \<in> set M. ?c < int (length (log a))}" using parts(5) by (simp add: held_by_def)
  moreover have "ReadSlot L (binlogger (gr_node g a)) ?i = Inr (Some e)"
    if "a \<in> set M" "?c < int (length (log a))" for a
    using server_ok_read [OF leveldb_available_axioms parts(6) [OF that(1)], of ?i] that(2) c lo
    by (simp add: log nth_append)
  then have "card {a \<in> set M. ?c < int (length (log a))} \<le>
      card {a \<in> set M. ReadSlot L (binlogger (gr_node g a)) ?i = Inr (Some e)}"
    by (intro card_mono) auto
  ultimately show "majority M {a \<in> set M. ReadSlot L (binlogger (gr_node g a)) ?i = Inr (Some e)}"
    by (simp add: majority_def)
  have "nat (last_applied_index (gr_node g A) + 1) + 1 = Suc (length pfx)" using half(2) by simp
  then have "store_rel content (data_store (gr_node g A)) (fold apply_spec (take (Suc (length pfx)) (log A)) (\<lambda>_. None))"
    using server_ok_applied(3) [OF ok] by simp
  then show "\<exists>m. store_rel content (data_store (gr_node g A)) (apply_spec e m)"
    by (auto simp: log)
qed

lemma promised_answer:
  assumes pr: "promised content A M (pfx @ [e]) ack0 g" and pfx: "pfx \<noteq> []"
    and eff: "\<forall>x. {SetSuccess c, RunDone (Some c)} \<subseteq> set (ack_effects x ack0)"
    and half: "gr_applied g A" "last_applied_index (gr_node g A) + 1 = int (length pfx)"
    and ack: "CommitIndex_ack L (gr_node g A) (int (length pfx)) = (n', es)"
  shows "{SetSuccess c, RunDone (Some c)} \<subseteq> set es"
    and "majority M {a \<in> set M. ReadSlot L (binlogger (gr_node g a)) (int (length pfx)) = Inr (Some e)}"
    and "be_op e = kPutOp \<Longrightarrow> be_key e \<noteq> tag_last_applied_index \<Longrightarrow>
      Get L n' (be_key e) = Inr (Some \<lparr>gr_hit = True, gr_success = True, gr_value = be_value e, gr_leader_id = A\<rparr>)"
proof -
  show "{SetSuccess c, RunDone (Some c)} \<subseteq> set es"
    using promised_ack [OF pr] half(2) ack eff by auto
  note held = promised_held [OF pr pfx half]
  show "majority M {a \<in> set M. ReadSlot L (binlogger (gr_node g a)) (int (length pfx)) = Inr (Some e)}"
    by (rule held(1))
  obtain m where "store_rel content (data_store (gr_node g A)) (apply_spec e m)" using held(2) by blast
  then have "store_rel content (data_store n') (apply_spec e m)"
    using ack put_tag_rel by (auto simp: CommitIndex_ack_eq)
  moreover obtain lo log where "group_inv content lo A M log g" using pr by (auto simp: promised_def)
  then have "status n' = kLeader" "self_addr n' = A"
    using ack group_inv_parts(3) by (fastforce simp: CommitIndex_ack_eq leader_ok_def)+
  ultimately show "Get L n' (be_key e) = Inr (Some \<lparr>gr_hit = True, gr_success = True, gr_value = be_value e, gr_leader_id = A\<rparr>)"
    if "be_op e = kPutOp" "be_key e \<noteq> tag_last_applied_index"
    using Get_rel [of n' "apply_spec e m" "be_key e"] that by (simp add: apply_spec_def)
qed

text \<open>What is promised to a caller whose call was accepted in \<open>g\<close>, when it comes to its answer.\<close>

lemma put_answered_rel:
  assumes led: "led content A M g" and started: "0 < log_length (gr_node g A)"
    and put: "Put L (gr_node g A) c k v = Inr (Inr (n, es))"
    and ok: "entry_ok (call_entry (gr_node g A) kLockOp k v)" and k: "k \<noteq> tag_last_applied_index"
    and kept: "\<And>pfx ack. promised content A M pfx ack (set_node A n g) \<Longrightarrow> promised content A M pfx ack g'"
    and half: "gr_applied g' A" "last_applied_index (gr_node g' A) + 1 = log_length (gr_node g A)"
    and ack: "CommitIndex_ack L (gr_node g' A) (log_length (gr_node g A)) = (n', es')"
  shows "{SetSuccess c, RunDone (Some c)} \<subseteq> set es' \<and>
    majority M {a \<in> set M. ReadSlot L (binlogger (gr_node g' a)) (log_length (gr_node g A)) =
      Inr (Some (call_entry (gr_node g A) kPutOp k v))} \<and>
    Get L n' k = Inr (Some \<lparr>gr_hit = True, gr_success = True, gr_value = v, gr_leader_id = A\<rparr>)"
proof -
  let ?e = "call_entry (gr_node g A) kPutOp k v"
  obtain n1 pfx ack0 where n1: "Put L (gr_node g A) c k v = Inr (Inr (n1, [BroadcastReplica]))"
    and pr1: "promised content A M (pfx @ [?e]) ack0 (set_node A n1 g)"
    and len: "log_length (gr_node g A) = int (length pfx)"
    and eff: "\<forall>x. {SetSuccess c, RunDone (Some c)} \<subseteq> set (ack_effects x ack0)"
    by (rule put_promised [OF led ok k, where c = c]) (auto intro: that simp del: insert_subset)
  have pr: "promised content A M (pfx @ [?e]) ack0 g'" using kept pr1 n1 put by simp
  have pfx: "pfx \<noteq> []" using len started by auto
  show ?thesis
    using promised_answer [OF pr pfx eff half [unfolded len] ack [unfolded len]] k
    by (simp add: len) (simp add: call_entry_def)
qed

lemma put_completes:
  assumes led: "led content A M g" and M: "2 \<le> length M"
    and sync: "sync_inv A M (gr_node g A) (gr_thread g)"
    and ok: "entry_ok (call_entry (gr_node g A) kLockOp k v)" and k: "k \<noteq> tag_last_applied_index"
    and max: "log_length (gr_node g A) < 2147483647"
  shows "\<exists>n g1 g2. Put L (gr_node g A) c k v = Inr (Inr (n, [BroadcastReplica])) \<and>
    (group_step L A M)\<^sup>*\<^sup>* (set_node A n g) g1 \<and> gr_applied g1 A \<and>
    last_applied_index (gr_node g1 A) + 1 = log_length (gr_node g A) \<and> (group_step L A M)\<^sup>*\<^sup>* g1 g2 \<and>
    (\<forall>a \<in> set M. StorageKV_Get L (data_store (gr_node g2 a)) k = (0, Some (type_and_value kPutOp v)))"
proof -
  let ?e = "call_entry (gr_node g A) kPutOp k v"
  obtain n pfx ack where put: "Put L (gr_node g A) c k v = Inr (Inr (n, [BroadcastReplica]))"
    and step: "group_step L A M g (set_node A n g)"
    and pr: "promised content A M (pfx @ [?e]) ack (set_node A n g)"
    and len: "int (length pfx) = log_length (gr_node g A)"
    and pos: "last_applied_index n = last_applied_index (gr_node g A)" "last_applied_index (gr_node g A) < int (length pfx)"
    and n_len: "log_length n = int (length pfx) + 1"
    by (rule put_promised [OF led ok k, where c = c])
  have r: "led content A M (set_node A n g)" by (rule led_step [OF led step])
  have sync': "sync_inv A M (gr_node (set_node A n g) A) (gr_thread (set_node A n g))"
    by (rule sync_runs [OF r_into_rtranclp [where r = "group_step L A M", OF step] led M sync])
  obtain g2 where g2: "(group_step L A M)\<^sup>*\<^sup>* (set_node A n g) g2"
    "\<forall>a \<in> set M. log_length (gr_node g2 a) = log_length n \<and> last_applied_index (gr_node g2 a) = log_length n - 1"
    using group_converges [OF r M sync'] max len n_len by auto
  obtain lo log ys where inv: "group_inv content lo A M log g2" and log: "log A = pfx @ ?e # ys"
    using promised_run [OF g2(1) pr] by (auto simp: promised_def)
  note parts = group_inv_parts [OF inv]
  have "last_applied_index (gr_node g2 A) = int (length pfx)" using g2(2) parts(1) n_len by simp
  then obtain g1 where g1: "(group_step L A M)\<^sup>*\<^sup>* (set_node A n g) g1" "(group_step L A M)\<^sup>*\<^sup>* g1 g2"
    "gr_applied g1 A" "last_applied_index (gr_node g1 A) + 1 = log_length (gr_node g A)"
    using ack_on_the_way [OF g2(1) r, of "int (length pfx)"] pos len by auto
  have "int (length (log A)) = int (length pfx) + 1"
    using log_length_rel [OF group_inv_log [OF inv disjI2 [OF refl]]] g2(2) parts(1) n_len by simp
  then have whole: "log A = pfx @ [?e]" by (simp add: log)
  have "StorageKV_Get L (data_store (gr_node g2 a)) k = (0, Some (type_and_value kPutOp v))"
    if a: "a \<in> set M" for a
  proof -
    note srv = parts(6) [OF a]
    have end_a: "last_applied_index (gr_node g2 a) = int (length pfx)" using g2(2) a n_len by simp
    moreover have "length (log a) \<le> length pfx + 1" using server_ok_bound(2) [OF srv] whole by simp
    ultimately have "\<not> gr_applied g2 a" using srv by (auto simp: server_ok_def)
    then have "store_rel content (data_store (gr_node g2 a)) (apply_spec ?e (fold apply_spec pfx (\<lambda>_. None)))"
      using server_ok_applied(3) [OF srv] end_a by (simp add: whole nat_add_distrib)
    from store_rel_key [OF this k] show ?thesis
      by (simp add: store.get_view apply_spec_def call_entry_def)
  qed
  then show ?thesis using put g1 by blast
qed

end

text \<open>The first call to the sample group: it is accepted, and there is a moment to answer it.\<close>

lemma sample_put:
  "entry_ok (call_entry (gr_node sample_group ''a'') kLockOp ''k'' ''v'')"
  and sample_group_length: "log_length (gr_node sample_group ''a'') = 1"
proof -
  have t: "current_term (gr_node sample_group ''a'') = 1" by (simp add: sample_group_def sample_winner_leads)
  note l = mem.made_leaderD [OF mem.first_leader [OF sample_group_start], unfolded t]
  show "entry_ok (call_entry (gr_node sample_group ''a'') kLockOp ''k'' ''v'')"
    by (simp add: t call_entry_def entry_ok_def entry_size_def in_i32_def in_i64_def)
  show "log_length (gr_node sample_group ''a'') = 1"
    using mem.log_length_rel [OF l(1)] by simp
qed

end
