(* ===== verification/Mutex.thy ===== *)
theory Mutex
  imports Prelude
begin

text \<open>
  \<open>Mutex\<close>, \<open>MutexLock\<close> and \<open>CondVar\<close> of \<open>common/mutex.h\<close>, which every handler of a server, the
  binlog, the data store and the thread pools use. The code is a thin layer over pthreads that
  keeps the identity of the owner beside the pthread mutex, in instructions of their own, so the
  threads are interleaved between any two of them. The pthread calls are as POSIX has them:
  \<open>pthread_mutex_lock\<close> waits until the mutex is free, \<open>pthread_cond_wait\<close> releases it and joins the
  waiters in one step and takes it again before it returns, and a waiter may wake up by itself.
  \<open>MUTEX_DEBUG\<close> is not defined, so the messages and their thresholds have no effect.
\<close>

section \<open>The mutex\<close>

text \<open>Threads are their \<open>pthread_t\<close>; \<open>owner_\<close> is 0 when nobody owns the mutex.\<close>

type_synonym tid = nat

record mutex =
  mu_holder :: "tid option"   \<comment> \<open>who has the pthread mutex\<close>
  owner :: tid

definition PthreadCall :: "int \<Rightarrow> unit res" where
  "PthreadCall result = (if result \<noteq> 0 then Inl AbortCalled else Inr ())"

definition Mutex_init :: mutex where
  "Mutex_init = \<lparr>mu_holder = None, owner = 0\<rparr>"

text \<open>\<open>None\<close> when the call has to wait.\<close>

definition pthread_mutex_lock :: "tid \<Rightarrow> mutex \<Rightarrow> mutex option" where
  "pthread_mutex_lock t m =
     (if mu_holder m = None then Some (m\<lparr>mu_holder := Some t\<rparr>) else None)"

definition pthread_mutex_unlock :: "tid \<Rightarrow> mutex \<Rightarrow> mutex res" where
  "pthread_mutex_unlock t m =
     (if mu_holder m = Some t then Inr (m\<lparr>mu_holder := None\<rparr>) else Inl UnlockNotHeld)"

definition AfterLock :: "tid \<Rightarrow> mutex \<Rightarrow> mutex" where
  "AfterLock t m = m\<lparr>owner := t\<rparr>"

definition BeforeUnlock :: "mutex \<Rightarrow> mutex" where
  "BeforeUnlock m = m\<lparr>owner := 0\<rparr>"

definition AssertHeld :: "tid \<Rightarrow> mutex \<Rightarrow> unit res" where
  "AssertHeld t m = (if owner m = t then Inr () else Inl AbortCalled)"

text \<open>\<open>Lock\<close> and \<open>Unlock\<close> when nothing else runs between their instructions.\<close>

definition Mutex_Lock :: "tid \<Rightarrow> mutex \<Rightarrow> mutex option" where
  "Mutex_Lock t m = map_option (AfterLock t) (pthread_mutex_lock t m)"

definition Mutex_Unlock :: "tid \<Rightarrow> mutex \<Rightarrow> mutex res" where
  "Mutex_Unlock t m = pthread_mutex_unlock t (BeforeUnlock m)"

lemmas mutex_defs = pthread_mutex_lock_def pthread_mutex_unlock_def AfterLock_def BeforeUnlock_def
  AssertHeld_def

section \<open>Threads that lock, unlock, wait and signal\<close>

text \<open>
  Where a thread stands: outside, between the pthread lock and \<open>AfterLock\<close>, in its critical
  section, between \<open>BeforeUnlock\<close> and the pthread unlock, or in \<open>CondVar::Wait\<close> (or \<open>TimeWait\<close>) on
  a condition variable, before and after the pthread wait has released the mutex. The condition
  variables of one mutex are told apart by a number.
\<close>

datatype mutex_pc = Outside | Locked | Inside | Unlocking | WaitCalled nat | Waiting nat

record sync =
  sy_mutex :: mutex
  sy_waiters :: "nat \<Rightarrow> tid set"
  sy_pc :: "tid \<Rightarrow> mutex_pc"

definition at_pc :: "tid \<Rightarrow> mutex_pc \<Rightarrow> mutex \<Rightarrow> sync \<Rightarrow> sync" where
  "at_pc t pc m s = s\<lparr>sy_mutex := m, sy_pc := (sy_pc s)(t := pc)\<rparr>"

text \<open>
  The steps of thread \<open>t\<close>. \<open>Signal\<close> wakes at least one waiter if there is any; \<open>wake\<close> is a
  timeout, or a wake-up without a reason.
\<close>

inductive sync_step :: "tid \<Rightarrow> sync \<Rightarrow> sync \<Rightarrow> bool" for t where
  acquire: "t \<noteq> 0 \<Longrightarrow> sy_pc s t = Outside \<Longrightarrow> pthread_mutex_lock t (sy_mutex s) = Some m \<Longrightarrow>
     sync_step t s (at_pc t Locked m s)"
| enter: "sy_pc s t = Locked \<Longrightarrow> sync_step t s (at_pc t Inside (AfterLock t (sy_mutex s)) s)"
| leave: "sy_pc s t = Inside \<Longrightarrow> sync_step t s (at_pc t Unlocking (BeforeUnlock (sy_mutex s)) s)"
| release: "sy_pc s t = Unlocking \<Longrightarrow> pthread_mutex_unlock t (sy_mutex s) = Inr m \<Longrightarrow>
     sync_step t s (at_pc t Outside m s)"
| call_wait: "sy_pc s t = Inside \<Longrightarrow>
     sync_step t s (at_pc t (WaitCalled c) (BeforeUnlock (sy_mutex s)) s)"
| sleep: "sy_pc s t = WaitCalled c \<Longrightarrow> pthread_mutex_unlock t (sy_mutex s) = Inr m \<Longrightarrow>
     sync_step t s ((at_pc t (Waiting c) m s)
       \<lparr>sy_waiters := (sy_waiters s)(c := insert t (sy_waiters s c))\<rparr>)"
| wake: "sy_pc s t = Waiting c \<Longrightarrow>
     sync_step t s (s\<lparr>sy_waiters := (sy_waiters s)(c := sy_waiters s c - {t})\<rparr>)"
| reacquire: "sy_pc s t = Waiting c \<Longrightarrow> t \<notin> sy_waiters s c \<Longrightarrow>
     pthread_mutex_lock t (sy_mutex s) = Some m \<Longrightarrow> sync_step t s (at_pc t Locked m s)"
| signal: "sy_waiters s c = {} \<or> X \<inter> sy_waiters s c \<noteq> {} \<Longrightarrow>
     sync_step t s (s\<lparr>sy_waiters := (sy_waiters s)(c := sy_waiters s c - X)\<rparr>)"
| broadcast: "sync_step t s (s\<lparr>sy_waiters := (sy_waiters s)(c := {})\<rparr>)"

definition sync_start :: sync where
  "sync_start = \<lparr>sy_mutex = Mutex_init, sy_waiters = (\<lambda>_. {}), sy_pc = (\<lambda>_. Outside)\<rparr>"

inductive sync_reachable :: "sync \<Rightarrow> bool" where
  start: "sync_reachable sync_start"
| step: "sync_reachable s \<Longrightarrow> sync_step t s s' \<Longrightarrow> sync_reachable s'"

lemma at_pc_simps [simp]:
  "sy_mutex (at_pc t pc m s) = m"
  "sy_waiters (at_pc t pc m s) = sy_waiters s"
  "sy_pc (at_pc t pc m s) = (sy_pc s)(t := pc)"
  by (simp_all add: at_pc_def)

section \<open>The invariant\<close>

fun has_mutex :: "mutex_pc \<Rightarrow> bool" where
  "has_mutex Locked \<longleftrightarrow> True"
| "has_mutex Inside \<longleftrightarrow> True"
| "has_mutex Unlocking \<longleftrightarrow> True"
| "has_mutex (WaitCalled c) \<longleftrightarrow> True"
| "has_mutex pc \<longleftrightarrow> False"

definition sync_ok :: "sync \<Rightarrow> bool" where
  "sync_ok s \<longleftrightarrow>
     sy_pc s 0 = Outside \<and>
     (\<forall>t. has_mutex (sy_pc s t) \<longleftrightarrow> mu_holder (sy_mutex s) = Some t) \<and>
     (\<forall>t. sy_pc s t = Inside \<longleftrightarrow> t \<noteq> 0 \<and> owner (sy_mutex s) = t) \<and>
     (\<forall>t c. t \<in> sy_waiters s c \<longrightarrow> sy_pc s t = Waiting c)"

lemma sync_ok_start: "sync_ok sync_start"
  by (auto simp: sync_ok_def sync_start_def Mutex_init_def)

lemma sync_okD:
  assumes "sync_ok s"
  shows "sy_pc s 0 = Outside" and "has_mutex (sy_pc s t) \<longleftrightarrow> mu_holder (sy_mutex s) = Some t"
    and "sy_pc s t = Inside \<longleftrightarrow> t \<noteq> 0 \<and> owner (sy_mutex s) = t"
    and "t \<in> sy_waiters s c \<Longrightarrow> sy_pc s t = Waiting c"
  using assms by (auto simp: sync_ok_def)

text \<open>Nobody owns a mutex that nobody is in the critical section of.\<close>

lemma sync_ok_owner:
  assumes "sync_ok s" and "mu_holder (sy_mutex s) = None \<or> mu_holder (sy_mutex s) = Some t"
    and "sy_pc s t \<noteq> Inside"
  shows "owner (sy_mutex s) = 0"
proof (rule ccontr)
  assume "owner (sy_mutex s) \<noteq> 0"
  then have i: "sy_pc s (owner (sy_mutex s)) = Inside" using sync_okD(3) [OF assms(1)] by blast
  then have "mu_holder (sy_mutex s) = Some (owner (sy_mutex s))"
    using sync_okD(2) [OF assms(1)] has_mutex.simps(2) by metis
  then show False using assms(2,3) i by simp
qed

text \<open>A thread moves while the mutex is free or its own.\<close>

lemma sync_ok_at_pc:
  assumes ok: "sync_ok s" and t: "t \<noteq> 0"
    and h: "mu_holder (sy_mutex s) = None \<or> mu_holder (sy_mutex s) = Some t"
    and m: "mu_holder m = (if has_mutex pc then Some t else None)" "owner m = (if pc = Inside then t else 0)"
    and w: "\<And>c. t \<notin> sy_waiters s c"
  shows "sync_ok (at_pc t pc m s)"
proof -
  have others: "\<not> has_mutex (sy_pc s u)" "sy_pc s u \<noteq> Inside" if "u \<noteq> t" for u
    using that sync_okD(2) [OF ok, of u] h by auto
  show ?thesis
    using others m t w sync_okD(1,4) [OF ok] by (auto simp: sync_ok_def)
qed

lemma sync_ok_waiters:
  assumes "sync_ok s" and "\<And>c. W c \<subseteq> sy_waiters s c"
  shows "sync_ok (s\<lparr>sy_waiters := W\<rparr>)"
  using assms unfolding sync_ok_def by simp blast

lemma sync_ok_add_waiter:
  assumes "sync_ok s" and "sy_pc s t = Waiting c"
  shows "sync_ok (s\<lparr>sy_waiters := (sy_waiters s)(c := insert t (sy_waiters s c))\<rparr>)"
  using assms by (simp add: sync_ok_def)

lemma not_waiting: "sync_ok s \<Longrightarrow> sy_pc s t = pc \<Longrightarrow> (\<And>c. pc \<noteq> Waiting c) \<Longrightarrow> t \<notin> sy_waiters s c"
  using sync_okD(4) by blast

lemma sync_ok_step:
  assumes "sync_step t s s'" and ok: "sync_ok s"
  shows "sync_ok s'"
proof -
  have pos: "t \<noteq> 0" if "sy_pc s t \<noteq> Outside" using that sync_okD(1) [OF ok] by (cases "t = 0") auto
  show ?thesis
    using assms(1)
  proof cases
    case (acquire m)
    have free: "mu_holder (sy_mutex s) = None" and m: "m = sy_mutex s\<lparr>mu_holder := Some t\<rparr>"
      using acquire(4) by (simp_all add: pthread_mutex_lock_def split: if_splits)
    show ?thesis unfolding acquire(1)
      using acquire(2,3) free sync_ok_owner [OF ok, of t] not_waiting [OF ok acquire(3)]
      by (intro sync_ok_at_pc [OF ok]) (simp_all add: m)
  next
    case enter
    have h: "mu_holder (sy_mutex s) = Some t" using sync_okD(2) [OF ok, of t] enter(2) by simp
    show ?thesis unfolding enter(1)
      using enter(2) h pos not_waiting [OF ok enter(2)]
      by (intro sync_ok_at_pc [OF ok]) (auto simp: AfterLock_def)
  next
    case leave
    have h: "mu_holder (sy_mutex s) = Some t" using sync_okD(2) [OF ok, of t] leave(2) by simp
    show ?thesis unfolding leave(1)
      using leave(2) h pos not_waiting [OF ok leave(2)]
      by (intro sync_ok_at_pc [OF ok]) (auto simp: BeforeUnlock_def)
  next
    case (release m)
    have h: "mu_holder (sy_mutex s) = Some t" and m: "m = sy_mutex s\<lparr>mu_holder := None\<rparr>"
      using release(3) by (simp_all add: pthread_mutex_unlock_def split: if_splits)
    show ?thesis unfolding release(1)
      using release(2) h pos sync_ok_owner [OF ok, of t] not_waiting [OF ok release(2)]
      by (intro sync_ok_at_pc [OF ok]) (auto simp: m)
  next
    case (call_wait c)
    have h: "mu_holder (sy_mutex s) = Some t" using sync_okD(2) [OF ok, of t] call_wait(2) by simp
    show ?thesis unfolding call_wait(1)
      using call_wait(2) h pos not_waiting [OF ok call_wait(2)]
      by (intro sync_ok_at_pc [OF ok]) (auto simp: BeforeUnlock_def)
  next
    case (sleep c m)
    have h: "mu_holder (sy_mutex s) = Some t" and m: "m = sy_mutex s\<lparr>mu_holder := None\<rparr>"
      using sleep(3) by (simp_all add: pthread_mutex_unlock_def split: if_splits)
    have "sync_ok (at_pc t (Waiting c) m s)"
      using sleep(2) h pos sync_ok_owner [OF ok, of t] not_waiting [OF ok sleep(2)]
      by (intro sync_ok_at_pc [OF ok]) (auto simp: m)
    then show ?thesis unfolding sleep(1) using sync_ok_add_waiter [of "at_pc t (Waiting c) m s" t c] by simp
  next
    case (reacquire c m)
    have free: "mu_holder (sy_mutex s) = None" and m: "m = sy_mutex s\<lparr>mu_holder := Some t\<rparr>"
      using reacquire(4) by (simp_all add: pthread_mutex_lock_def split: if_splits)
    have "t \<notin> sy_waiters s d" for d using sync_okD(4) [OF ok, of t d] reacquire(2,3) by auto
    then show ?thesis unfolding reacquire(1)
      using reacquire(2) free pos sync_ok_owner [OF ok, of t]
      by (intro sync_ok_at_pc [OF ok]) (auto simp: m)
  next
    case (wake c)
    show ?thesis unfolding wake(1) by (rule sync_ok_waiters [OF ok]) auto
  next
    case (signal c X)
    show ?thesis unfolding signal(1) by (rule sync_ok_waiters [OF ok]) auto
  next
    case (broadcast c)
    show ?thesis unfolding broadcast(1) by (rule sync_ok_waiters [OF ok]) auto
  qed
qed

lemma sync_reachable_ok: "sync_reachable s \<Longrightarrow> sync_ok s"
  by (induction rule: sync_reachable.induct) (auto intro: sync_ok_start sync_ok_step)

section \<open>The owner keeps the others out\<close>

text \<open>A step of any thread but \<open>t\<close>.\<close>

definition others_step :: "tid \<Rightarrow> sync \<Rightarrow> sync \<Rightarrow> bool" where
  "others_step t s s' \<longleftrightarrow> (\<exists>u. u \<noteq> t \<and> sync_step u s s')"

lemma sync_step_pc: "sync_step u s s' \<Longrightarrow> v \<noteq> u \<Longrightarrow> sy_pc s' v = sy_pc s v"
  by (induction rule: sync_step.induct) auto

inductive_cases sync_step_outsideE: "sync_step u s s'"

lemma locked_outside:
  assumes "sync_step u s s'" and "mu_holder (sy_mutex s) \<noteq> None" and "sy_pc s u = Outside"
  shows "sy_pc s' u = Outside"
  using assms by (auto elim!: sync_step_outsideE simp: pthread_mutex_lock_def split: if_splits)

lemma others_kept_out:
  assumes ok: "sync_ok s" and t: "sy_pc s t = Inside" and "(others_step t)\<^sup>*\<^sup>* s s'"
  shows "sync_ok s' \<and> sy_pc s' t = Inside \<and>
    (\<forall>u. u \<noteq> t \<longrightarrow> \<not> has_mutex (sy_pc s' u)) \<and>
    (\<forall>u. u \<noteq> t \<longrightarrow> sy_pc s u = Outside \<longrightarrow> sy_pc s' u = Outside)"
  using assms(3)
proof induction
  case base
  have "mu_holder (sy_mutex s) = Some t" using sync_okD(2) [OF ok, of t] t by simp
  then have "\<not> has_mutex (sy_pc s u)" if "u \<noteq> t" for u using sync_okD(2) [OF ok, of u] that by simp
  then show ?case using ok t by simp
next
  case (step y z)
  obtain v where v: "v \<noteq> t" "sync_step v y z" using step(2) by (auto simp: others_step_def)
  have okz: "sync_ok z" using sync_ok_step [OF v(2)] step.IH by simp
  have tz: "sy_pc z t = Inside" using sync_step_pc [OF v(2)] v(1) step.IH by simp
  have hy: "mu_holder (sy_mutex y) = Some t" and hz: "mu_holder (sy_mutex z) = Some t"
    using sync_okD(2) [of y t] sync_okD(2) [OF okz, of t] tz step.IH by simp_all
  have "\<not> has_mutex (sy_pc z u)" if "u \<noteq> t" for u using sync_okD(2) [OF okz, of u] hz that by simp
  moreover have "sy_pc z u = Outside" if "u \<noteq> t" "sy_pc s u = Outside" for u
    using step.IH that locked_outside [OF v(2)] hy sync_step_pc [OF v(2), of u] by (cases "u = v") auto
  ultimately show ?case using okz tz by simp
qed

section \<open>A sample run\<close>

text \<open>Thread 1 has locked the mutex.\<close>

definition sample_sync :: sync where
  "sample_sync = \<lparr>sy_mutex = \<lparr>mu_holder = Some 1, owner = 1\<rparr>, sy_waiters = (\<lambda>_. {}),
     sy_pc = (\<lambda>_. Outside)(1 := Inside)\<rparr>"

lemma sample_sync_reachable: "sync_reachable sample_sync"
proof -
  let ?m = "\<lparr>mu_holder = Some 1, owner = 0\<rparr>"
  have "sync_step 1 sync_start (at_pc 1 Locked ?m sync_start)"
    by (rule sync_step.acquire) (simp_all add: sync_start_def Mutex_init_def pthread_mutex_lock_def)
  moreover have "sync_step 1 (at_pc 1 Locked ?m sync_start) sample_sync"
    using sync_step.enter [of "at_pc 1 Locked ?m sync_start" 1]
    by (simp add: AfterLock_def sample_sync_def) (simp add: at_pc_def sync_start_def)
  ultimately show ?thesis using sync_reachable.intros by blast
qed

section \<open>Properties\<close>

text \<open>
  C28: The mutex. In every reachable state at most one thread is in its critical section,
  \<open>AssertHeld\<close> passes for exactly that thread, and a thread that has called \<open>Wait\<close> but is not yet
  among the waiters keeps all others out, so that no signal given in a critical section is lost.
\<close>

theorem mutex_exclusion:
  assumes "sync_reachable s"
  shows "(\<forall>t u. sy_pc s t = Inside \<longrightarrow> sy_pc s u = Inside \<longrightarrow> t = u) \<and>
    (\<forall>t. t \<noteq> 0 \<longrightarrow> (AssertHeld t (sy_mutex s) = Inr () \<longleftrightarrow> sy_pc s t = Inside)) \<and>
    (\<forall>t u c. sy_pc s t = WaitCalled c \<longrightarrow> sy_pc s u \<noteq> Inside)"
proof -
  note ok = sync_okD [OF sync_reachable_ok [OF assms]]
  have "sy_pc s u \<noteq> Inside" if "sy_pc s t = WaitCalled c" for t u c
    using ok(2) [of t] ok(2) [of u] that by auto
  then show ?thesis using ok(3) by (auto simp: AssertHeld_def)
qed

theorem mutex_exclusion_witness:
  "AssertHeld 1 (sy_mutex sample_sync) = Inr () \<and> AssertHeld 2 (sy_mutex sample_sync) \<noteq> Inr ()"
  using mutex_exclusion [OF sample_sync_reachable] by (auto simp: sample_sync_def)

end
