(* ===== verification/MutexUse.thy ===== *)
theory MutexUse
  imports Mutex GarbageCollection
begin

text \<open>
  How the server uses its mutex \<open>mu_\<close>: the order in which its handlers lock, unlock and wait,
  which is right in all of them but \<open>GarbageClean\<close>, and the destructor of \<open>AirDBImpl\<close>, which
  waits for the workers of its pools while it has the mutex they need.
\<close>

section \<open>The calls of the handlers\<close>

datatype mutex_call = CallLock | CallUnlock | CallWait | CallAssertHeld

text \<open>
  The calls of one thread, in order: whether it holds the mutex afterwards, or \<open>None\<close> if one of
  them is wrong (a second lock, an unlock, wait or assertion without the lock).
\<close>

fun held_after :: "bool \<Rightarrow> mutex_call list \<Rightarrow> bool option" where
  "held_after h [] = Some h"
| "held_after h (CallLock # cs) = (if h then None else held_after True cs)"
| "held_after h (CallUnlock # cs) = (if h then held_after False cs else None)"
| "held_after h (CallWait # cs) = (if h then held_after True cs else None)"
| "held_after h (CallAssertHeld # cs) = (if h then held_after True cs else None)"

text \<open>\<open>MutexLock\<close>: the constructor locks, the destructor unlocks at the end of the block.\<close>

definition guarded :: "mutex_call list \<Rightarrow> mutex_call list" where
  "guarded cs = CallLock # cs @ [CallUnlock]"

text \<open>\<open>CommitIndex\<close>: in each round so many waits, then so many entries.\<close>

definition CommitIndex_calls :: "(nat \<times> nat) list \<Rightarrow> mutex_call list" where
  "CommitIndex_calls rounds =
     guarded (concat (map (\<lambda>(waits, entries).
       replicate waits CallWait @ [CallUnlock] @
       concat (replicate entries [CallLock, CallUnlock]) @ [CallLock]) rounds))"

text \<open>
  \<open>ReplicateLog\<close>: in each turn so many waits and then, unless a bad slot ends the thread, the call
  and its answer, with \<open>UpdateCommitIndex\<close> or not.
\<close>

definition ReplicateLog_calls :: "(nat \<times> bool \<times> bool) list \<Rightarrow> mutex_call list" where
  "ReplicateLog_calls turns =
     guarded (concat (map (\<lambda>(waits, bad_slot, commits).
       replicate waits CallWait @ [CallUnlock, CallLock] @
       (if bad_slot then [] else CallAssertHeld # (if commits then [CallAssertHeld] else [])))
       turns))"

definition AppendEntriesImpl_calls :: "bool \<Rightarrow> mutex_call list" where
  "AppendEntriesImpl_calls writes = guarded (if writes then [CallUnlock, CallLock] else [])"

text \<open>\<open>GarbageClean\<close>: the leader unlocks by hand, and so does the guard at the end.\<close>

definition GarbageClean_calls :: "db_node_status \<Rightarrow> bool \<Rightarrow> mutex_call list" where
  "GarbageClean_calls st ret_all =
     guarded (if st = kLeader then CallUnlock # (if ret_all then guarded [] else []) else [])"

lemma held_after_append:
  "held_after h (xs @ ys) = (case held_after h xs of None \<Rightarrow> None | Some h' \<Rightarrow> held_after h' ys)"
  by (induction h xs rule: held_after.induct) auto

lemma held_after_waits [simp]: "held_after True (replicate n CallWait) = Some True"
  by (induction n) auto

lemma held_after_concat:
  "(\<And>x. x \<in> set xs \<Longrightarrow> held_after h x = Some h) \<Longrightarrow> held_after h (concat xs) = Some h"
  by (induction xs) (auto simp: held_after_append)

lemma held_after_guarded: "held_after True cs = Some True \<Longrightarrow> held_after False (guarded cs) = Some False"
  by (simp add: guarded_def held_after_append)

lemma handlers_lock_right:
  "held_after False (CommitIndex_calls rounds) = Some False"
  "held_after False (ReplicateLog_calls turns) = Some False"
  "held_after False (AppendEntriesImpl_calls writes) = Some False"
proof -
  have entries: "held_after False (concat (replicate n [CallLock, CallUnlock])) = Some False" for n
    by (rule held_after_concat) auto
  show "held_after False (CommitIndex_calls rounds) = Some False"
    unfolding CommitIndex_calls_def
    by (intro held_after_guarded held_after_concat) (auto simp: held_after_append entries)
  show "held_after False (ReplicateLog_calls turns) = Some False"
    unfolding ReplicateLog_calls_def
    by (intro held_after_guarded held_after_concat) (auto simp: held_after_append)
  show "held_after False (AppendEntriesImpl_calls writes) = Some False"
    by (simp add: AppendEntriesImpl_calls_def guarded_def)
qed

section \<open>The destructor\<close>

text \<open>
  \<open>~AirDBImpl\<close> takes \<open>mu_\<close>, deletes the binlog, sets \<open>stop_\<close>, stops three of its pools, waiting for
  their tasks and joining their workers, and unlocks.
\<close>

datatype pool = loop_vote_pool | heart_beat_pool | follower_work_pool

datatype destroy_call =
    DestroyLock | DeleteBinlogger | SetStop | StopPool pool | DestroyUnlock

definition AirDBImpl_destroy :: "destroy_call list" where
  "AirDBImpl_destroy =
     [DestroyLock, DeleteBinlogger, SetStop, StopPool loop_vote_pool, StopPool heart_beat_pool,
      StopPool follower_work_pool, DestroyUnlock]"

text \<open>
  Thread \<open>t\<close> runs the destructor, the others go on. A worker with a handler to run (one in \<open>todo\<close>)
  is done with it when it has left the handler's critical section, and a pool is stopped when
  none of its workers has one.
\<close>

record life =
  lf_sync :: sync
  lf_todo :: "tid set"
  lf_calls :: "destroy_call list"

inductive life_step :: "tid \<Rightarrow> (pool \<Rightarrow> tid set) \<Rightarrow> life \<Rightarrow> life \<Rightarrow> bool" for t workers where
  others: "u \<noteq> t \<Longrightarrow> sync_step u (lf_sync s) y \<Longrightarrow>
     life_step t workers s (s\<lparr>lf_sync := y,
       lf_todo := (if sy_pc (lf_sync s) u = Unlocking then lf_todo s - {u} else lf_todo s)\<rparr>)"
| locking: "lf_calls s = DestroyLock # cs \<Longrightarrow> sync_step t (lf_sync s) y \<Longrightarrow>
     life_step t workers s (s\<lparr>lf_sync := y, lf_calls := (if sy_pc y t = Inside then cs else lf_calls s)\<rparr>)"
| plain: "lf_calls s = c # cs \<Longrightarrow> c \<in> {DeleteBinlogger, SetStop} \<Longrightarrow>
     life_step t workers s (s\<lparr>lf_calls := cs\<rparr>)"
| stopped: "lf_calls s = StopPool p # cs \<Longrightarrow> workers p \<inter> lf_todo s = {} \<Longrightarrow>
     life_step t workers s (s\<lparr>lf_calls := cs\<rparr>)"
| unlocking: "lf_calls s = DestroyUnlock # cs \<Longrightarrow> sync_step t (lf_sync s) y \<Longrightarrow>
     life_step t workers s (s\<lparr>lf_sync := y, lf_calls := (if sy_pc y t = Outside then cs else lf_calls s)\<rparr>)"

text \<open>The destructor is in its critical section, with pool \<open>p\<close> still to stop.\<close>

definition stopping :: "tid \<Rightarrow> tid \<Rightarrow> pool \<Rightarrow> life \<Rightarrow> bool" where
  "stopping t u p s \<longleftrightarrow>
     sync_ok (lf_sync s) \<and> sy_pc (lf_sync s) t = Inside \<and> sy_pc (lf_sync s) u = Outside \<and>
     u \<in> lf_todo s \<and>
     (\<exists>pre post. lf_calls s = pre @ StopPool p # post \<and> DestroyLock \<notin> set pre \<and> DestroyUnlock \<notin> set pre)"

lemma stopping_step:
  assumes "life_step t workers s s'" and st: "stopping t u p s" and u: "u \<in> workers p" "u \<noteq> t"
  shows "stopping t u p s'"
  using assms(1)
proof cases
  case (others v y)
  have "others_step t (lf_sync s) y" using others(2,3) by (auto simp: others_step_def)
  then have "sync_ok y \<and> sy_pc y t = Inside \<and> (\<forall>w. w \<noteq> t \<longrightarrow> sy_pc (lf_sync s) w = Outside \<longrightarrow> sy_pc y w = Outside)"
    using others_kept_out [of "lf_sync s" t y] st by (auto simp: stopping_def)
  then show ?thesis using st u others by (auto simp: stopping_def)
next
  case (locking cs y)
  then show ?thesis using st by (auto simp: stopping_def Cons_eq_append_conv)
next
  case (plain c cs)
  then show ?thesis using st by (fastforce simp: stopping_def Cons_eq_append_conv)
next
  case (stopped q cs)
  then show ?thesis using st u by (fastforce simp: stopping_def Cons_eq_append_conv)
next
  case (unlocking cs y)
  then show ?thesis using st by (auto simp: stopping_def Cons_eq_append_conv)
qed

lemma stopping_run:
  "(life_step t workers)\<^sup>*\<^sup>* s s' \<Longrightarrow> stopping t u p s \<Longrightarrow> u \<in> workers p \<Longrightarrow> u \<noteq> t \<Longrightarrow> stopping t u p s'"
  by (induction rule: rtranclp_induct) (auto intro: stopping_step)

section \<open>Properties\<close>

text \<open>
  \<open>GarbageClean\<close> unlocks twice. On a leader its calls end with an unlock of a mutex it does not
  hold, on every path (the other handlers' calls are all right); whoever has the mutex then is no
  longer its owner, so its next \<open>AssertHeld\<close> ends the process, and the unlock itself is undefined.
\<close>

lemma gc_unlocks_twice:
  assumes "sync_reachable s" and "sy_pc s t = Outside"
  shows "held_after False (GarbageClean_calls st ret_all) = (if st = kLeader then None else Some False) \<and>
    Mutex_Unlock t (sy_mutex s) = Inl UnlockNotHeld \<and>
    (\<forall>u. u \<noteq> 0 \<longrightarrow> AssertHeld u (BeforeUnlock (sy_mutex s)) = Inl AbortCalled)"
proof -
  have "mu_holder (sy_mutex s) \<noteq> Some t"
    using sync_okD(2) [OF sync_reachable_ok [OF assms(1)], of t] assms(2) by simp
  then show ?thesis
    by (simp add: GarbageClean_calls_def guarded_def Mutex_Unlock_def mutex_defs)
qed

text \<open>
  C39: The destructor can wait for ever. Once \<open>~AirDBImpl\<close> has the mutex, with a worker of one of
  the three pools about to lock it in its handler, no way on ends the destructor: the pool is
  never stopped and the worker never gets in.
\<close>

theorem destructor_deadlock:
  assumes "sync_reachable (lf_sync s)" and "sy_pc (lf_sync s) t = Inside"
    and "lf_calls s = tl AirDBImpl_destroy"
    and "u \<in> workers p" and "u \<noteq> t" and "u \<in> lf_todo s" and "sy_pc (lf_sync s) u = Outside"
    and "(life_step t workers)\<^sup>*\<^sup>* s s'"
  shows "StopPool p \<in> set (lf_calls s') \<and> sy_pc (lf_sync s') u = Outside"
proof -
  have "StopPool p \<in> set [DeleteBinlogger, SetStop, StopPool loop_vote_pool, StopPool heart_beat_pool, StopPool follower_work_pool]"
    by (cases p) auto
  then obtain pre post where "[DeleteBinlogger, SetStop, StopPool loop_vote_pool, StopPool heart_beat_pool, StopPool follower_work_pool] = pre @ StopPool p # post"
    "StopPool p \<notin> set pre" by (metis split_list_first)
  then have "lf_calls s = pre @ StopPool p # (post @ [DestroyUnlock])" "DestroyLock \<notin> set pre" "DestroyUnlock \<notin> set pre"
    using assms(3) by (auto simp: AirDBImpl_destroy_def Cons_eq_append_conv)
  then have "stopping t u p s" using assms(1,2,6,7) sync_reachable_ok by (auto simp: stopping_def)
  from stopping_run [OF assms(8) this assms(4,5)] show ?thesis by (auto simp: stopping_def)
qed

theorem destructor_deadlock_witness:
  "\<exists>s. sy_pc (lf_sync s) 1 = Inside \<and>
     (\<forall>s'. (life_step 1 (\<lambda>_. {2}))\<^sup>*\<^sup>* s s' \<longrightarrow> StopPool heart_beat_pool \<in> set (lf_calls s'))"
proof -
  let ?s = "\<lparr>lf_sync = sample_sync, lf_todo = {2}, lf_calls = tl AirDBImpl_destroy\<rparr>"
  have "sy_pc (lf_sync ?s) 1 = Inside" by (simp add: sample_sync_def)
  moreover have "StopPool heart_beat_pool \<in> set (lf_calls s')" if "(life_step 1 (\<lambda>_. {2}))\<^sup>*\<^sup>* ?s s'" for s'
    using destructor_deadlock [of ?s 1 2 "\<lambda>_. {2}" heart_beat_pool s'] that sample_sync_reachable
    by (simp add: sample_sync_def)
  ultimately show ?thesis by blast
qed

end
