(* ===== verification/WriteRace.thy ===== *)
theory WriteRace
  imports BinlogSpec
begin

text \<open>
  \<open>WriteEntry\<close> of \<open>src/binlog.cc\<close> with its lock commented out: its instructions, between which
  another thread's \<open>WriteEntryList\<close> can run (a follower that was elected while its handler writes
  the entries of the old leader gets its first client's call). Alone it is \<open>WriteEntryList\<close> of one
  entry; interleaved it loses entries.
\<close>

section \<open>The instructions\<close>

text \<open>The two keys are computed from the length, and the entry is encoded.\<close>

definition WriteEntry_prepare :: "'db binlogger \<Rightarrow> binlog_entry \<Rightarrow> (string \<times> string) list res" where
  "WriteEntry_prepare b e =
     bindE (DumpBinLogEntry e) (\<lambda>log_str.
       Inr [(IntToString (bl_length b), log_str), (length_tag, IntToString (bl_length b + 1))])"

definition WriteEntry_batch ::
  "'db leveldb \<Rightarrow> 'db binlogger \<Rightarrow> (string \<times> string) list \<Rightarrow> 'db binlogger res" where
  "WriteEntry_batch L b kvs =
     (let (db', ok) = ldb_write L (bl_db b) kvs
      in if ok then Inr (b\<lparr>bl_db := db'\<rparr>) else Inl AssertFailed)"

definition WriteEntry_count :: "'db binlogger \<Rightarrow> binlog_entry \<Rightarrow> 'db binlogger" where
  "WriteEntry_count b e = b\<lparr>bl_length := bl_length b + 1, bl_last_log_term := be_term e\<rparr>"

lemma WriteEntry_split:
  "WriteEntry L b e =
     bindE (WriteEntry_prepare b e) (\<lambda>kvs. bindE (WriteEntry_batch L b kvs) (\<lambda>b'. Inr (WriteEntry_count b' e)))"
  by (cases "DumpBinLogEntry e")
    (simp_all add: WriteEntry_def WriteEntry_prepare_def WriteEntry_batch_def WriteEntry_count_def
      Let_def split: prod.split)

section \<open>The race\<close>

context leveldb_available
begin

lemma read_slot_content:
  "ReadSlot L b i = (case content (bl_db b) (IntToString i) of
     Some buf \<Rightarrow> bindE (LoadBinLogEntry buf) (\<lambda>e. Inr (Some e)) | None \<Rightarrow> Inr None)"
  by (simp add: ReadSlot_def get_eq split: option.split)

lemma write_list_other:
  assumes "WriteEntryList L b ps = Inr b'" and "bl_length b + int (length ps) \<le> i"
  shows "content (bl_db b') (IntToString i) = content (bl_db b) (IntToString i)"
  using assms(1)
proof (rule WriteEntryList_InrE)
  fix kvs d'
  assume kvs: "entry_batch (bl_length b) ps = Inr kvs"
    and w: "ldb_write L (bl_db b) (kvs @ [(length_tag, IntToString (bl_length b + int (length ps)))]) = (d', True)"
    and b': "b' = b\<lparr>bl_db := d', bl_length := bl_length b + int (length ps),
      bl_last_log_term := (if ps = [] then bl_last_log_term b else pe_term (last ps))\<rparr>"
  have "put_all m kvs (IntToString i) = m (IntToString i)" for m
    using assms(2) by (intro entry_batch_other [OF kvs]) auto
  then show ?thesis using write_ok [OF w] by (simp add: b')
qed

lemma race_outcome:
  assumes rel: "binlog_rel content lo b log" and lo: "lo \<le> int (length log)" and e: "entry_ok e"
    and ps: "ps \<noteq> []" "\<forall>p \<in> set ps. entry_ok (entry_of_pb p)"
  shows "\<exists>kvs b1 b2. WriteEntry_prepare b e = Inr kvs \<and> WriteEntryList L b ps = Inr b1 \<and>
    WriteEntry_batch L b1 kvs = Inr b2 \<and> bl_length b2 = int (length log + length ps) \<and>
    content (bl_db b2) length_tag = Some (IntToString (int (length log) + 1)) \<and>
    ReadSlot L b2 (int (length log)) = Inr (Some e) \<and>
    (\<forall>k. 0 < k \<and> k < length ps \<longrightarrow>
       ReadSlot L b2 (int (length log + k)) = Inr (Some (entry_of_pb (ps ! k)))) \<and>
    ReadSlot L b2 (int (length log + length ps)) = ReadSlot L b (int (length log + length ps))"
proof -
  have len: "bl_length b = int (length log)" by (rule binlog_rel_length [OF rel])
  obtain buf where buf: "DumpBinLogEntry e = Inr buf" "LoadBinLogEntry buf = Inr e"
    using Dump_total [OF e] Load_Dump [OF e] by blast
  let ?kvs = "[(IntToString (bl_length b), buf), (length_tag, IntToString (bl_length b + 1))]"
  obtain b1 where b1: "WriteEntryList L b ps = Inr b1" "binlog_rel content lo b1 (log @ map entry_of_pb ps)"
    using append_holds [OF rel ps(2)] by blast
  define b2 where "b2 = b1\<lparr>bl_db := fst (ldb_write L (bl_db b1) ?kvs)\<rparr>"
  have batch: "WriteEntry_batch L b1 ?kvs = Inr b2"
    using write_avail [of "bl_db b1" ?kvs] by (simp add: WriteEntry_batch_def Let_def case_prod_beta b2_def)
  have c2: "content (bl_db b2) =
      (content (bl_db b1))(IntToString (bl_length b) := Some buf, length_tag := Some (IntToString (bl_length b + 1)))"
    by (simp add: b2_def)
  have other: "ReadSlot L b2 i = ReadSlot L b1 i" if "i \<noteq> bl_length b" for i
    using that by (simp add: read_slot_content c2)
  have "ReadSlot L b2 (int (length log + k)) = Inr (Some (entry_of_pb (ps ! k)))" if "0 < k" "k < length ps" for k
  proof -
    have "lo \<le> int (length log + k)" using lo by simp
    then have "ReadSlot L b1 (int (length log + k)) = Inr (Some ((log @ map entry_of_pb ps) ! (length log + k)))"
      using read_log [OF b1(2)] that by (simp add: nat_add_distrib)
    then show ?thesis using that other len by (simp add: nth_append)
  qed
  moreover have "ReadSlot L b2 (int (length log + length ps)) = ReadSlot L b (int (length log + length ps))"
    using other [of "int (length log + length ps)"] write_list_other [OF b1(1)] ps(1) len
    by (simp add: read_slot_content)
  moreover have "ReadSlot L b2 (int (length log)) = Inr (Some e)"
    using buf(2) by (simp add: read_slot_content c2 len)
  moreover have "bl_length b2 = int (length log + length ps)"
    using binlog_rel_length [OF b1(2)] by (simp add: b2_def)
  ultimately show ?thesis
    using buf(1) b1(1) batch by (intro exI [of _ ?kvs] exI [of _ b1] exI [of _ b2]) (simp add: WriteEntry_prepare_def c2 len)
qed

end

section \<open>Properties\<close>

text \<open>
  C36: Undisturbed, \<open>WriteEntry\<close> is \<open>WriteEntryList\<close> of the one entry, faults included, and so are
  its three instructions one after the other: the missing lock makes no difference to a logger
  only one thread uses.
\<close>

theorem write_entry_equivalent:
  "WriteEntry L b e = WriteEntryList L b [pb_of_entry e] \<and>
   WriteEntry L b e =
     bindE (WriteEntry_prepare b e) (\<lambda>kvs.
     bindE (WriteEntry_batch L b kvs) (\<lambda>b'. Inr (WriteEntry_count b' e)))"
  by (intro conjI WriteEntry_as_list WriteEntry_split)

text \<open>
  C35: Entries lost between two writers. When the entries of a request are written between the
  instructions of \<open>WriteEntry\<close>, the first of them is overwritten, the last slot of the log has
  whatever was there before, and the length in the database is behind the one in memory, so that
  a restart cuts the log after the client's entry.
\<close>

theorem write_entry_race:
  assumes "leveldb_available L content" and "binlog_rel content lo b log"
    and "lo \<le> int (length log)" and "entry_ok e" and "ps \<noteq> []"
    and "\<forall>p \<in> set ps. entry_ok (entry_of_pb p)"
  shows "\<exists>kvs b1 b2 b3. WriteEntry_prepare b e = Inr kvs \<and> WriteEntryList L b ps = Inr b1 \<and>
    WriteEntry_batch L b1 kvs = Inr b2 \<and> b3 = WriteEntry_count b2 e \<and>
    GetLength b3 = int (length log + length ps) + 1 \<and>
    content (bl_db b3) length_tag = Some (IntToString (int (length log) + 1)) \<and>
    ReadSlot L b3 (int (length log)) = Inr (Some e) \<and>
    (\<forall>k. 0 < k \<and> k < length ps \<longrightarrow>
       ReadSlot L b3 (int (length log + k)) = Inr (Some (entry_of_pb (ps ! k)))) \<and>
    ReadSlot L b3 (int (length log + length ps)) = ReadSlot L b (int (length log + length ps))"
proof -
  have count: "bl_db (WriteEntry_count x e) = bl_db x" "GetLength (WriteEntry_count x e) = bl_length x + 1"
    "ReadSlot L (WriteEntry_count x e) i = ReadSlot L x i" for x i
    by (simp_all add: WriteEntry_count_def GetLength_def ReadSlot_def)
  show ?thesis
    using leveldb_available.race_outcome [OF assms] by (auto simp: count)
qed

theorem write_entry_race_witness:
  "\<exists>kvs b1 b2. WriteEntry_prepare (mem_binlog []) sample_entry = Inr kvs \<and>
     WriteEntryList mem_leveldb (mem_binlog []) [pb_of_entry sample_entry] = Inr b1 \<and>
     WriteEntry_batch mem_leveldb b1 kvs = Inr b2 \<and>
     GetLength (WriteEntry_count b2 sample_entry) = 2 \<and>
     map_of (bl_db (WriteEntry_count b2 sample_entry)) length_tag = Some (IntToString 1)"
  using write_entry_race [OF mem.leveldb_available_axioms mem_binlog_rel [of "[]"], of sample_entry "[pb_of_entry sample_entry]"]
  by auto

end
