(* ===== verification/Startup.thy ===== *)
theory Startup
  imports StableLeader "HOL-Library.Signed_Division"
begin

text \<open>
  How a server comes up: the flags of \<open>flags/flags.cc\<close>, the random election timeout
  (\<open>GetRandTimeOut\<close>, with its \<open>float\<close> arithmetic), and the constructors that open the two
  databases, up to the complete constructor of \<open>AirDBImpl\<close>. Making a directory and opening a
  database are calls into the system and into LevelDB: they are parameters that act on the state
  of the world, and so are the options LevelDB starts from.
\<close>

section \<open>Flags\<close>

record flags =
  FLAGS_cluster_members :: string
  FLAGS_server_id :: int
  FLAGS_max_cluster_size :: int
  FLAGS_vote_timeout_max :: int
  FLAGS_vote_timeout_min :: int
  FLAGS_heartbeat_delay :: int
  FLAGS_binlog_compress :: bool
  FLAGS_db_data_compress :: bool
  FLAGS_db_data_block_size :: int
  FLAGS_db_data_write_buffer_size :: int
  FLAGS_db_gc_interval :: int
  FLAGS_binlog_dir :: string
  FLAGS_db_data_dir :: string
  FLAGS_airdb_cmd :: string
  FLAGS_airdb_key :: string
  FLAGS_airdb_value :: string
  FLAGS_airdb_target_addr :: string

definition default_flags :: flags where
  "default_flags = \<lparr>FLAGS_cluster_members = '''', FLAGS_server_id = 1, FLAGS_max_cluster_size = 10,
     FLAGS_vote_timeout_max = 100, FLAGS_vote_timeout_min = 200, FLAGS_heartbeat_delay = 50,
     FLAGS_binlog_compress = True, FLAGS_db_data_compress = True, FLAGS_db_data_block_size = 4,
     FLAGS_db_data_write_buffer_size = 4, FLAGS_db_gc_interval = 600,
     FLAGS_binlog_dir = ''binlog'', FLAGS_db_data_dir = ''data'', FLAGS_airdb_cmd = ''show'',
     FLAGS_airdb_key = ''key'', FLAGS_airdb_value = ''value'', FLAGS_airdb_target_addr = ''addr''\<rparr>"

section \<open>The election timeout\<close>

text \<open>
  An integer as a \<open>float\<close>: rounded to 24 significant bits, to nearest, ties to even.
\<close>

fun bit_len :: "nat \<Rightarrow> nat" where
  "bit_len n = (if n = 0 then 0 else Suc (bit_len (n div 2)))"

declare bit_len.simps [simp del]

definition round_bits :: "nat \<Rightarrow> nat \<Rightarrow> nat" where
  "round_bits k x =
     (let q = x div 2 ^ k; r = x mod 2 ^ k; half = 2 ^ (k - 1)
      in (if half < r \<or> half = r \<and> odd q then q + 1 else q) * 2 ^ k)"

definition float_of :: "int \<Rightarrow> int" where
  "float_of x =
     (let a = nat \<bar>x\<bar>; k = bit_len a - 24
      in sgn x * int (if k = 0 then a else round_bits k a))"

text \<open>
  \<open>rand()\<close> gives \<open>r\<close>, at most \<open>RAND_MAX\<close>, which is \<open>2 ^ 31 - 1\<close> in the GNU library; the division by
  \<open>RAND_MAX + 1.0\<close> is exact in a \<open>double\<close>, and the conversion to \<open>int32_t\<close> cuts towards zero.
\<close>

definition RAND_MAX :: int where
  "RAND_MAX = 2147483647"

definition GetRandTimeOut :: "flags \<Rightarrow> int \<Rightarrow> int" where
  "GetRandTimeOut fl r =
     (let range = float_of (i32 (FLAGS_vote_timeout_max fl - FLAGS_vote_timeout_min fl))
      in i32 (FLAGS_vote_timeout_min fl + float_of (range * float_of r) sdiv (RAND_MAX + 1)))"

section \<open>Opening the databases\<close>

text \<open>\<open>size_t\<close> options; an \<open>int32_t\<close> below zero becomes a huge number.\<close>

definition size_t :: "int \<Rightarrow> int" where
  "size_t x = x mod 18446744073709551616"

record db_options =
  create_if_missing :: bool
  snappy_compression :: bool
  write_buffer_size :: int
  block_size :: int

record ('db, 'w) system =
  sys_mkdir :: "string \<Rightarrow> 'w \<Rightarrow> 'w \<times> int"
  sys_open :: "db_options \<Rightarrow> string \<Rightarrow> 'w \<Rightarrow> 'w \<times> 'db option"
  sys_options :: db_options

text \<open>\<open>Mkdirs\<close> does not look at what \<open>mkdir\<close> returns (the code that did is commented out).\<close>

definition Mkdirs :: "('db, 'w) system \<Rightarrow> string \<Rightarrow> 'w \<Rightarrow> 'w \<times> int" where
  "Mkdirs S dir w = (fst (sys_mkdir S dir w), 0)"

definition log_dbname :: string where
  "log_dbname = ''#binlog''"

definition binlog_options :: "('db, 'w) system \<Rightarrow> bool \<Rightarrow> int \<Rightarrow> int \<Rightarrow> db_options" where
  "binlog_options S compress blk buf =
     (let o1 = (sys_options S)\<lparr>create_if_missing := True\<rparr>;
          o2 = (if compress then o1\<lparr>snappy_compression := True\<rparr> else o1)
      in o2\<lparr>write_buffer_size := size_t buf, block_size := size_t blk\<rparr>)"

definition BinLogger_new ::
  "('db, 'w) system \<Rightarrow> 'db leveldb \<Rightarrow> string \<Rightarrow> bool \<Rightarrow> int \<Rightarrow> int \<Rightarrow> 'w \<Rightarrow> 'w \<times> 'db binlogger res"
where
  "BinLogger_new S L data_dir compress blk buf w =
     (let (w1, ret) = Mkdirs S data_dir w in
      if ret \<noteq> 0 then (w1, Inl AbortCalled)
      else
        let full_name = data_dir @ ''/'' @ log_dbname;
            (w2, db) = sys_open S (binlog_options S compress blk buf) full_name w1
        in case db of None \<Rightarrow> (w2, Inl AssertFailed) | Some d \<Rightarrow> (w2, BinLogger_open L d))"

definition data_options :: "('db, 'w) system \<Rightarrow> flags \<Rightarrow> db_options" where
  "data_options S fl =
     (let o1 = (sys_options S)\<lparr>create_if_missing := True\<rparr>;
          o2 = (if FLAGS_db_data_compress fl then o1\<lparr>snappy_compression := True\<rparr> else o1)
      in o2\<lparr>write_buffer_size := size_t (i32 (FLAGS_db_data_write_buffer_size fl * 1024 * 1024)),
            block_size := size_t (i32 (FLAGS_db_data_block_size fl * 1024))\<rparr>)"

definition StorageKV_new ::
  "('db, 'w) system \<Rightarrow> flags \<Rightarrow> string \<Rightarrow> 'w \<Rightarrow> 'w \<times> 'db res"
where
  "StorageKV_new S fl data_dir w =
     (let (w1, ret) = sys_mkdir S data_dir w;
          full_name = data_dir;
          (w2, db) = sys_open S (data_options S fl) full_name w1
      in case db of None \<Rightarrow> (w2, Inl AssertFailed) | Some d \<Rightarrow> (w2, Inr d))"

text \<open>
  The constructor of the server: the binlog with the default sizes of its constructor, then the
  data store, then the rest (\<open>AirDBImpl_init\<close>) with the first election timeout.
\<close>

definition AirDBImpl_new ::
  "('db, 'w) system \<Rightarrow> 'db leveldb \<Rightarrow> flags \<Rightarrow> string \<Rightarrow> string list \<Rightarrow> int \<Rightarrow> 'w
     \<Rightarrow> 'w \<times> ('db node \<times> effect list) res"
where
  "AirDBImpl_new S L fl server_id members r w =
     (let (w1, binlog) = BinLogger_new S L (FLAGS_binlog_dir fl @ ''/'' @ server_id)
            (FLAGS_binlog_compress fl) 32748 33554432 w
      in case binlog of
           Inl f \<Rightarrow> (w1, Inl f)
         | Inr b \<Rightarrow>
             let (w2, store) = StorageKV_new S fl (FLAGS_db_data_dir fl @ ''/'' @ server_id) w1
             in case store of
                  Inl f \<Rightarrow> (w2, Inl f)
                | Inr ds \<Rightarrow> (w2, AirDBImpl_init L server_id members b ds (GetRandTimeOut fl r)))"

section \<open>Rounding\<close>

lemma bit_len_0 [simp]: "bit_len 0 = 0"
  by (simp add: bit_len.simps)

lemma bit_len_numeral [simp]:
  "bit_len (Suc 0) = Suc 0" "bit_len (numeral k) = Suc (bit_len (numeral k div 2))"
  by (subst bit_len.simps, simp)+

lemma bit_len_bounds: "0 < n \<Longrightarrow> 2 ^ (bit_len n - 1) \<le> n \<and> n < 2 ^ bit_len n \<and> 0 < bit_len n"
proof (induction n rule: bit_len.induct)
  case (1 n)
  show ?case
  proof (cases "n div 2 = 0")
    case True
    then have "n = 1" using 1(2) by auto
    then show ?thesis by (simp add: bit_len.simps)
  next
    case False
    then have "2 ^ (bit_len (n div 2) - 1) \<le> n div 2 \<and> n div 2 < 2 ^ bit_len (n div 2) \<and> 0 < bit_len (n div 2)"
      using 1 by simp
    then obtain m where m: "bit_len (n div 2) = Suc m" "2 ^ m \<le> n div 2" "n div 2 < 2 ^ Suc m"
      by (cases "bit_len (n div 2)") auto
    then have "bit_len n = Suc (Suc m)" using 1(2) by (subst bit_len.simps) simp
    then show ?thesis using m(2,3) by (simp add: less_mult_imp_div_less) linarith
  qed
qed

text \<open>Rounding does not pass a number that a \<open>float\<close> can hold.\<close>

lemma round_bits_le:
  assumes "x \<le> m * 2 ^ k"
  shows "round_bits k x \<le> m * 2 ^ k"
proof (cases "x mod 2 ^ k = 0")
  case True
  then have "\<not> (2 ^ (k - 1) < x mod 2 ^ k \<or> 2 ^ (k - 1) = x mod 2 ^ k \<and> odd (x div 2 ^ k))"
    by simp
  then have "round_bits k x = x" using True by (auto simp: round_bits_def Let_def)
  then show ?thesis using assms by simp
next
  case False
  have "x div 2 ^ k < m"
  proof (rule ccontr)
    assume "\<not> x div 2 ^ k < m"
    then have "m * 2 ^ k \<le> x div 2 ^ k * 2 ^ k" by simp
    also have "\<dots> < x div 2 ^ k * 2 ^ k + x mod 2 ^ k" using False by simp
    also have "\<dots> = x" by (rule div_mult_mod_eq)
    finally show False using assms by simp
  qed
  then have "(x div 2 ^ k + 1) * 2 ^ k \<le> m * 2 ^ k" by (intro mult_right_mono) auto
  moreover have "round_bits k x \<le> (x div 2 ^ k + 1) * 2 ^ k" by (simp add: round_bits_def Let_def)
  ultimately show ?thesis by simp
qed

lemma float_of_le:
  assumes x: "\<bar>x\<bar> \<le> int m * 2 ^ e" and m: "m < 2 ^ 24"
  shows "\<bar>float_of x\<bar> \<le> int m * 2 ^ e"
proof -
  let ?a = "nat \<bar>x\<bar>" and ?k = "bit_len (nat \<bar>x\<bar>) - 24"
  have a: "?a \<le> m * 2 ^ e" using x by (simp add: nat_le_iff)
  have "(if ?k = 0 then ?a else round_bits ?k ?a) \<le> m * 2 ^ e"
  proof (cases "?k = 0")
    case False
    then have pos: "0 < ?a" by (cases "?a = 0") auto
    have "2 ^ (?k + 23) \<le> ?a" using bit_len_bounds [OF pos] False by simp
    also note a
    also have "m * 2 ^ e < 2 ^ (24 + e)" using m by (simp add: power_add)
    finally have "?k + 23 < 24 + e" by (rule power_less_imp_less_exp [rotated]) simp
    then have "?k \<le> e" by simp
    then have e: "m * 2 ^ e = m * 2 ^ (e - ?k) * 2 ^ ?k" by (simp add: power_add [symmetric])
    show ?thesis using round_bits_le [of ?a "m * 2 ^ (e - ?k)" ?k] a False by (simp add: e)
  qed (use a in simp)
  then have "int (if ?k = 0 then ?a else round_bits ?k ?a) \<le> int m * 2 ^ e"
    by (metis of_nat_le_iff of_nat_mult of_nat_numeral of_nat_power)
  moreover have "\<bar>float_of x\<bar> \<le> int (if ?k = 0 then ?a else round_bits ?k ?a)"
    by (simp add: float_of_def Let_def abs_mult sgn_if)
  ultimately show ?thesis by simp
qed

section \<open>The timeout is between its two flags\<close>

lemma float_of_uminus: "float_of (- x) = - float_of x"
  by (simp add: float_of_def Let_def sgn_minus)

lemma float_of_nonneg: "0 \<le> x \<Longrightarrow> 0 \<le> float_of x"
  by (cases "x = 0") (simp_all add: float_of_def Let_def)

lemma float_of_small:
  assumes "\<bar>x\<bar> < 2 ^ 24"
  shows "float_of x = x"
proof -
  have "bit_len (nat \<bar>x\<bar>) \<le> 24"
  proof (rule ccontr)
    assume long: "\<not> bit_len (nat \<bar>x\<bar>) \<le> 24"
    then have "0 < nat \<bar>x\<bar>" by (cases "nat \<bar>x\<bar> = 0") auto
    then have "2 ^ (bit_len (nat \<bar>x\<bar>) - 1) \<le> nat \<bar>x\<bar>" using bit_len_bounds by blast
    moreover have "(2::nat) ^ 24 \<le> 2 ^ (bit_len (nat \<bar>x\<bar>) - 1)" using long by (intro power_increasing) auto
    ultimately have "2 ^ 24 \<le> nat \<bar>x\<bar>" by linarith
    then show False using assms by simp
  qed
  then show ?thesis by (simp add: float_of_def Let_def mult_sgn_abs)
qed

definition timeout_offset :: "int \<Rightarrow> int \<Rightarrow> int" where
  "timeout_offset d r = float_of (float_of d * float_of r) sdiv (RAND_MAX + 1)"

lemma timeout_offset_uminus: "timeout_offset (- d) r = - timeout_offset d r"
  by (simp add: timeout_offset_def float_of_uminus signed_divide_int_def)

text \<open>A rounded number has 24 significant bits.\<close>

lemma float_of_digits:
  assumes "0 \<le> x"
  obtains m e where "float_of x = int m * 2 ^ e" and "m < 2 ^ 24"
proof -
  let ?a = "nat x" and ?k = "bit_len (nat x) - 24"
  have f: "float_of x = int (if ?k = 0 then ?a else round_bits ?k ?a)"
    using assms by (cases "x = 0") (simp_all add: float_of_def Let_def)
  have len: "?a < 2 ^ bit_len ?a" using bit_len_bounds [of ?a] by (cases "?a = 0") auto
  show thesis
  proof (cases "?k = 0")
    case True
    then have "(2::nat) ^ bit_len ?a \<le> 2 ^ 24" by (intro power_increasing) auto
    then show thesis using that [of ?a 0] f True len by simp
  next
    case False
    let ?q = "?a div 2 ^ ?k"
    have "bit_len ?a = 24 + ?k" using False by simp
    then have q: "?q < 2 ^ 24" using len by (metis less_mult_imp_div_less power_add)
    obtain q' where q': "round_bits ?k ?a = q' * 2 ^ ?k" "q' = ?q \<or> q' = ?q + 1"
      by (simp add: round_bits_def Let_def)
    show thesis
    proof (cases "q' < 2 ^ 24")
      case True
      then show thesis using that [of q' ?k] f False q'(1) by simp
    next
      case False
      then have "q' = 2 ^ 23 * 2" using q' q by simp
      then show thesis
        using that [of "2 ^ 23" "Suc ?k"] f q'(1) \<open>?k \<noteq> 0\<close> by (simp add: mult.assoc)
    qed
  qed
qed

lemma timeout_offset_nonneg:
  assumes r: "0 \<le> r" "r \<le> RAND_MAX" and d: "0 \<le> d"
  shows "0 \<le> timeout_offset d r" and "timeout_offset d r \<le> float_of d"
proof -
  let ?y = "float_of (float_of d * float_of r)"
  obtain m e where m: "float_of d = int m * 2 ^ e" "m < 2 ^ 24" by (rule float_of_digits [OF d])
  have fd: "0 \<le> float_of d" using d by (rule float_of_nonneg)
  have fr: "0 \<le> float_of r" using r(1) by (rule float_of_nonneg)
  have "\<bar>float_of r\<bar> \<le> int 1 * 2 ^ 31" using r by (intro float_of_le) (simp_all add: RAND_MAX_def)
  then have "float_of d * float_of r \<le> float_of d * 2 ^ 31" using fd fr by (intro mult_left_mono) auto
  then have "\<bar>float_of d * float_of r\<bar> \<le> int m * 2 ^ (e + 31)"
    using fd fr by (simp add: m(1) power_add mult.assoc)
  then have "\<bar>?y\<bar> \<le> int m * 2 ^ (e + 31)" using m(2) by (rule float_of_le)
  then have "\<bar>?y\<bar> \<le> float_of d * 2 ^ 31" by (simp add: m(1) power_add mult.assoc)
  moreover have y: "0 \<le> ?y" using fd fr by (intro float_of_nonneg) simp
  moreover have "timeout_offset d r = ?y div 2147483648"
    using y by (cases "?y = 0") (auto simp: timeout_offset_def RAND_MAX_def signed_divide_int_def)
  ultimately show "0 \<le> timeout_offset d r" "timeout_offset d r \<le> float_of d"
    using fd by (simp_all add: pos_imp_zdiv_nonneg_iff)
qed

lemma timeout_between:
  assumes "0 \<le> r" and "r \<le> RAND_MAX"
  shows "min lo (lo + float_of d) \<le> lo + timeout_offset d r" and "lo + timeout_offset d r \<le> max lo (lo + float_of d)"
proof -
  have "min lo (lo + float_of d) \<le> lo + timeout_offset d r \<and> lo + timeout_offset d r \<le> max lo (lo + float_of d)"
  proof (cases "0 \<le> d")
    case True
    then show ?thesis using timeout_offset_nonneg [OF assms True] by simp
  next
    case False
    then show ?thesis
      using timeout_offset_nonneg [OF assms, of "- d"] timeout_offset_uminus [of d r] float_of_uminus [of d] by simp
  qed
  then show "min lo (lo + float_of d) \<le> lo + timeout_offset d r" "lo + timeout_offset d r \<le> max lo (lo + float_of d)"
    by simp_all
qed

lemma GetRandTimeOut_between:
  assumes r: "0 \<le> r" "r \<le> RAND_MAX" and d: "FLAGS_vote_timeout_max fl - FLAGS_vote_timeout_min fl = d"
    and i: "in_i32 (FLAGS_vote_timeout_min fl)" "in_i32 d" "in_i32 (FLAGS_vote_timeout_min fl + float_of d)"
  shows "min (FLAGS_vote_timeout_min fl) (FLAGS_vote_timeout_min fl + float_of d) \<le> GetRandTimeOut fl r"
    and "GetRandTimeOut fl r \<le> max (FLAGS_vote_timeout_min fl) (FLAGS_vote_timeout_min fl + float_of d)"
proof -
  let ?lo = "FLAGS_vote_timeout_min fl"
  note b = timeout_between [OF r, of ?lo d]
  have "in_i32 (?lo + timeout_offset d r)" using b i(1,3) by (auto simp: in_i32_def)
  then have "GetRandTimeOut fl r = ?lo + timeout_offset d r"
    using i(2) by (simp add: GetRandTimeOut_def timeout_offset_def i32_id d Let_def)
  then show "min ?lo (?lo + float_of d) \<le> GetRandTimeOut fl r" "GetRandTimeOut fl r \<le> max ?lo (?lo + float_of d)"
    using b by simp_all
qed

lemma GetRandTimeOut_bounds:
  assumes r: "0 \<le> r" "r \<le> RAND_MAX" and d: "\<bar>FLAGS_vote_timeout_max fl - FLAGS_vote_timeout_min fl\<bar> < 2 ^ 24"
    and i: "in_i32 (FLAGS_vote_timeout_max fl)" "in_i32 (FLAGS_vote_timeout_min fl)"
  shows "min (FLAGS_vote_timeout_min fl) (FLAGS_vote_timeout_max fl) \<le> GetRandTimeOut fl r"
    and "GetRandTimeOut fl r \<le> max (FLAGS_vote_timeout_min fl) (FLAGS_vote_timeout_max fl)"
proof -
  let ?d = "FLAGS_vote_timeout_max fl - FLAGS_vote_timeout_min fl"
  have "in_i32 ?d" using d by (auto simp: in_i32_def abs_if split: if_splits)
  then show "min (FLAGS_vote_timeout_min fl) (FLAGS_vote_timeout_max fl) \<le> GetRandTimeOut fl r"
    and "GetRandTimeOut fl r \<le> max (FLAGS_vote_timeout_min fl) (FLAGS_vote_timeout_max fl)"
    using GetRandTimeOut_between [OF r refl i(2)] i(1) float_of_small [OF d] by simp_all
qed

section \<open>Coming up\<close>

lemma BinLogger_open_empty:
  assumes "leveldb_available L content" and "content d = (\<lambda>_. None)"
  shows "BinLogger_open L d = Inr \<lparr>bl_db = d, bl_length = 0, bl_last_log_term = -1\<rparr>"
  using leveldb_available.get_eq [OF assms(1), of d length_tag] assms(2)
  by (simp add: BinLogger_open_def Let_def)

text \<open>On an empty data store the constructor finds no saved position.\<close>

lemma init_empty:
  assumes "leveldb_available L content" and "content ds = (\<lambda>_. None)"
  obtains n where "AirDBImpl_init L a M b ds d = Inr (n, [AddCommitIndex, AddGarbageClean, DelayVoteLeader d])"
    and "binlogger n = b" and "data_store n = ds"
  using leveldb_available.get_eq [OF assms(1), of ds tag_last_applied_index] assms(2)
  by (simp add: AirDBImpl_init_def StorageKV_Get_def LoopVoteLeader_def Let_def)

lemma fresh_binlog: "content d = (\<lambda>_. None) \<Longrightarrow> binlog_rel content 0 \<lparr>bl_db = d, bl_length = 0, bl_last_log_term = -1\<rparr> []"
  by (simp add: binlog_rel_def length_saved_def)

text \<open>A constructor fails exactly when its database is not opened.\<close>

lemma BinLogger_new_runs:
  assumes "leveldb_available L content"
    and "sys_mkdir S dir w = (w1, x)"
    and "sys_open S (binlog_options S compress blk buf) (dir @ ''/'' @ log_dbname) w1 = (w2, db)"
    and "\<And>d. db = Some d \<Longrightarrow> content d = (\<lambda>_. None)"
  shows "BinLogger_new S L dir compress blk buf w =
    (w2, case db of None \<Rightarrow> Inl AssertFailed
         | Some d \<Rightarrow> Inr \<lparr>bl_db = d, bl_length = 0, bl_last_log_term = -1\<rparr>)"
  using assms(2,3) BinLogger_open_empty [OF assms(1) assms(4)]
  by (simp add: BinLogger_new_def Mkdirs_def Let_def split: option.split)

lemma StorageKV_new_runs:
  assumes "sys_mkdir S dir w = (w1, x)" and "sys_open S (data_options S fl) dir w1 = (w2, db)"
  shows "StorageKV_new S fl dir w = (w2, case db of None \<Rightarrow> Inl AssertFailed | Some d \<Rightarrow> Inr d)"
  using assms by (simp add: StorageKV_new_def split: option.split)

text \<open>What the sample system opens is an empty database, unless the name is in the list.\<close>

definition sample_system :: "string list \<Rightarrow> (mem_db, unit) system" where
  "sample_system missing = \<lparr>sys_mkdir = (\<lambda>dir w. (w, 0)),
     sys_open = (\<lambda>options name w. (w, if name \<in> set missing then None else Some [])),
     sys_options = \<lparr>create_if_missing = False, snappy_compression = True, write_buffer_size = 4194304, block_size = 4096\<rparr>\<rparr>"

section \<open>Properties\<close>

text \<open>
  C38: The election timeout lies between the flag called the minimum and that flag plus the
  difference of the two flags rounded to a \<open>float\<close>, whichever is larger (by default the difference
  is negative), both ends included: the other roundings of the computation never take it out.
  A difference below \<open>2 ^ 24\<close> is exact, and then the timeout lies between the two flags. The
  difference, rounded or not, and its sum with the minimum are to fit an \<open>int32_t\<close>.
\<close>

theorem rand_timeout_bounds:
  assumes "0 \<le> r" and "r \<le> RAND_MAX" and "d = FLAGS_vote_timeout_max fl - FLAGS_vote_timeout_min fl"
    and "in_i32 (FLAGS_vote_timeout_min fl)" and "in_i32 d" and "in_i32 (float_of d)"
    and "in_i32 (FLAGS_vote_timeout_min fl + float_of d)"
  shows "min (FLAGS_vote_timeout_min fl) (FLAGS_vote_timeout_min fl + float_of d) \<le> GetRandTimeOut fl r \<and>
    GetRandTimeOut fl r \<le> max (FLAGS_vote_timeout_min fl) (FLAGS_vote_timeout_min fl + float_of d) \<and>
    (\<bar>d\<bar> < 2 ^ 24 \<longrightarrow> FLAGS_vote_timeout_min fl + float_of d = FLAGS_vote_timeout_max fl)"
  using GetRandTimeOut_between [OF assms(1,2) assms(3) [symmetric] assms(4,5,7)] float_of_small [of d] assms(3)
  by simp

theorem rand_timeout_bounds_witness:
  "100 \<le> GetRandTimeOut default_flags RAND_MAX \<and> GetRandTimeOut default_flags RAND_MAX \<le> 200 \<and>
   GetRandTimeOut default_flags RAND_MAX = 100"
proof -
  have "float_of 2147483647 = 2147483648" "float_of 214748364800 = 214748364800"
    by (simp_all add: float_of_def round_bits_def Let_def)
  then have "timeout_offset (- 100) RAND_MAX = - 100"
    using float_of_uminus [of 214748364800] float_of_small [of "- 100"]
    by (simp add: timeout_offset_def RAND_MAX_def signed_divide_int_def)
  then have "GetRandTimeOut default_flags RAND_MAX = 100"
    by (simp add: GetRandTimeOut_def timeout_offset_def default_flags_def i32_id in_i32_def float_of_small Let_def)
  then show ?thesis
    using rand_timeout_bounds [of RAND_MAX "- 100" default_flags] float_of_small [of "- 100"]
    by (simp add: RAND_MAX_def default_flags_def in_i32_def)
qed

text \<open>
  C30: The first start. The constructor makes the directory of the log, opens its database, makes
  the directory of the data and opens that database, each in the world the call before left, and
  whatever the two calls of \<open>mkdir\<close> return (a missing parent directory is not made). When the
  databases it opens are empty, it fails, with an assertion, exactly when one of them could not be
  opened (the second is not tried when the first fails); otherwise it gives a server in its
  initial state on these databases, with its commit and cleaner threads started and the election
  timer armed within the two flags (which are less than \<open>2 ^ 24\<close> apart).
\<close>

theorem first_start:
  assumes "leveldb_available L content" and "0 \<le> r" and "r \<le> RAND_MAX"
    and "sys_mkdir S (FLAGS_binlog_dir fl @ ''/'' @ a) w = (w1, x1)"
    and "sys_open S (binlog_options S (FLAGS_binlog_compress fl) 32748 33554432)
      (FLAGS_binlog_dir fl @ ''/'' @ a @ ''/'' @ log_dbname) w1 = (w2, log_db)"
    and "sys_mkdir S (FLAGS_db_data_dir fl @ ''/'' @ a) w2 = (w3, x2)"
    and "sys_open S (data_options S fl) (FLAGS_db_data_dir fl @ ''/'' @ a) w3 = (w4, data_db)"
    and "\<And>d. log_db = Some d \<or> data_db = Some d \<Longrightarrow> content d = (\<lambda>_. None)"
    and "in_i32 (FLAGS_vote_timeout_max fl)" and "in_i32 (FLAGS_vote_timeout_min fl)"
    and "\<bar>FLAGS_vote_timeout_max fl - FLAGS_vote_timeout_min fl\<bar> < 2 ^ 24"
  shows "fst (AirDBImpl_new S L fl a M r w) = (if log_db = None then w2 else w4) \<and>
    (case snd (AirDBImpl_new S L fl a M r w) of
      Inr (n, es) \<Rightarrow> log_db = Some (bl_db (binlogger n)) \<and> data_db = Some (data_store n) \<and>
        fresh_node L content M a n \<and>
        (\<exists>d. es = [AddCommitIndex, AddGarbageClean, DelayVoteLeader d] \<and>
           min (FLAGS_vote_timeout_min fl) (FLAGS_vote_timeout_max fl) \<le> d \<and>
           d \<le> max (FLAGS_vote_timeout_min fl) (FLAGS_vote_timeout_max fl))
    | Inl f \<Rightarrow> f = AssertFailed \<and> (log_db = None \<or> data_db = None))"
proof -
  note bounds = GetRandTimeOut_bounds [OF assms(2,3,11,9,10)]
  have b: "BinLogger_new S L (FLAGS_binlog_dir fl @ ''/'' @ a) (FLAGS_binlog_compress fl) 32748 33554432 w =
    (w2, case log_db of None \<Rightarrow> Inl AssertFailed
         | Some d \<Rightarrow> Inr \<lparr>bl_db = d, bl_length = 0, bl_last_log_term = -1\<rparr>)"
    by (rule BinLogger_new_runs [OF assms(1,4)]) (use assms(5,8) in simp_all)
  have run: "AirDBImpl_new S L fl a M r w =
    (case log_db of None \<Rightarrow> (w2, Inl AssertFailed)
     | Some d \<Rightarrow> (w4, case data_db of None \<Rightarrow> Inl AssertFailed
         | Some e \<Rightarrow> AirDBImpl_init L a M \<lparr>bl_db = d, bl_length = 0, bl_last_log_term = -1\<rparr> e (GetRandTimeOut fl r)))"
    by (simp only: AirDBImpl_new_def b Let_def prod.case StorageKV_new_runs [OF assms(6,7)])
      (simp split: option.split)
  show ?thesis
  proof (cases "\<exists>d e. log_db = Some d \<and> data_db = Some e")
    case True
    then obtain d e where de: "log_db = Some d" "data_db = Some e" by blast
    let ?b = "\<lparr>bl_db = d, bl_length = 0, bl_last_log_term = -1\<rparr>"
    have e: "content e = (\<lambda>_. None)" using assms(8) de(2) by simp
    have "content d = (\<lambda>_. None)" using assms(8) de(1) by simp
    then have d: "binlog_rel content 0 ?b []" by (rule fresh_binlog)
    obtain n where n: "AirDBImpl_init L a M ?b e (GetRandTimeOut fl r) =
        Inr (n, [AddCommitIndex, AddGarbageClean, DelayVoteLeader (GetRandTimeOut fl r)])"
      "binlogger n = ?b" "data_store n = e"
      by (rule init_empty [OF assms(1) e])
    have "fresh_node L content M a n" unfolding fresh_node_def using n(1) d e by blast
    then show ?thesis using n de bounds by (simp add: run)
  next
    case False
    then show ?thesis by (cases log_db; cases data_db) (auto simp: run)
  qed
qed

theorem first_start_witness:
  "(case snd (AirDBImpl_new (sample_system []) mem_leveldb default_flags ''a'' [''a'', ''b''] 5 ()) of
      Inr (n, es) \<Rightarrow> fresh_node mem_leveldb map_of [''a'', ''b''] ''a'' n | Inl f \<Rightarrow> False) \<and>
   snd (AirDBImpl_new (sample_system [''data/a'']) mem_leveldb default_flags ''a'' [''a'', ''b''] 5 ()) =
     Inl AssertFailed"
proof -
  let ?S = sample_system and ?dir = "FLAGS_binlog_dir default_flags @ ''/'' @ ''a''"
    and ?data = "FLAGS_db_data_dir default_flags @ ''/'' @ ''a''"
  let ?new = "\<lambda>missing. AirDBImpl_new (?S missing) mem_leveldb default_flags ''a'' [''a'', ''b''] 5 ()"
  have mk: "sys_mkdir (?S missing) dir () = ((), 0)" for missing dir by (simp add: sample_system_def)
  have open1: "sys_open (?S missing) o1 (FLAGS_binlog_dir default_flags @ ''/'' @ ''a'' @ ''/'' @ log_dbname) () =
      ((), Some [])" if "missing = [] \<or> missing = [''data/a'']" for missing o1
    using that by (auto simp: sample_system_def default_flags_def log_dbname_def)
  have open2: "sys_open (?S []) o2 ?data () = ((), Some [])" "sys_open (?S [''data/a'']) o2 ?data () = ((), None)" for o2
    by (simp_all add: sample_system_def default_flags_def)
  have fl: "in_i32 (FLAGS_vote_timeout_max default_flags)" "in_i32 (FLAGS_vote_timeout_min default_flags)"
    "\<bar>FLAGS_vote_timeout_max default_flags - FLAGS_vote_timeout_min default_flags\<bar> < 2 ^ 24"
    by (simp_all add: default_flags_def in_i32_def)
  have r: "0 \<le> (5::int)" "5 \<le> RAND_MAX" by (simp_all add: RAND_MAX_def)
  note start = first_start [where a = "''a''" and M = "[''a'', ''b'']", OF mem.leveldb_available_axioms r mk open1 mk]
  have "case snd (?new []) of Inr (n, es) \<Rightarrow> fresh_node mem_leveldb map_of [''a'', ''b''] ''a'' n | Inl f \<Rightarrow> False"
    using start [OF _ open2(1) _ fl] by (auto split: sum.splits prod.splits)
  moreover have "snd (?new [''data/a'']) = Inl AssertFailed"
    using start [OF _ open2(2) _ fl] by (auto split: sum.splits prod.splits)
  ultimately show ?thesis by blast
qed

end
