(* ===== verification/Network.thy ===== *)
theory Network
  imports ReplicationSpec ApplySpec GarbageCollection
begin

text \<open>
  All handlers of all servers together, with a network that only carries what they send: a
  message, once sent, may be delivered late, often or never, and the call contexts of the
  \<open>ReplicateLog\<close> threads and the deletions that were ordered are kept among the messages. Lower
  bounds are invariant: current terms, counters and lengths are not negative, indices are at least
  -1 (those of the log cleaning at least -2, its deletions at least -3), and no server is
  \<open>kOffline\<close>.
\<close>

section \<open>Messages in flight\<close>

datatype message =
    AppendRequest append_entries_request
  | AppendResponse append_entries_response
  | VoteRequest vote_request
  | VoteResponse vote_response
  | Context repl_ctx
  | StatusResponse show_status_response
  | CleanRequest int
  | Deletion int                            \<comment> \<open>a \<open>DelBinlog\<close> task of a server's pool\<close>

fun message_typed :: "message \<Rightarrow> bool" where
  "message_typed (AppendRequest r) \<longleftrightarrow>
     0 \<le> aq_term r \<and> -1 \<le> aq_prev_log_index r \<and> -1 \<le> aq_leader_commit_index r"
| "message_typed (AppendResponse r) \<longleftrightarrow> 0 \<le> ar_current_term r \<and> 0 \<le> ar_log_length r"
| "message_typed (VoteRequest r) \<longleftrightarrow> 0 \<le> vq_term r \<and> -1 \<le> vq_last_log_index r"
| "message_typed (VoteResponse r) \<longleftrightarrow> 0 \<le> vr_term r"
| "message_typed (Context c) \<longleftrightarrow>
     0 \<le> rc_index c \<and> 0 < rc_batch c \<and> rc_prev_index c = rc_index c - 1 \<and> 0 \<le> rc_term c \<and> -1 \<le> rc_commit c"
| "message_typed (StatusResponse r) \<longleftrightarrow>
     sr_status r \<noteq> kOffline \<and> 0 \<le> sr_term r \<and> -1 \<le> sr_last_log_index r \<and> -1 \<le> sr_commit_index r \<and>
     -1 \<le> sr_last_applied r"
| "message_typed (CleanRequest i) \<longleftrightarrow> -2 \<le> i"
| "message_typed (Deletion i) \<longleftrightarrow> -3 \<le> i"

definition node_typed :: "'db node \<Rightarrow> bool" where
  "node_typed n \<longleftrightarrow>
     status n \<noteq> kOffline \<and> 0 \<le> headbeat_cnt n \<and> 0 \<le> current_term n \<and> 0 \<le> log_length n \<and>
     -1 \<le> commit_index n \<and> -1 \<le> last_applied_index n \<and> -2 \<le> last_safe_clean_index n \<and>
     (\<forall>t k. vote_pass n t = Some k \<longrightarrow> 1 \<le> k) \<and>
     (\<forall>a i. next_index n a = Some i \<longrightarrow> 0 \<le> i) \<and> (\<forall>a i. match_index n a = Some i \<longrightarrow> -1 \<le> i)"

section \<open>The handlers\<close>

text \<open>A handler of a server, with the messages it takes and gives.\<close>

inductive handles ::
  "'db leveldb \<Rightarrow> 'db node \<Rightarrow> message list \<Rightarrow> 'db node \<Rightarrow> message list \<Rightarrow> bool" for L where
  timer: "VoteLeader n d = (n', es) \<Longrightarrow> AsyncVote b r \<in> set es \<Longrightarrow> handles L n [] n' [VoteRequest r]"
| quiet_timer: "VoteLeader n d = (n', es) \<Longrightarrow> handles L n [] n' []"
| vote: "Vote n r = (n', Some res) \<Longrightarrow> handles L n [VoteRequest r] n' [VoteResponse res]"
| callback: "VoteCallBack L n res failed = Inr (n', es) \<Longrightarrow> handles L n [VoteResponse res] n' []"
| refuse: "AppendEntries_check L n req = Inr (n', Some res) \<Longrightarrow>
     handles L n [AppendRequest req] n' [AppendResponse res]"
| accept: "AppendEntries_check L n req = Inr (n', None) \<Longrightarrow> handles L n [AppendRequest req] n' []"
| store: "AppendEntries_write L n req = Inr n' \<Longrightarrow> handles L n [AppendRequest req] n' []"
| answer: "AppendEntries_finish n req = (n', es, res) \<Longrightarrow>
     handles L n [AppendRequest req] n' [AppendResponse res]"
| enter: "handles L n [] (ReplicateLog_enter n addr) []"
| exit: "handles L n [] (ReplicateLog_exit n addr) []"
| prepare: "ReplicateLog_prepare L n addr ok = Inr (n', ReplSend c) \<Longrightarrow> handles L n [] n' [Context c]"
| sleep: "ReplicateLog_prepare L n addr ok = Inr (n', r) \<Longrightarrow> handles L n [] n' []"
| collect: "ReplicateLog_collect L n c = Inr (Some (req, mt)) \<Longrightarrow>
     handles L n [Context c] n [AppendRequest req]"
| digest: "ReplicateLog_finish n addr c mt ok (Some res) = (n', ok', es, go) \<Longrightarrow>
     handles L n [Context c, AppendResponse res] n' []"
| failure: "ReplicateLog_finish n addr c mt ok None = (n', ok', es, go) \<Longrightarrow>
     handles L n [Context c] n' []"
| heartbeat: "handles L n [] n [AppendRequest (heartbeat_request n)]"
| beat_answer: "handles L n [AppendResponse res] (HeartBeatCallBack n res failed) []"
| put: "Put L n c k v = Inr (Inr (n', es)) \<Longrightarrow> handles L n [] n' []"
| del: "Delete L n c k = Inr (Inr (n', es)) \<Longrightarrow> handles L n [] n' []"
| lock: "Lock L n c k = Inr (Inr (n', es)) \<Longrightarrow> handles L n [] n' []"
| unlock: "UnLock L n c k = Inr (Inr (n', es)) \<Longrightarrow> handles L n [] n' []"
| commit_apply: "CommitIndex_apply L n i = Inr n' \<Longrightarrow> handles L n [] n' []"
| commit_ack: "CommitIndex_ack L n i = (n', es) \<Longrightarrow> handles L n [] n' []"
| show_status: "handles L n [] n [StatusResponse (ShowStatus n)]"
| gc: "GarbageClean interval n answers = (n', es) \<Longrightarrow> SyncCleanBinlog b i \<in> set es \<Longrightarrow>
     handles L n [StatusResponse r. Some r \<leftarrow> answers] n' [CleanRequest i]"
| quiet_gc: "GarbageClean interval n answers = (n', es) \<Longrightarrow>
     handles L n [StatusResponse r. Some r \<leftarrow> answers] n' []"
| clean: "CleanBinlog n i = (ok, es) \<Longrightarrow> AddDelBinlog k \<in> set es \<Longrightarrow>
     handles L n [CleanRequest i] n [Deletion k]"
| del_binlog: "handles L n [Deletion i] (DelBinlog L n i) []"

text \<open>The servers and everything that was ever sent.\<close>

record 'db net =
  nt_node :: "string \<Rightarrow> 'db node"
  nt_sent :: "message set"

inductive net_reachable :: "'db leveldb \<Rightarrow> string list \<Rightarrow> 'db net \<Rightarrow> bool" for L M where
  start: "(\<And>a. a \<in> set M \<Longrightarrow> \<exists>b ds d es. AirDBImpl_init L a M b ds d = Inr (nt_node s a, es) \<and>
       0 \<le> bl_length b \<and> -1 \<le> last_applied_index (nt_node s a)) \<Longrightarrow> nt_sent s = {} \<Longrightarrow> net_reachable L M s"
| step: "net_reachable L M s \<Longrightarrow> a \<in> set M \<Longrightarrow> set ins \<subseteq> nt_sent s \<Longrightarrow>
     handles L (nt_node s a) ins n' outs \<Longrightarrow>
     net_reachable L M (s\<lparr>nt_node := (nt_node s)(a := n'), nt_sent := nt_sent s \<union> set outs\<rparr>)"

section \<open>The ranges\<close>

lemma GetLength_write_list: "WriteEntryList L b ps = Inr b' \<Longrightarrow> bl_length b' = bl_length b + int (length ps)"
  by (erule WriteEntryList_InrE) simp

lemma GetLength_write: "WriteEntry L b e = Inr b' \<Longrightarrow> bl_length b' = bl_length b + 1"
  using GetLength_write_list [of L b "[pb_of_entry e]" b'] by (simp add: WriteEntry_as_list)

lemma GetLength_truncate: "Truncate L b i = Inr b' \<Longrightarrow> 0 \<le> bl_length b'"
  by (auto simp: Truncate_def Let_def bindE_eq_Inr split: prod.splits if_splits)

lemma SwitchToFollower_typed: "node_typed n \<Longrightarrow> 0 \<le> t \<Longrightarrow> node_typed (SwitchToFollower n t)"
  by (auto simp: node_typed_def SwitchToFollower_def log_length_def)

lemma start_replica_typed: "node_typed n \<Longrightarrow> node_typed (fst (start_replica_loop n addrs))"
proof (induction addrs arbitrary: n)
  case (Cons addr addrs)
  have "node_typed (n\<lparr>next_index := (next_index n)(addr := Some (log_length n)),
      match_index := (match_index n)(addr := Some (-1))\<rparr>)"
    using Cons.prems by (auto simp: node_typed_def log_length_def)
  then show ?case using Cons by (simp add: Let_def case_prod_beta)
qed simp

lemma update_commit_typed:
  assumes n: "node_typed n" and i: "-1 \<le> i" and run: "UpdateCommitIndex n i = (n', es)"
  shows "node_typed n'"
proof -
  obtain c m where n': "n' = n\<lparr>commit_index := c, match_index := m\<rparr>" and c: "c = i \<or> c = commit_index n"
    and m: "\<And>a. m a = match_index n a \<or> m a = Some (at_default 0 (match_index n) a)"
    by (rule that [OF UpdateCommitIndex_eq [OF run]]) auto
  have "-1 \<le> at_default 0 (match_index n) a" for a
    using n by (auto simp: node_typed_def at_default_def split: option.split)
  then have "-1 \<le> k" if "m a = Some k" for a k
    using m [of a] that n by (auto simp: node_typed_def)
  then show ?thesis using n i c by (auto simp: node_typed_def n' log_length_def)
qed

lemma write_and_wait_typed: "write_and_wait L n e f = Inr (n', es) \<Longrightarrow> node_typed n \<Longrightarrow> node_typed n'"
  by (auto simp: write_and_wait_def bindE_eq_Inr Let_def node_typed_def log_length_def GetLength_def
      dest!: GetLength_write)

lemma client_calls_typed:
  "Put L n c k v = Inr (Inr (n', es)) \<Longrightarrow> node_typed n \<Longrightarrow> node_typed n'"
  "Delete L n c k = Inr (Inr (n', es)) \<Longrightarrow> node_typed n \<Longrightarrow> node_typed n'"
  "Lock L n c k = Inr (Inr (n', es)) \<Longrightarrow> node_typed n \<Longrightarrow> node_typed n'"
  "UnLock L n c k = Inr (Inr (n', es)) \<Longrightarrow> node_typed n \<Longrightarrow> node_typed n'"
  by (auto simp: Put_def Delete_def Lock_def UnLock_def dest: write_and_wait_typed
      split: if_splits option.splits)

lemma Vote_typed:
  "Vote n r = (n', res) \<Longrightarrow> node_typed n \<Longrightarrow> node_typed n' \<and> (\<forall>x. res = Some x \<longrightarrow> message_typed (VoteResponse x))"
  by (auto simp: Vote_def Let_def case_prod_beta node_typed_def SwitchToFollower_def log_length_def split: if_splits)

lemma VoteLeader_typed:
  "VoteLeader n d = (n', es) \<Longrightarrow> node_typed n \<Longrightarrow> node_typed n' \<and>
     (\<forall>b r. AsyncVote b r \<in> set es \<longrightarrow> message_typed (VoteRequest r))"
  by (auto simp: VoteLeader_def Let_def node_typed_def log_length_def LoopVoteLeader_def vote_request_of_def
      GetLocalLogTermIndex_def GetLastLogIndexAndTerm_def GetLength_def at_default_def split: if_splits option.splits)
    (smt (verit))+

lemma SwitchToLeader_typed:
  assumes "SwitchToLeader L n = Inr (n', es)" and "node_typed n"
  shows "node_typed n'"
proof -
  have "node_typed (n\<lparr>status := kLeader, cur_leader_addr := self_addr n\<rparr>)"
    using assms(2) by (simp add: node_typed_def log_length_def)
  from start_replica_typed [OF this] show ?thesis
    using assms(1) by (auto simp: SwitchToLeader_def StartReplicaLog_def Let_def case_prod_beta bindE_eq_Inr
        node_typed_def log_length_def GetLength_def dest!: GetLength_write)
qed

lemma VoteCallBack_typed:
  assumes "VoteCallBack L n res failed = Inr (n', es)" and n: "node_typed n"
  shows "node_typed n'"
proof -
  have "node_typed (n\<lparr>vote_pass := (vote_pass n)(current_term n := Some (at_default 0 (vote_pass n) (current_term n) + 1))\<rparr>)"
    using n by (force simp: node_typed_def log_length_def at_default_def split: option.splits)
  moreover have "node_typed (SwitchToFollower n (vr_term res))" if "current_term n < vr_term res"
    using n that by (intro SwitchToFollower_typed) (auto simp: node_typed_def)
  ultimately show ?thesis
    using assms by (auto simp: VoteCallBack_def Let_def dest: SwitchToLeader_typed split: if_splits)
qed

lemma AppendEntries_check_typed:
  assumes "AppendEntries_check L n req = Inr (n', reply)" and "node_typed n"
  shows "node_typed n' \<and> (\<forall>res. reply = Some res \<longrightarrow> message_typed (AppendResponse res))"
  using assms
  by (auto simp: AppendEntries_check_def Let_def bindE_eq_Inr node_typed_def log_length_def GetLength_def ae_reply_def
      dest: GetLength_truncate split: if_splits)

lemma ReplicateLog_prepare_typed:
  assumes "ReplicateLog_prepare L n addr ok = Inr (n', r)" and "node_typed n"
  shows "node_typed n' \<and> (\<forall>c. r = ReplSend c \<longrightarrow> message_typed (Context c))"
proof -
  have "0 \<le> at_default 0 (next_index n) addr"
    using assms(2) by (auto simp: node_typed_def at_default_def split: option.split)
  moreover have "node_typed (n\<lparr>next_index := touch 0 addr (next_index n)\<rparr>)"
    using assms(2) calculation by (auto simp: node_typed_def log_length_def touch_def)
  moreover have "0 \<le> current_term n" "-1 \<le> commit_index n" using assms(2) by (simp_all add: node_typed_def)
  ultimately show ?thesis
    using assms by (auto simp: ReplicateLog_prepare_def Let_def bindE_eq_Inr log_length_def split: if_splits option.splits)
qed

lemma ReplicateLog_finish_typed:
  assumes run: "ReplicateLog_finish n addr c mt ok ret = (n', ok', es, go)" and n: "node_typed n"
    and c: "message_typed (Context c)" and res: "\<And>res. ret = Some res \<Longrightarrow> message_typed (AppendResponse res)"
  shows "node_typed n'"
proof (cases ret)
  case None
  then show ?thesis using run n by (auto simp: ReplicateLog_finish_def split: if_splits)
next
  case (Some r)
  let ?n = "if ar_current_term r > current_term n then SwitchToFollower n (ar_current_term r) else n"
  have n1: "node_typed ?n" using n res [OF Some] by (auto intro: SwitchToFollower_typed)
  have e: "node_typed (?n\<lparr>next_index := (next_index ?n)(addr := Some (rc_index c + rc_batch c)),
      match_index := (match_index ?n)(addr := Some (rc_index c + rc_batch c - 1))\<rparr>)"
    using n1 c by (auto simp: node_typed_def log_length_def)
  have b: "node_typed (?n\<lparr>next_index := (next_index ?n)(addr := Some i)\<rparr>)" if "0 \<le> i" for i
    using n1 that by (auto simp: node_typed_def log_length_def)
  let ?i = "min (at_default 0 (next_index ?n) addr - 1) (ar_log_length r)"
  have "node_typed (?n\<lparr>next_index := (next_index ?n)(addr := Some (if ?i < 0 then 0 else ?i))\<rparr>)"
    by (intro b) (simp only: not_less split: if_split, simp)
  then show ?thesis
    using run Some n1 update_commit_typed [OF e, of "rc_index c + rc_batch c - 1"] e c
    by (simp add: ReplicateLog_finish_def Let_def split: if_splits prod.splits)
qed

lemma answer_typed:
  assumes "AppendEntries_finish n req = (n', es, res)" and "node_typed n" and "message_typed (AppendRequest req)"
  shows "node_typed n' \<and> message_typed (AppendResponse res)"
  using assms by (auto simp: AppendEntries_finish_def ae_reply_def Let_def node_typed_def log_length_def)

lemma AppendEntries_write_typed:
  "AppendEntries_write L n req = Inr n' \<Longrightarrow> node_typed n \<Longrightarrow> node_typed n'"
  by (auto simp: AppendEntries_write_def bindE_eq_Inr node_typed_def log_length_def GetLength_def
      dest!: GetLength_write_list split: if_splits)

lemma local_typed:
  "node_typed n \<Longrightarrow> node_typed (ReplicateLog_enter n addr)"
  "node_typed n \<Longrightarrow> node_typed (ReplicateLog_exit n addr)"
  "node_typed n \<Longrightarrow> node_typed (DelBinlog L n i)"
  "CommitIndex_apply L n i = Inr n' \<Longrightarrow> node_typed n \<Longrightarrow> node_typed n'"
  "CommitIndex_ack L n i = (n', es) \<Longrightarrow> node_typed n \<Longrightarrow> node_typed n'"
  by (auto simp: ReplicateLog_enter_def ReplicateLog_exit_def DelBinlog_def RemoveSlotBefore_def
      CommitIndex_apply_def CommitIndex_ack_eq bindE_eq_Inr Let_def
      node_typed_def log_length_def GetLength_def split: if_splits option.splits)

lemma gc_min_applied_ge:
  "gc_min_applied m rs = Some p \<Longrightarrow> b \<le> m \<Longrightarrow> \<forall>r. Some r \<in> set rs \<longrightarrow> b \<le> sr_last_applied r \<Longrightarrow> b \<le> p"
  by (induction m rs rule: gc_min_applied.induct) auto

text \<open>A round asks the servers for a slot below the lowest position, which may be -1.\<close>

lemma GarbageClean_typed:
  assumes run: "GarbageClean interval n answers = (n', es)" and n: "node_typed n"
    and typed: "\<forall>m \<in> set [StatusResponse r. Some r \<leftarrow> answers]. message_typed m"
  shows "node_typed n'" and "SyncCleanBinlog b i \<in> set es \<Longrightarrow> -2 \<le> i"
proof -
  have "-1 \<le> p" if "gc_min_applied int64_max answers = Some p" for p
    using gc_min_applied_ge [OF that, of "-1"] typed by (fastforce simp: int64_max_def)
  then show "node_typed n'" and "SyncCleanBinlog b i \<in> set es \<Longrightarrow> -2 \<le> i"
    using run n by (fastforce simp: GarbageClean_def Let_def node_typed_def log_length_def
        split: if_splits option.splits)+
qed

lemma ShowStatus_typed: "node_typed n \<Longrightarrow> message_typed (StatusResponse (ShowStatus n))"
  by (auto simp: ShowStatus_def node_typed_def log_length_def GetLocalLogTermIndex_def
      GetLastLogIndexAndTerm_def GetLength_def split: prod.splits)

lemma HeartBeatCallBack_typed:
  "node_typed n \<Longrightarrow> message_typed (AppendResponse res) \<Longrightarrow> node_typed (HeartBeatCallBack n res failed)"
  by (auto simp: HeartBeatCallBack_def intro: SwitchToFollower_typed)

lemma collect_typed:
  assumes "ReplicateLog_collect L n c = Inr (Some (req, mt))" and "message_typed (Context c)"
  shows "message_typed (AppendRequest req)"
  using assms by (auto simp: ReplicateLog_collect_def bindE_eq_Inr split: option.splits)

lemma heartbeat_typed: "node_typed n \<Longrightarrow> message_typed (AppendRequest (heartbeat_request n))"
  by (auto simp: heartbeat_request_def node_typed_def)

lemmas handlers_typed = VoteLeader_typed Vote_typed VoteCallBack_typed AppendEntries_check_typed
  AppendEntries_write_typed answer_typed ReplicateLog_prepare_typed ReplicateLog_finish_typed
  client_calls_typed local_typed HeartBeatCallBack_typed collect_typed heartbeat_typed

lemma handles_typed:
  assumes "handles L n ins n' outs" and "node_typed n" and "\<forall>m \<in> set ins. message_typed m"
  shows "node_typed n' \<and> (\<forall>m \<in> set outs. message_typed m)"
  using assms
proof cases
  case (timer d es b r)
  then show ?thesis using assms(2) VoteLeader_typed by fastforce
next
  case (digest addr c mt ok res ok' es go)
  then show ?thesis
    using assms(2,3) ReplicateLog_finish_typed [OF digest(3) assms(2)] by auto
next
  case (failure addr c mt ok ok' es go)
  then show ?thesis
    using assms(2,3) ReplicateLog_finish_typed [OF failure(3) assms(2)] by auto
next
  case (gc interval answers es b i)
  then show ?thesis using GarbageClean_typed [OF gc(3) assms(2)] assms(3) by simp
next
  case (quiet_gc interval answers es)
  then show ?thesis using GarbageClean_typed(1) [OF quiet_gc(3) assms(2)] assms(3) by simp
next
  case show_status
  then show ?thesis using ShowStatus_typed assms(2) by simp
next
  case (clean i ok es k)
  then show ?thesis using assms(2,3) by (auto simp: CleanBinlog_def split: if_splits)
qed (use assms(2,3) in \<open>auto dest: handlers_typed simp del: message_typed.simps\<close>)

section \<open>Properties\<close>

text \<open>
  C29: Lower bounds in every state. In a cluster that starts from databases with a log length of at
  least 0 and a saved position of at least -1, whose network carries only what the servers sent
  but loses, repeats and reorders it as it likes, and whose handlers run in any order, the log
  cleaning included: no server is offline; current terms, heartbeat counts, log lengths and next
  indices are at least 0; commit indices, positions and match indices at least -1; the index of
  the last cleaning at least -2; a vote count that exists is positive. The same holds of the terms,
  lengths and indices that requests and answers carry (a cleaning is asked for from -2 on and
  deletes from -3 on), and a prepared batch has a non-negative start and at least one entry. The
  terms of log entries are not bounded.
\<close>

theorem network_typed:
  assumes "net_reachable L M s"
  shows "(\<forall>a \<in> set M. node_typed (nt_node s a)) \<and> (\<forall>m \<in> nt_sent s. message_typed m)"
  using assms
proof induction
  case (start s)
  have "node_typed (nt_node s a)" if a: "a \<in> set M" for a
  proof -
    obtain b ds d es where init: "AirDBImpl_init L a M b ds d = Inr (nt_node s a, es)"
      and b: "0 \<le> bl_length b" "-1 \<le> last_applied_index (nt_node s a)"
      using start(1) [OF a] by blast
    from init obtain i where "\<lparr>binlogger = b, stop = False, status = kFollower, headbeat_cnt = 0,
        current_term = 0, self_addr = a, cur_leader_addr = [], commit_index = -1,
        last_applied_index = i, last_safe_clean_index = -1, all_server_addr = M,
        vote_for = (\<lambda>_. None), vote_pass = (\<lambda>_. None), next_index = (\<lambda>_. None),
        match_index = (\<lambda>_. None), replicating = {}, sdk_ack_map = (\<lambda>_. None), data_store = ds\<rparr> = nt_node s a"
      by (auto simp: AirDBImpl_init_def Let_def bindE_eq_Inr split: prod.splits option.splits)
    from this [symmetric] show ?thesis using b by (simp add: node_typed_def log_length_def GetLength_def)
  qed
  then show ?case using start(2) by simp
next
  case (step s a ins n' outs)
  have "\<forall>m \<in> set ins. message_typed m" using step.hyps(3) step.IH by blast
  then show ?case using handles_typed [OF step.hyps(4)] step.hyps(2) step.IH by auto
qed

theorem network_typed_witness:
  "node_typed (sample_node ''a'' [''a''] [])"
proof -
  let ?s = "\<lparr>nt_node = (\<lambda>a. sample_node a [''a''] []), nt_sent = {}\<rparr>"
  have "net_reachable mem_leveldb [''a''] ?s"
    using binlog_rel_length [OF mem_binlog_rel [of "[]"]] sample_node_init [of _ "[''a'']" "[]" 0]
    by (intro net_reachable.start) fastforce+
  from network_typed [OF this] show ?thesis by simp
qed

end
