(* ===== verification/StableGc.thy ===== *)
theory StableGc
  imports StableClient GcSpec
begin

text \<open>
  A cluster under one leader that cleans its logs while it works: the leader asks the servers one
  after the other how far they have applied, sends the round's index to all of them, and every
  server deletes on a thread of its own, at any later moment and interleaved with everything
  \<open>StableLeader\<close> has. The result of a round may be old by the time a server acts on it; what makes
  that harmless is that no server's position ever goes back.
\<close>

section \<open>The steps\<close>

record 'db gc_group =
  gg_group :: "'db group"
  gg_polled :: "show_status_response option list" \<comment> \<open>the answers of the round so far\<close>
  gg_cleans :: "(string \<times> int) set"  \<comment> \<open>\<open>CleanBinlog\<close> calls that were sent\<close>
  gg_tasks :: "(string \<times> int) set"   \<comment> \<open>\<open>DelBinlog\<close> tasks that were added\<close>

text \<open>
  A call or a task may happen late, again, or never. \<open>clean\<close> also takes a round that a failed
  \<open>ShowStatus\<close> call ended early.
\<close>

inductive gc_step ::
  "'db leveldb \<Rightarrow> string \<Rightarrow> string list \<Rightarrow> 'db gc_group \<Rightarrow> 'db gc_group \<Rightarrow> bool"
  for L A M where
  run: "group_step L A M (gg_group s) g \<Longrightarrow> gc_step L A M s (s\<lparr>gg_group := g\<rparr>)"
| poll: "length (gg_polled s) < length M \<Longrightarrow>
     gc_step L A M s (s\<lparr>gg_polled := gg_polled s @
       [Some (ShowStatus (gr_node (gg_group s) (M ! length (gg_polled s))))]\<rparr>)"
| poll_failed: "length (gg_polled s) < length M \<Longrightarrow>
     gc_step L A M s (s\<lparr>gg_polled := gg_polled s @ [None]\<rparr>)"
| clean: "length (gg_polled s) = length M \<or> None \<in> set (gg_polled s) \<Longrightarrow>
     GarbageClean interval (gr_node (gg_group s) A) (gg_polled s) = (n', es) \<Longrightarrow>
     gc_step L A M s (s\<lparr>gg_group := set_node A n' (gg_group s), gg_polled := [],
       gg_cleans := gg_cleans s \<union> {(a, i). SyncCleanBinlog a i \<in> set es}\<rparr>)"
| request: "(a, i) \<in> gg_cleans s \<Longrightarrow> CleanBinlog (gr_node (gg_group s) a) i = (ok, es) \<Longrightarrow>
     gc_step L A M s (s\<lparr>gg_tasks := gg_tasks s \<union> {(b, k). b = a \<and> AddDelBinlog k \<in> set es}\<rparr>)"
| delete: "(a, k) \<in> gg_tasks s \<Longrightarrow>
     gc_step L A M s (s\<lparr>gg_group := set_node a (DelBinlog L (gr_node (gg_group s) a) k) (gg_group s)\<rparr>)"

definition gc_start ::
  "'db leveldb \<Rightarrow> ('db \<Rightarrow> string \<Rightarrow> string option) \<Rightarrow> string \<Rightarrow> string list \<Rightarrow> 'db gc_group \<Rightarrow> bool"
where
  "gc_start L content A M s \<longleftrightarrow>
     group_start L content A M (gg_group s) \<and> gg_polled s = [] \<and> gg_cleans s = {} \<and> gg_tasks s = {}"

inductive gc_reachable ::
  "'db leveldb \<Rightarrow> ('db \<Rightarrow> string \<Rightarrow> string option) \<Rightarrow> string \<Rightarrow> string list \<Rightarrow> 'db gc_group \<Rightarrow> bool"
  for L content A M where
  gc_begin: "gc_start L content A M s \<Longrightarrow> gc_reachable L content A M s"
| gc_next: "gc_reachable L content A M s \<Longrightarrow> gc_step L A M s s' \<Longrightarrow> gc_reachable L content A M s'"

section \<open>Positions never go back\<close>

lemma check_applied: "AppendEntries_check L n req = Inr (n', r) \<Longrightarrow> last_applied_index n' = last_applied_index n"
  by (auto simp: AppendEntries_check_def Let_def bindE_eq_Inr split: if_splits)

lemma write_applied: "AppendEntries_write L n req = Inr n' \<Longrightarrow> last_applied_index n' = last_applied_index n"
  by (auto simp: AppendEntries_write_def bindE_eq_Inr split: if_splits)

lemma finish_applied: "AppendEntries_finish n req = (n', es, r) \<Longrightarrow> last_applied_index n' = last_applied_index n"
  by (auto simp: AppendEntries_finish_def Let_def split: if_splits)

lemma append_applied: "AppendEntriesImpl L n req = Inr (n', es, r) \<Longrightarrow> last_applied_index n' = last_applied_index n"
  by (auto simp: AppendEntriesImpl_def bindE_eq_Inr dest!: check_applied write_applied finish_applied
      split: option.splits)

lemma DelBinlog_simps:
  "binlogger (DelBinlog L n k) = RemoveSlotBefore L (binlogger n) k"
  "last_applied_index (DelBinlog L n k) = last_applied_index n"
  "commit_index (DelBinlog L n k) = commit_index n"
  "current_term (DelBinlog L n k) = current_term n"
  "data_store (DelBinlog L n k) = data_store n"
  "status (DelBinlog L n k) = status n"
  "log_length (DelBinlog L n k) = log_length n"
  "last_safe_clean_index (DelBinlog L n k) = last_safe_clean_index n"
  "same_role n (DelBinlog L n k)"
  by (simp_all add: DelBinlog_def log_length_def GetLength_def RemoveSlotBefore_def same_role_def)

context leveldb_available
begin

lemma applied_mono:
  assumes step: "group_step L A M g g'" and inv: "group_inv content lo A M log g"
  shows "last_applied_index (gr_node g a) \<le> last_applied_index (gr_node g' a)"
proof (cases "a = A")
  case True
  have lead: "status (gr_node g A) = kLeader" using group_inv_parts(3) [OF inv] by (simp add: leader_ok_def)
  have "last_applied_index (gr_node g' A) = last_applied_index (gr_node g A)"
    if call: "client_call L (gr_node g A) (gr_node g' A)"
  proof -
    obtain b m where eq: "gr_node g' A = (gr_node g A)\<lparr>binlogger := b, sdk_ack_map := m\<rparr>"
      by (rule client_call_rel [OF call lead group_inv_log [OF inv disjI2 [OF refl]]]) blast
    show ?thesis by (simp add: eq)
  qed
  then show ?thesis
    using leader_moves [OF step inv] True by (auto simp: calls_kept_def CommitIndex_ack_eq)
next
  case False
  show ?thesis
    using step
    by cases (use False in \<open>auto dest: check_applied write_applied finish_applied append_applied
        CommitIndex_apply_calls VoteLeader_calls simp: calls_kept_def CommitIndex_ack_eq\<close>)
qed

lemma safe_index_kept:
  assumes step: "group_step L A M g g'" and inv: "group_inv content lo A M log g"
  shows "last_safe_clean_index (gr_node g' A) = last_safe_clean_index (gr_node g A)"
proof -
  have lead: "status (gr_node g A) = kLeader" using group_inv_parts(3) [OF inv] by (simp add: leader_ok_def)
  have "last_safe_clean_index (gr_node g' A) = last_safe_clean_index (gr_node g A)"
    if call: "client_call L (gr_node g A) (gr_node g' A)"
  proof -
    obtain b m where eq: "gr_node g' A = (gr_node g A)\<lparr>binlogger := b, sdk_ack_map := m\<rparr>"
      by (rule client_call_rel [OF call lead group_inv_log [OF inv disjI2 [OF refl]]]) blast
    show ?thesis by (simp add: eq)
  qed
  then show ?thesis using leader_moves [OF step inv] by (auto simp: calls_kept_def CommitIndex_ack_eq)
qed

text \<open>Nor does the leader's commit index.\<close>

lemma finish_commit:
  assumes "ReplicateLog_finish n a c mt ok ret = (n', ok', es, go)"
  shows "commit_index n \<le> commit_index n'"
proof -
  have up: "commit_index m \<le> commit_index m'" if "UpdateCommitIndex m i = (m', es')" for m m' i es'
    using UpdateCommitIndex_eq(1) [OF that] by auto
  show ?thesis
    using assms by (auto simp: ReplicateLog_finish_def Let_def SwitchToFollower_def dest!: up
        split: if_splits option.splits prod.splits)
qed

lemma commit_mono:
  assumes step: "group_step L A M g g'" and inv: "group_inv content lo A M log g"
  shows "commit_index (gr_node g A) \<le> commit_index (gr_node g' A)"
  using step
proof cases
  case (client n')
  have lead: "status (gr_node g A) = kLeader" using group_inv_parts(3) [OF inv] by (simp add: leader_ok_def)
  obtain b m where eq: "n' = (gr_node g A)\<lparr>binlogger := b, sdk_ack_map := m\<rparr>"
    by (rule client_call_rel [OF client(2) lead group_inv_log [OF inv disjI2 [OF refl]]]) blast
  then show ?thesis using client by simp
next
  case (prepare a n' c)
  then have "n' = gr_node g A" using group_inv_prepare [OF inv _ _ prepare(3), of "gr_ok g a"] by auto
  then show ?thesis using prepare by simp
next
  case (turn a c mt ret n' ok es go)
  then show ?thesis using finish_commit by simp
next
  case (beat_answered failed res)
  then show ?thesis by (simp add: HeartBeatCallBack_def SwitchToFollower_def)
next
  case (timer a d n' es)
  then show ?thesis by (auto simp: VoteLeader_def Let_def split: if_splits)
next
  case (apply_entry a n')
  then show ?thesis by (auto simp: CommitIndex_apply_def bindE_eq_Inr)
next
  case (acknowledge a n' es)
  then show ?thesis by (auto simp: CommitIndex_ack_eq)
qed auto

text \<open>A deletion below what every server has applied: the logs are kept from a later slot on.\<close>

lemma group_inv_lo:
  assumes inv: "group_inv content lo A M log g" and "lo \<le> lo'"
    and "\<And>a. a \<in> set M \<Longrightarrow> lo' \<le> max 0 (last_applied_index (gr_node g a))"
  shows "group_inv content lo' A M log g"
proof -
  have "server_ok content lo' (log A) (current_term (gr_node g A)) (commit_index (gr_node g A))
      (gr_applied g a) (gr_end g a) (log a) (gr_node g a)" if "a \<in> set M" for a
    using group_inv_parts(6) [OF inv that] assms(2) assms(3) [OF that]
    by (auto simp: server_ok_def intro: binlog_rel_lo_mono)
  then show ?thesis using inv by (simp add: group_inv_def)
qed

lemma delete_inv:
  assumes inv: "group_inv content lo A M log g" and a: "a \<in> set M"
    and k: "\<And>b. b \<in> set M \<Longrightarrow> k < last_applied_index (gr_node g b)"
  shows "group_inv content (max lo k) A M log (set_node a (DelBinlog L (gr_node g a) k) g)"
proof -
  have inv': "group_inv content (max lo k) A M log g"
    using group_inv_parts(6) [OF inv] k by (intro group_inv_lo [OF inv]) (fastforce simp: server_ok_def)+
  note srv = group_inv_parts(6) [OF inv' a]
  have "binlog_rel content (max lo k) (binlogger (DelBinlog L (gr_node g a) k)) (log a)"
    using RemoveSlotBefore_rel [OF server_ok_log [OF srv], of k] by (simp add: DelBinlog_simps max.assoc)
  then have srv': "server_ok content (max lo k) (log A) (current_term (gr_node g A)) (commit_index (gr_node g A))
      (gr_applied g a) (gr_end g a) (log a) (DelBinlog L (gr_node g a) k)"
    using srv by (simp add: server_ok_def DelBinlog_simps)
  show ?thesis
    by (rule local_inv [OF inv' a _ _ _ _ srv'])
      (use group_inv_parts(4,7) [OF inv'] a in \<open>auto simp: DelBinlog_simps follower_ok_def fun_upd_idem\<close>)
qed

lemma clean_inv:
  assumes inv: "group_inv content lo A M log g" and run: "GarbageClean interval (gr_node g A) answers = (n', es)"
  shows "group_inv content lo A M log (set_node A n' g)"
proof -
  obtain i where n': "n' = gr_node g A\<lparr>last_safe_clean_index := i\<rparr>"
    using run by (auto simp: GarbageClean_def Let_def split: if_splits option.splits
        intro: that [of "last_safe_clean_index (gr_node g A)"])
  note A = group_inv_parts(1) [OF inv]
  have "server_ok content lo (log A) (current_term (gr_node g A)) (commit_index (gr_node g A))
      (gr_applied g A) (gr_end g A) (log A) n'"
    using group_inv_parts(6) [OF inv A] by (simp add: server_ok_def n')
  then show ?thesis
    by (rule local_inv [OF inv A, rotated 4])
      (use group_inv_parts(4) [OF inv] in \<open>simp_all add: n' same_role_def fun_upd_idem\<close>)
qed

end

section \<open>The invariant\<close>

text \<open>
  What is asked for or under way in the cleaning lies below what every server has applied, and an
  answer that was given is no more than what its server has applied by now.
\<close>

definition below_applied :: "string list \<Rightarrow> 'db group \<Rightarrow> int \<Rightarrow> bool" where
  "below_applied M g i \<longleftrightarrow> (\<forall>a \<in> set M. i < last_applied_index (gr_node g a))"

definition gc_ok :: "string list \<Rightarrow> 'db gc_group \<Rightarrow> bool" where
  "gc_ok M s \<longleftrightarrow>
     length (gg_polled s) \<le> length M \<and>
     (\<forall>j x. j < length (gg_polled s) \<longrightarrow> gg_polled s ! j = Some x \<longrightarrow>
        sr_last_applied x \<le> last_applied_index (gr_node (gg_group s) (M ! j))) \<and>
     (\<forall>p \<in> gg_cleans s \<union> gg_tasks s. fst p \<in> set M \<and> below_applied M (gg_group s) (snd p))"

text \<open>It only gets truer while positions grow.\<close>

lemma gc_ok_mono:
  assumes ok: "gc_ok M s"
    and mono: "\<And>a. last_applied_index (gr_node (gg_group s) a) \<le> last_applied_index (gr_node g a)"
  shows "gc_ok M (s\<lparr>gg_group := g\<rparr>)"
proof -
  have "below_applied M g i" if "below_applied M (gg_group s) i" for i
    using that mono by (auto simp: below_applied_def intro: order_less_le_trans)
  moreover have "x \<le> last_applied_index (gr_node g a)" if "x \<le> last_applied_index (gr_node (gg_group s) a)" for x a
    using that mono [of a] by linarith
  ultimately show ?thesis using ok unfolding gc_ok_def by simp
qed

lemma gc_ok_same:
  "gc_ok M s \<Longrightarrow> last_applied_index n' = last_applied_index (gr_node (gg_group s) a) \<Longrightarrow>
     gc_ok M (s\<lparr>gg_group := set_node a n' (gg_group s)\<rparr>)"
  by (rule gc_ok_mono) simp_all

definition gc_inv :: "('db \<Rightarrow> string \<Rightarrow> string option) \<Rightarrow> string \<Rightarrow> string list \<Rightarrow> 'db gc_group \<Rightarrow> bool" where
  "gc_inv content A M s \<longleftrightarrow>
     led content A M (gg_group s) \<and> gc_ok M s \<and>
     last_safe_clean_index (gr_node (gg_group s) A) < max 0 (last_applied_index (gr_node (gg_group s) A)) \<and>
     0 < log_length (gr_node (gg_group s) A) \<and>
     (2 \<le> length M \<longrightarrow> sync_inv A M (gr_node (gg_group s) A) (gr_thread (gg_group s)))"

text \<open>The leader's log starts with \<open>pfx\<close>, and at least slot \<open>c\<close> is committed.\<close>

definition log_from ::
  "('db \<Rightarrow> string \<Rightarrow> string option) \<Rightarrow> string \<Rightarrow> string list \<Rightarrow> binlog_entry list \<Rightarrow> int \<Rightarrow>
     'db group \<Rightarrow> bool"
where
  "log_from content A M pfx c g \<longleftrightarrow>
     (\<exists>lo log ys. group_inv content lo A M log g \<and> log A = pfx @ ys) \<and> c \<le> commit_index (gr_node g A)"

lemma gc_ok_polled:
  "gc_ok M s \<Longrightarrow> gc_ok M (s\<lparr>gg_polled := []\<rparr>)"
  "gc_ok M s \<Longrightarrow> length (gg_polled s) < length M \<Longrightarrow>
     (\<And>x. r = Some x \<Longrightarrow> sr_last_applied x \<le> last_applied_index (gr_node (gg_group s) (M ! length (gg_polled s)))) \<Longrightarrow>
     gc_ok M (s\<lparr>gg_polled := gg_polled s @ [r]\<rparr>)"
  by (auto simp: gc_ok_def nth_append less_Suc_eq)

text \<open>A complete round: its index lies below what every server has applied.\<close>

lemma round_below:
  assumes ok: "gc_ok M s" and all: "length (gg_polled s) = length M \<or> None \<in> set (gg_polled s)"
    and lead: "all_server_addr (gr_node (gg_group s) A) = M"
    and run: "GarbageClean interval (gr_node (gg_group s) A) (gg_polled s) = (n', es)"
    and i: "SyncCleanBinlog a i \<in> set es"
  shows "a \<in> set M" and "below_applied M (gg_group s) i"
proof -
  note asks = gc_asks_below_applied [OF run i]
  show "a \<in> set M" using asks lead by simp
  have "None \<notin> set (gg_polled s)" using asks by blast
  then have len: "length (gg_polled s) = length M" using all by blast
  show "below_applied M (gg_group s) i"
    unfolding below_applied_def
  proof
    fix b assume "b \<in> set M"
    then obtain j where j: "j < length M" "b = M ! j" by (auto simp: in_set_conv_nth)
    then obtain x where x: "gg_polled s ! j = Some x" "i < sr_last_applied x"
      using asks nth_mem [of j "gg_polled s"] unfolding len by metis
    then have "sr_last_applied x \<le> last_applied_index (gr_node (gg_group s) b)"
      using ok j len by (simp add: gc_ok_def)
    then show "i < last_applied_index (gr_node (gg_group s) b)" using x(2) by simp
  qed
qed

context leveldb_available
begin

lemma gc_start_inv: "gc_start L content A M s \<Longrightarrow> gc_inv content A M s"
  using group_reachable.start [of L content A M "gg_group s"] group_reachable_led [of A M "gg_group s"]
    group_reachable_sync [of A M "gg_group s"] leader_log_starts [of A M "gg_group s"]
    made_leaderD(11) [OF first_leader [of A M "gg_group s"]]
  by (auto simp: gc_start_def gc_inv_def gc_ok_def)

lemma gc_step_inv:
  assumes "gc_step L A M s s'" and inv: "gc_inv content A M s"
  shows "gc_inv content A M s'"
proof -
  let ?g = "gg_group s"
  obtain lo log where g: "group_inv content lo A M log ?g" and ok: "gc_ok M s"
    and pos: "0 < log_length (gr_node ?g A)"
    and safe: "last_safe_clean_index (gr_node ?g A) < max 0 (last_applied_index (gr_node ?g A))"
    and sync: "2 \<le> length M \<longrightarrow> sync_inv A M (gr_node ?g A) (gr_thread ?g)"
    using inv by (auto simp: gc_inv_def led_def)
  have A: "A \<in> set M" by (rule group_inv_parts(1) [OF g])
  show ?thesis
    using assms(1)
  proof cases
    case (run g')
    have "gc_ok M s'" unfolding run(1) by (rule gc_ok_mono [OF ok applied_mono [OF run(2) g]])
    moreover have "led content A M g'" using led_step [OF _ run(2)] g by (auto simp: led_def)
    moreover have "0 < log_length (gr_node g' A)" using leader_log_length [OF run(2) g] pos by simp
    moreover have "last_safe_clean_index (gr_node g' A) < max 0 (last_applied_index (gr_node g' A))"
      using safe_index_kept [OF run(2) g] applied_mono [OF run(2) g, of A] safe by auto
    ultimately show ?thesis using sync_inv_step [OF run(2) g] sync by (simp add: gc_inv_def run(1))
  next
    case poll
    have "gc_ok M s'" unfolding poll(1)
      by (rule gc_ok_polled(2) [OF ok poll(2)]) (auto simp: ShowStatus_def split: prod.splits)
    then show ?thesis using inv by (simp add: gc_inv_def poll(1))
  next
    case poll_failed
    have "gc_ok M s'" unfolding poll_failed(1) by (rule gc_ok_polled(2) [OF ok poll_failed(2)]) simp
    then show ?thesis using inv by (simp add: gc_inv_def poll_failed(1))
  next
    case (clean interval n' es)
    have M: "all_server_addr (gr_node ?g A) = M" using group_inv_parts(3) [OF g] by (simp add: leader_ok_def)
    have n': "same_role (gr_node ?g A) n'" "log_length n' = log_length (gr_node ?g A)"
      "last_applied_index n' = last_applied_index (gr_node ?g A)"
      using clean(3) by (auto simp: GarbageClean_def Let_def same_role_def log_length_def split: option.splits if_splits)
    have "gc_ok M (s\<lparr>gg_cleans := gg_cleans s \<union> {(a, i). SyncCleanBinlog a i \<in> set es}\<rparr>)"
      using ok round_below [OF ok clean(2) M clean(3)] by (auto simp: gc_ok_def)
    from gc_ok_same [OF gc_ok_polled(1) [OF this], of n' A] have "gc_ok M s'" using n'(3) by (simp add: gc_ok_def clean(1))
    moreover have "led content A M (set_node A n' ?g)" using clean_inv [OF g clean(3)] by (auto simp: led_def)
    moreover have "sync_inv A M n' (gr_thread ?g)" if "2 \<le> length M"
      using sync that n' by (auto intro: sync_inv_same)
    moreover have "last_safe_clean_index n' < max 0 (last_applied_index n')"
    proof (cases "last_safe_clean_index n' = last_safe_clean_index (gr_node ?g A)")
      case False
      then have "SyncCleanBinlog A (last_safe_clean_index n') \<in> set es"
        using clean(3) A M by (auto simp: GarbageClean_def Let_def split: if_splits option.splits)
      then have "below_applied M ?g (last_safe_clean_index n')" by (rule round_below(2) [OF ok clean(2) M clean(3)])
      then show ?thesis using A n'(3) by (auto simp: below_applied_def)
    qed (use safe n'(3) in simp)
    ultimately show ?thesis using pos n'(2) by (simp add: gc_inv_def clean(1))
  next
    case (request a i d es)
    have a: "a \<in> set M" "below_applied M ?g i" using ok request(2) by (force simp: gc_ok_def)+
    have "below_applied M ?g k" if "AddDelBinlog k \<in> set es" for k
      using that request(3) a(2) by (fastforce simp: CleanBinlog_def below_applied_def split: if_splits)
    then have "gc_ok M s'" using ok a(1) by (auto simp: gc_ok_def request(1))
    then show ?thesis using inv by (simp add: gc_inv_def request(1))
  next
    case (delete a k)
    let ?n = "DelBinlog L (gr_node ?g a) k"
    have a: "a \<in> set M" "below_applied M ?g k" using ok delete(2) by (force simp: gc_ok_def)+
    have "gc_ok M s'" unfolding delete(1) by (rule gc_ok_same [OF ok]) (simp add: DelBinlog_simps)
    moreover have "led content A M (set_node a ?n ?g)"
      using delete_inv [OF g a(1), of k] a(2) by (auto simp: led_def below_applied_def)
    moreover have "sync_inv A M (gr_node (set_node a ?n ?g) A) (gr_thread ?g)" if "2 \<le> length M"
      using sync that by (auto intro: sync_inv_same simp: DelBinlog_simps)
    moreover have "0 < log_length (gr_node (set_node a ?n ?g) A)" using pos by (auto simp: DelBinlog_simps)
    moreover have "last_safe_clean_index (gr_node (set_node a ?n ?g) A) <
        max 0 (last_applied_index (gr_node (set_node a ?n ?g) A))"
      using safe by (auto simp: DelBinlog_simps)
    ultimately show ?thesis by (simp add: gc_inv_def delete(1))
  qed
qed

lemma gc_reachable_inv: "gc_reachable L content A M s \<Longrightarrow> gc_inv content A M s"
  by (induction rule: gc_reachable.induct) (auto intro: gc_start_inv gc_step_inv)

text \<open>What is promised to a caller survives the cleaning, too.\<close>

lemma gc_promised_step:
  assumes step: "gc_step L A M s s'" and inv: "gc_inv content A M s"
    and p: "promised content A M pfx ack (gg_group s)"
  shows "promised content A M pfx ack (gg_group s')"
proof -
  let ?g = "gg_group s"
  obtain lo log ys where g: "group_inv content lo A M log ?g" and log: "log A = pfx @ ys"
    and ack: "last_applied_index (gr_node ?g A) < int (length pfx) - 1 \<longrightarrow>
        sdk_ack_map (gr_node ?g A) (int (length pfx) - 1) = Some ack"
    using p by (auto simp: promised_def)
  show ?thesis
    using step
  proof cases
    case (run g')
    then show ?thesis using promised_step [OF run(2) p] by simp
  next
    case (clean interval n' es)
    have "last_applied_index n' = last_applied_index (gr_node ?g A)" "sdk_ack_map n' = sdk_ack_map (gr_node ?g A)"
      using clean(3) by (auto simp: GarbageClean_def Let_def split: option.splits if_splits)
    then show ?thesis using clean_inv [OF g clean(3)] log ack unfolding promised_def clean(1) by auto
  next
    case (delete a k)
    have a: "a \<in> set M" "below_applied M ?g k" using inv delete(2) by (force simp: gc_inv_def gc_ok_def)+
    have "group_inv content (max lo k) A M log (gg_group s')"
      using delete_inv [OF g a(1), of k] a(2) by (simp add: below_applied_def delete(1))
    moreover have "calls_kept (gr_node ?g A) (gr_node (gg_group s') A) \<or>
        sdk_ack_map (gr_node (gg_group s') A) = sdk_ack_map (gr_node ?g A) \<and>
        last_applied_index (gr_node (gg_group s') A) = last_applied_index (gr_node ?g A)"
      by (simp add: delete(1) DelBinlog_def)
    ultimately show ?thesis using log ack unfolding promised_def by (auto simp: calls_kept_def)
  qed (use p in simp_all)
qed

lemma gc_promised_run:
  "(gc_step L A M)\<^sup>*\<^sup>* s s' \<Longrightarrow> gc_inv content A M s \<Longrightarrow> promised content A M pfx ack (gg_group s) \<Longrightarrow>
     gc_inv content A M s' \<and> promised content A M pfx ack (gg_group s')"
  by (induction rule: rtranclp_induct) (auto intro: gc_step_inv gc_promised_step)

text \<open>So does the leader's log, as far as it is written, and what is committed stays committed.\<close>

lemma gc_log_step:
  assumes step: "gc_step L A M s s'" and inv: "gc_inv content A M s"
    and p: "log_from content A M pfx c (gg_group s)"
  shows "log_from content A M pfx c (gg_group s')"
proof -
  let ?g = "gg_group s"
  obtain lo log ys where g: "group_inv content lo A M log ?g" and log: "log A = pfx @ ys"
    and c: "c \<le> commit_index (gr_node ?g A)"
    using p by (auto simp: log_from_def)
  show ?thesis
    using step
  proof cases
    case (run g')
    obtain log' zs where "group_inv content lo A M log' g'" "log' A = log A @ zs"
      using group_step_inv [OF run(2) g] by (auto simp: grown_def)
    moreover have "c \<le> commit_index (gr_node g' A)" using commit_mono [OF run(2) g] c by simp
    ultimately show ?thesis using log by (auto simp: log_from_def run(1))
  next
    case (clean interval n' es)
    have "commit_index n' = commit_index (gr_node ?g A)"
      using clean(3) by (auto simp: GarbageClean_def Let_def split: option.splits if_splits)
    then show ?thesis using clean_inv [OF g clean(3)] log c unfolding log_from_def clean(1) by auto
  next
    case (delete a k)
    have a: "a \<in> set M" "below_applied M ?g k" using inv delete(2) by (force simp: gc_inv_def gc_ok_def)+
    have "group_inv content (max lo k) A M log (gg_group s')"
      using delete_inv [OF g a(1), of k] a(2) by (simp add: below_applied_def delete(1))
    then show ?thesis using log c unfolding log_from_def by (auto simp: delete(1) DelBinlog_simps)
  qed (use p in simp_all)
qed

lemma gc_log_runs:
  "(gc_step L A M)\<^sup>*\<^sup>* s s' \<Longrightarrow> gc_inv content A M s \<Longrightarrow> log_from content A M pfx c (gg_group s) \<Longrightarrow>
     gc_inv content A M s' \<and> log_from content A M pfx c (gg_group s')"
  by (induction rule: rtranclp_induct) (auto intro: gc_step_inv gc_log_step)

lemma gc_applied_runs:
  "(gc_step L A M)\<^sup>*\<^sup>* s s' \<Longrightarrow> gc_inv content A M s \<Longrightarrow>
     last_applied_index (gr_node (gg_group s) a) \<le> last_applied_index (gr_node (gg_group s') a)"
proof (induction rule: rtranclp_induct)
  case (step s1 s2)
  have inv: "gc_inv content A M s1" using step.hyps(1) step.prems gc_step_inv by (induction rule: rtranclp_induct) blast+
  have "last_applied_index (gr_node (gg_group s1) a) \<le> last_applied_index (gr_node (gg_group s2) a)"
    using step.hyps(2)
  proof cases
    case (run g')
    then show ?thesis using inv applied_mono by (auto simp: gc_inv_def led_def)
  next
    case (clean interval n' es)
    then show ?thesis by (auto simp: GarbageClean_def Let_def split: option.splits if_splits)
  qed (simp_all add: DelBinlog_simps)
  then show ?case using step.IH step.prems by simp
qed simp

text \<open>
  A committed entry is held by a majority, or everyone has applied it. With only the first slot
  committed the majority may be missing: the leader's own match index counts as 0.
\<close>

lemma committed_held:
  assumes inv: "group_inv content lo A M log g" and log: "log A = pfx @ e # ys"
    and c: "int (length pfx) \<le> commit_index (gr_node g A)" "0 < commit_index (gr_node g A)"
    and lo: "lo \<le> int (length pfx)"
  shows "ReadSlot L (binlogger (gr_node g A)) (int (length pfx)) = Inr (Some e)"
    and "majority M {a \<in> set M. ReadSlot L (binlogger (gr_node g a)) (int (length pfx)) = Inr (Some e)}"
proof -
  note parts = group_inv_parts [OF inv]
  let ?c = "commit_index (gr_node g A)" and ?i = "int (length pfx)"
  have read: "ReadSlot L (binlogger (gr_node g a)) ?i = Inr (Some e)"
    if "a \<in> set M" "?i < int (length (log a))" for a
    using server_ok_read [OF leveldb_available_axioms parts(6) [OF that(1)] lo that(2)]
    by (simp add: log nth_append)
  show "ReadSlot L (binlogger (gr_node g A)) ?i = Inr (Some e)" using read parts(1) by (simp add: log)
  have "majority M {a \<in> set M. ?c < int (length (log a))}" using parts(5) c(2) by (simp add: held_by_def)
  moreover have "card {a \<in> set M. ?c < int (length (log a))} \<le>
      card {a \<in> set M. ReadSlot L (binlogger (gr_node g a)) ?i = Inr (Some e)}"
    using read c(1) by (intro card_mono) auto
  ultimately show "majority M {a \<in> set M. ReadSlot L (binlogger (gr_node g a)) ?i = Inr (Some e)}"
    by (simp add: majority_def)
qed

text \<open>A round of cleaning, on a cluster in which everybody has applied the same.\<close>

lemma gc_runs_group: "(group_step L A M)\<^sup>*\<^sup>* (gg_group s) g \<Longrightarrow> (gc_step L A M)\<^sup>*\<^sup>* s (s\<lparr>gg_group := g\<rparr>)"
proof (induction rule: rtranclp_induct)
  case (step g g')
  have "gc_step L A M (s\<lparr>gg_group := g\<rparr>) (s\<lparr>gg_group := g\<rparr>\<lparr>gg_group := g'\<rparr>)"
    using step.hyps(2) by (intro gc_step.run) simp
  then show ?case using step.IH by simp
qed simp

definition asked :: "string list \<Rightarrow> 'a gc_group \<Rightarrow> 'a gc_group" where
  "asked xs s = s\<lparr>gg_polled := map (\<lambda>a. Some (ShowStatus (gr_node (gg_group s) a))) xs\<rparr>"

lemma poll_all: "n \<le> length M \<Longrightarrow> (gc_step L A M)\<^sup>*\<^sup>* (asked [] s) (asked (take n M) s)"
proof (induction n)
  case (Suc n)
  have "gc_step L A M (asked (take n M) s) (asked (take (Suc n) M) s)"
    using gc_step.poll [of "asked (take n M) s" M L A] Suc.prems
    by (simp add: asked_def take_Suc_conv_app_nth)
  then show ?case using Suc by (meson Suc_leD rtranclp.rtrancl_into_rtrancl)
qed simp

text \<open>The round before, if one is under way, comes to its end.\<close>

lemma GarbageClean_frame:
  assumes "GarbageClean interval n answers = (n', es)"
  obtains i where "n' = n\<lparr>last_safe_clean_index := i\<rparr>"
  using assms by (auto simp: GarbageClean_def Let_def split: if_splits option.splits
      intro: that [of "last_safe_clean_index n"])

lemma round_ends:
  assumes "gc_ok M s"
  obtains s' i where "(gc_step L A M)\<^sup>*\<^sup>* s s'" and "gg_polled s' = []"
    and "gg_group s' = set_node A (gr_node (gg_group s) A\<lparr>last_safe_clean_index := i\<rparr>) (gg_group s)"
proof -
  obtain s1 where s1: "(gc_step L A M)\<^sup>*\<^sup>* s s1" "gg_group s1 = gg_group s"
    "length (gg_polled s1) = length M \<or> None \<in> set (gg_polled s1)"
  proof (cases "length (gg_polled s) = length M")
    case True
    then show ?thesis using that [of s] by simp
  next
    case False
    then have "length (gg_polled s) < length M" using assms by (simp add: gc_ok_def)
    from gc_step.poll_failed [OF this, of L A] show ?thesis
      by (intro that [of "s\<lparr>gg_polled := gg_polled s @ [None]\<rparr>"]) auto
  qed
  obtain n' es where run: "GarbageClean 0 (gr_node (gg_group s1) A) (gg_polled s1) = (n', es)" by fastforce
  obtain i where n': "n' = gr_node (gg_group s1) A\<lparr>last_safe_clean_index := i\<rparr>"
    by (rule GarbageClean_frame [OF run])
  note step = gc_step.clean [OF s1(3) run, of L]
  show thesis
    by (rule that [OF rtranclp.rtrancl_into_rtrancl [OF s1(1) step], of i]) (simp_all add: n' s1(2))
qed

lemma gc_min_same: "\<forall>r \<in> set rs. \<exists>x. r = Some x \<and> sr_last_applied x = p \<Longrightarrow>
    gc_min_applied m rs = Some (if rs = [] then m else min m p)"
  by (induction m rs rule: gc_min_applied.induct) auto

lemma round_asks:
  assumes lead: "status (gr_node (gg_group s) A) = kLeader" "all_server_addr (gr_node (gg_group s) A) = M"
    and p: "\<forall>a \<in> set M. last_applied_index (gr_node (gg_group s) a) = p" "p \<le> int64_max"
    and fresh: "last_safe_clean_index (gr_node (gg_group s) A) \<noteq> p - 1" and polled: "gg_polled s = []" and M: "M \<noteq> []"
  obtains s' where "(gc_step L A M)\<^sup>*\<^sup>* s s'" and "\<forall>a \<in> set M. (a, p - 1) \<in> gg_cleans s'"
    and "\<forall>a. last_applied_index (gr_node (gg_group s') a) = last_applied_index (gr_node (gg_group s) a) \<and>
      log_length (gr_node (gg_group s') a) = log_length (gr_node (gg_group s) a)"
proof -
  have s0: "asked [] s = s" using polled by (simp add: asked_def)
  have run: "(gc_step L A M)\<^sup>*\<^sup>* s (asked M s)" using poll_all [of "length M" M A s] by (simp add: s0)
  let ?n = "gr_node (gg_group s) A"
  obtain n' es where clean: "GarbageClean 0 (gr_node (gg_group (asked M s)) A) (gg_polled (asked M s)) = (n', es)"
    by fastforce
  have "gc_min_applied int64_max (gg_polled (asked M s)) = Some p"
    using gc_min_same [of "gg_polled (asked M s)" p int64_max] p M
    by (auto simp: asked_def ShowStatus_def split: prod.splits)
  then have n': "last_applied_index n' = last_applied_index ?n" "log_length n' = log_length ?n" and es: "\<forall>a \<in> set M. SyncCleanBinlog a (p - 1) \<in> set es"
    using clean lead fresh by (auto simp: GarbageClean_def Let_def asked_def log_length_def)
  have "length (gg_polled (asked M s)) = length M \<or> None \<in> set (gg_polled (asked M s))" by (simp add: asked_def)
  from rtranclp.rtrancl_into_rtrancl [OF run gc_step.clean [OF this clean]] show thesis
    by (rule that) (use n' es in \<open>auto simp: asked_def\<close>)
qed

lemma request_all:
  assumes "\<forall>a \<in> set xs. (a, i) \<in> gg_cleans s \<and> i \<le> last_applied_index (gr_node (gg_group s) a)"
  shows "\<exists>ts. (gc_step L A M)\<^sup>*\<^sup>* s (s\<lparr>gg_tasks := ts\<rparr>) \<and> (\<forall>a \<in> set xs. (a, i - 1) \<in> ts)"
  using assms
proof (induction xs)
  case Nil
  show ?case by (rule exI [of _ "gg_tasks s"]) simp
next
  case (Cons a xs)
  then obtain ts where ts: "(gc_step L A M)\<^sup>*\<^sup>* s (s\<lparr>gg_tasks := ts\<rparr>)" "\<forall>b \<in> set xs. (b, i - 1) \<in> ts" by auto
  have "CleanBinlog (gr_node (gg_group s) a) i = (True, [AddDelBinlog (i - 1)])"
    using Cons.prems by (simp add: CleanBinlog_def)
  then have "gc_step L A M (s\<lparr>gg_tasks := ts\<rparr>) (s\<lparr>gg_tasks := ts\<rparr>\<lparr>gg_tasks := ts \<union>
      {(b, k). b = a \<and> AddDelBinlog k \<in> set [AddDelBinlog (i - 1)]}\<rparr>)"
    using gc_step.request [of a i "s\<lparr>gg_tasks := ts\<rparr>" True _ L A M] Cons.prems by simp
  then have "(gc_step L A M)\<^sup>*\<^sup>* s (s\<lparr>gg_tasks := ts \<union> {(b, k). b = a \<and> AddDelBinlog k \<in> set [AddDelBinlog (i - 1)]}\<rparr>)"
    using ts(1) by simp
  then show ?case using ts(2) by (intro exI conjI) auto
qed

lemma safe_index_runs:
  "(group_step L A M)\<^sup>*\<^sup>* g g' \<Longrightarrow> led content A M g \<Longrightarrow>
     last_safe_clean_index (gr_node g' A) = last_safe_clean_index (gr_node g A)"
proof (induction rule: rtranclp_induct)
  case (step g1 g2)
  obtain lo log where "group_inv content lo A M log g1"
    using led_runs [OF step.hyps(1) step.prems] by (auto simp: led_def)
  then show ?case using safe_index_kept [OF step.hyps(2)] step.IH step.prems by simp
qed simp

lemma gc_inv_runs: "(gc_step L A M)\<^sup>*\<^sup>* s s' \<Longrightarrow> gc_inv content A M s \<Longrightarrow> gc_inv content A M s'"
  by (induction rule: rtranclp_induct) (auto intro: gc_step_inv)

lemma leader_position:
  assumes "group_inv content lo A M log g"
  shows "last_applied_index (gr_node g A) < log_length (gr_node g A)"
  using group_inv_parts(6) [OF assms group_inv_parts(1) [OF assms]]
    log_length_rel [OF group_inv_log [OF assms disjI2 [OF refl]]] by (simp add: server_ok_def)

text \<open>
  With one more call of a client the cluster comes to rest at a later position than the last
  round's, and the next round covers everything before it.
\<close>

lemma gc_reclaims_rel:
  assumes inv: "gc_inv content A M s" and M: "2 \<le> length M" and k: "k \<noteq> tag_last_applied_index"
    and ok: "entry_ok (call_entry (gr_node (gg_group s) A) kLockOp k v)"
    and max: "log_length (gr_node (gg_group s) A) < 2147483647"
  shows "\<exists>s'. (gc_step L A M)\<^sup>*\<^sup>* s s' \<and>
    log_length (gr_node (gg_group s') A) = log_length (gr_node (gg_group s) A) + 1 \<and>
    (\<forall>a \<in> set M. (a, log_length (gr_node (gg_group s) A) - 2) \<in> gg_tasks s')"
proof -
  let ?N = "log_length (gr_node (gg_group s) A)"
  obtain s1 i where s1: "(gc_step L A M)\<^sup>*\<^sup>* s s1" "gg_polled s1 = []"
    "gg_group s1 = set_node A (gr_node (gg_group s) A\<lparr>last_safe_clean_index := i\<rparr>) (gg_group s)"
    using round_ends [of M s A] inv by (auto simp: gc_inv_def)
  let ?g1 = "gg_group s1"
  have inv1: "gc_inv content A M s1" by (rule gc_inv_runs [OF s1(1) inv])
  then have led1: "led content A M ?g1" and sync1: "sync_inv A M (gr_node ?g1 A) (gr_thread ?g1)"
    and safe: "last_safe_clean_index (gr_node ?g1 A) < max 0 (last_applied_index (gr_node ?g1 A))"
    and pos: "0 < log_length (gr_node ?g1 A)" using M by (simp_all add: gc_inv_def)
  have n1: "log_length (gr_node ?g1 A) = ?N" "call_entry (gr_node ?g1 A) kLockOp k v = call_entry (gr_node (gg_group s) A) kLockOp k v"
    by (simp_all add: s1(3) log_length_def call_entry_def)
  obtain n where put: "group_step L A M ?g1 (set_node A n ?g1)" and n: "log_length n = ?N + 1"
    using put_promised [OF led1 _ k, of v] ok n1 by metis
  note led2 = led_step [OF led1 put]
  have "sync_inv A M (gr_node (set_node A n ?g1) A) (gr_thread (set_node A n ?g1))"
    by (rule sync_runs [OF r_into_rtranclp [where r = "group_step L A M", OF put] led1 M sync1])
  then obtain g2 where g2: "(group_step L A M)\<^sup>*\<^sup>* (set_node A n ?g1) g2"
    "\<forall>a \<in> set M. log_length (gr_node g2 a) = ?N + 1 \<and> last_applied_index (gr_node g2 a) = ?N"
    using group_converges [OF led2 M] n max by auto
  have run2: "(group_step L A M)\<^sup>*\<^sup>* ?g1 g2" using put g2(1) by (rule converse_rtranclp_into_rtranclp)
  let ?s2 = "s1\<lparr>gg_group := g2\<rparr>"
  have inv2: "gc_inv content A M ?s2" by (rule gc_inv_runs [OF gc_runs_group [OF run2] inv1])
  then obtain lo log where g: "group_inv content lo A M log g2" by (auto simp: gc_inv_def led_def)
  obtain lo1 log1 where "group_inv content lo1 A M log1 ?g1" using led1 by (auto simp: led_def)
  then have "last_safe_clean_index (gr_node g2 A) < ?N - 1"
    using leader_position [of lo1 A M log1 ?g1] safe pos n1(1) safe_index_runs [OF run2 led1] by simp
  then have fresh: "last_safe_clean_index (gr_node (gg_group ?s2) A) \<noteq> ?N - 1" by simp
  have lead: "status (gr_node (gg_group ?s2) A) = kLeader" "all_server_addr (gr_node (gg_group ?s2) A) = M"
    using group_inv_parts(3) [OF g] by (simp_all add: leader_ok_def)
  have bound: "?N \<le> int64_max" using max by (simp add: int64_max_def)
  have "M \<noteq> []" using M by auto
  then obtain s3 where s3: "(gc_step L A M)\<^sup>*\<^sup>* ?s2 s3" "\<forall>a \<in> set M. (a, ?N - 1) \<in> gg_cleans s3"
    "\<forall>a. last_applied_index (gr_node (gg_group s3) a) = last_applied_index (gr_node (gg_group ?s2) a) \<and>
      log_length (gr_node (gg_group s3) a) = log_length (gr_node (gg_group ?s2) a)"
    using round_asks [OF lead _ bound fresh] g2(2) s1(2) by auto
  have "\<forall>a \<in> set M. (a, ?N - 1) \<in> gg_cleans s3 \<and> ?N - 1 \<le> last_applied_index (gr_node (gg_group s3) a)"
    using s3(2,3) g2(2) by simp
  from request_all [OF this, of A M] obtain ts where
    ts: "(gc_step L A M)\<^sup>*\<^sup>* s3 (s3\<lparr>gg_tasks := ts\<rparr>)" "\<forall>a \<in> set M. (a, ?N - 1 - 1) \<in> ts" by auto
  have "(gc_step L A M)\<^sup>*\<^sup>* s (s3\<lparr>gg_tasks := ts\<rparr>)"
    using s1(1) gc_runs_group [OF run2] s3(1) ts(1) by (meson rtranclp_trans)
  moreover have "log_length (gr_node (gg_group s3) A) = ?N + 1"
    using s3(3) g2(2) group_inv_parts(1) [OF g] by simp
  ultimately show ?thesis using ts(2) by (intro exI [of _ "s3\<lparr>gg_tasks := ts\<rparr>"]) simp
qed

end

section \<open>Calls and commits in a cluster that cleans\<close>

context leveldb_available
begin

lemma committed_stays:
  assumes inv: "gc_inv content A M s" and pos: "0 < commit_index (gr_node (gg_group s) A)"
    and i: "0 \<le> i" "i \<le> commit_index (gr_node (gg_group s) A)"
    and e: "ReadSlot L (binlogger (gr_node (gg_group s) A)) i = Inr (Some e)"
    and runs: "(gc_step L A M)\<^sup>*\<^sup>* s s'"
  shows "i \<le> commit_index (gr_node (gg_group s') A) \<and>
    ((\<forall>a \<in> set M. i < last_applied_index (gr_node (gg_group s') a)) \<or>
     ReadSlot L (binlogger (gr_node (gg_group s') A)) i = Inr (Some e) \<and>
     majority M {a \<in> set M. ReadSlot L (binlogger (gr_node (gg_group s') a)) i = Inr (Some e)})"
proof -
  let ?c = "commit_index (gr_node (gg_group s) A)"
  obtain lo log where g: "group_inv content lo A M log (gg_group s)" using inv by (auto simp: gc_inv_def led_def)
  note A = group_inv_parts(1) [OF g]
  have len: "?c < int (length (log A))" using group_inv_parts(6) [OF g A] by (simp add: server_ok_def)
  have "log_from content A M (log A) ?c (gg_group s)"
    unfolding log_from_def using g by (auto intro: exI [of _ "[]"])
  then have "log_from content A M (log A) ?c (gg_group s')" using gc_log_runs [OF runs inv] by blast
  then obtain lo' log' ys where g': "group_inv content lo' A M log' (gg_group s')" and log': "log' A = log A @ ys"
    and c': "?c \<le> commit_index (gr_node (gg_group s') A)"
    unfolding log_from_def by blast
  have past: "\<forall>a \<in> set M. i < last_applied_index (gr_node (gg_group s') a)" if "i < lo \<or> i < lo'"
  proof
    fix a assume a: "a \<in> set M"
    have "lo \<le> max 0 (last_applied_index (gr_node (gg_group s) a))"
      "lo' \<le> max 0 (last_applied_index (gr_node (gg_group s') a))"
      using group_inv_parts(6) [OF g a] group_inv_parts(6) [OF g' a] by (simp_all add: server_ok_def)
    then show "i < last_applied_index (gr_node (gg_group s') a)"
      using that i(1) gc_applied_runs [OF runs inv, of a] by linarith
  qed
  show ?thesis
  proof (cases "i < lo \<or> i < lo'")
    case True
    then show ?thesis using past i(2) c' by simp
  next
    case False
    have at: "int (length (take (nat i) (log A))) = i" "nat i < length (log A)" using i len by auto
    have "e = log A ! nat i"
      using e server_ok_read [OF leveldb_available_axioms group_inv_parts(6) [OF g A], of i] False at by simp
    then have "log' A = take (nat i) (log A) @ e # (drop (Suc (nat i)) (log A) @ ys)"
      using id_take_nth_drop [OF at(2)] log' by simp
    note held = committed_held [OF g' this, unfolded at(1)]
    show ?thesis using held i c' pos False by simp
  qed
qed

lemma gc_put_completes:
  assumes inv: "gc_inv content A M s" and M: "2 \<le> length M"
    and ok: "entry_ok (call_entry (gr_node (gg_group s) A) kLockOp k v)" and k: "k \<noteq> tag_last_applied_index"
    and max: "log_length (gr_node (gg_group s) A) < 2147483647"
  shows "\<exists>n s1 s2. Put L (gr_node (gg_group s) A) c k v = Inr (Inr (n, [BroadcastReplica])) \<and>
    (gc_step L A M)\<^sup>*\<^sup>* (s\<lparr>gg_group := set_node A n (gg_group s)\<rparr>) s1 \<and>
    gr_applied (gg_group s1) A \<and>
    last_applied_index (gr_node (gg_group s1) A) + 1 = log_length (gr_node (gg_group s) A) \<and>
    {SetSuccess c, RunDone (Some c)} \<subseteq>
      set (snd (CommitIndex_ack L (gr_node (gg_group s1) A) (log_length (gr_node (gg_group s) A)))) \<and>
    (gc_step L A M)\<^sup>*\<^sup>* s1 s2 \<and>
    (\<forall>a \<in> set M. StorageKV_Get L (data_store (gr_node (gg_group s2) a)) k = (0, Some (type_and_value kPutOp v)))"
proof -
  let ?g = "gg_group s"
  have led: "led content A M ?g" and sync: "sync_inv A M (gr_node ?g A) (gr_thread ?g)"
    and started: "0 < log_length (gr_node ?g A)" using inv M by (simp_all add: gc_inv_def)
  obtain n g1 g2 where put: "Put L (gr_node ?g A) c k v = Inr (Inr (n, [BroadcastReplica]))"
    and run: "(group_step L A M)\<^sup>*\<^sup>* (set_node A n ?g) g1" "gr_applied g1 A"
      "last_applied_index (gr_node g1 A) + 1 = log_length (gr_node ?g A)"
    and all: "(group_step L A M)\<^sup>*\<^sup>* g1 g2"
      "\<forall>a \<in> set M. StorageKV_Get L (data_store (gr_node g2 a)) k = (0, Some (type_and_value kPutOp v))"
    using put_completes [OF led M sync ok k max, of c] by blast
  have "{SetSuccess c, RunDone (Some c)} \<subseteq> set (snd (CommitIndex_ack L (gr_node g1 A) (log_length (gr_node ?g A))))"
    using put_answered_rel [OF led started put ok k promised_run [OF run(1)] run(2,3) surjective_pairing] by blast
  moreover have "(gc_step L A M)\<^sup>*\<^sup>* (s\<lparr>gg_group := set_node A n ?g\<rparr>) (s\<lparr>gg_group := g1\<rparr>)"
    using gc_runs_group [of A M "s\<lparr>gg_group := set_node A n ?g\<rparr>" g1] run(1) by simp
  moreover have "(gc_step L A M)\<^sup>*\<^sup>* (s\<lparr>gg_group := g1\<rparr>) (s\<lparr>gg_group := g2\<rparr>)"
    using gc_runs_group [of A M "s\<lparr>gg_group := g1\<rparr>" g2] all(1) by simp
  ultimately show ?thesis
    using put run(2,3) all(2)
    by (intro exI [of _ n] exI [of _ "s\<lparr>gg_group := g1\<rparr>"] exI [of _ "s\<lparr>gg_group := g2\<rparr>"]) simp
qed

end

section \<open>A sample cluster that cleans\<close>

definition sample_gc :: "mem_db gc_group" where
  "sample_gc = \<lparr>gg_group = sample_group, gg_polled = [], gg_cleans = {}, gg_tasks = {}\<rparr>"

lemma sample_gc_reachable: "gc_reachable mem_leveldb map_of ''a'' [''a'', ''b''] sample_gc"
  by (rule gc_begin) (simp add: gc_start_def sample_gc_def sample_group_start)

lemma gc_reachable_runs:
  "(gc_step L A M)\<^sup>*\<^sup>* s s' \<Longrightarrow> gc_reachable L content A M s \<Longrightarrow> gc_reachable L content A M s'"
  by (induction rule: rtranclp_induct) (auto intro: gc_next)

text \<open>The leader of the sample cluster accepts a call, whatever happened before.\<close>

context leveldb_available
begin

lemma leader_term_ok:
  assumes "gc_inv content A M s"
  shows "in_i64 (current_term (gr_node (gg_group s) A))"
proof -
  obtain lo log where g: "group_inv content lo A M log (gg_group s)" and pos: "0 < log_length (gr_node (gg_group s) A)"
    using assms by (auto simp: gc_inv_def led_def)
  note rel = group_inv_log [OF g disjI2 [OF refl]]
  have "log A \<noteq> []" using pos log_length_rel [OF rel] by auto
  then obtain e where "e \<in> set (log A)" by (meson last_in_set)
  then show ?thesis
    using binlog_rel_ok [OF rel] group_inv_parts(3) [OF g] by (fastforce simp: leader_ok_def entry_ok_def)
qed

lemma short_call_ok:
  "gc_inv content A M s \<Longrightarrow> entry_ok (call_entry (gr_node (gg_group s) A) kLockOp ''k'' ''v'')"
  using leader_term_ok by (simp add: entry_ok_def call_entry_def entry_size_def in_i32_def)

lemma one_more_call:
  assumes inv: "gc_inv content A M s"
  obtains s' where "(gc_step L A M)\<^sup>*\<^sup>* s s'"
    and "log_length (gr_node (gg_group s') A) = log_length (gr_node (gg_group s) A) + 1"
proof -
  have led: "led content A M (gg_group s)" using inv by (simp add: gc_inv_def)
  obtain n where "group_step L A M (gg_group s) (set_node A n (gg_group s))"
    "log_length n = log_length (gr_node (gg_group s) A) + 1"
    using put_promised [OF led short_call_ok [OF inv] sample_key] by metis
  then show thesis
    using that [of "s\<lparr>gg_group := set_node A n (gg_group s)\<rparr>"] gc_step.run by fastforce
qed

end

text \<open>Cleaning goes as far as deleting slots.\<close>

lemma sample_cleaned:
  "\<exists>s. gc_reachable mem_leveldb map_of ''a'' [''a'', ''b''] s \<and>
     ReadSlot mem_leveldb (binlogger (gr_node (gg_group s) ''b'')) 0 = Inr None \<and>
     log_length (gr_node (gg_group s) ''a'') = 4"
proof -
  let ?M = "[''a'', ''b'']"
  have inv0: "gc_inv map_of ''a'' ?M sample_gc" by (rule mem.gc_reachable_inv [OF sample_gc_reachable])
  obtain s1 where s1: "(gc_step mem_leveldb ''a'' ?M)\<^sup>*\<^sup>* sample_gc s1"
    "log_length (gr_node (gg_group s1) ''a'') = log_length (gr_node (gg_group sample_gc) ''a'') + 1"
    by (rule mem.one_more_call [OF inv0])
  have inv1: "gc_inv map_of ''a'' ?M s1" by (rule mem.gc_inv_runs [OF s1(1) inv0])
  obtain s2 where s2: "(gc_step mem_leveldb ''a'' ?M)\<^sup>*\<^sup>* s1 s2"
    "log_length (gr_node (gg_group s2) ''a'') = log_length (gr_node (gg_group s1) ''a'') + 1"
    by (rule mem.one_more_call [OF inv1])
  have inv2: "gc_inv map_of ''a'' ?M s2" by (rule mem.gc_inv_runs [OF s2(1) inv1])
  have "log_length (gr_node (gg_group s2) ''a'') = 3"
    using s1(2) s2(2) sample_group_length by (simp add: sample_gc_def)
  then obtain s3 where s3: "(gc_step mem_leveldb ''a'' ?M)\<^sup>*\<^sup>* s2 s3" "(''b'', 1) \<in> gg_tasks s3"
    "log_length (gr_node (gg_group s3) ''a'') = 4"
    using mem.gc_reclaims_rel [OF inv2 _ sample_key mem.short_call_ok [OF inv2]] by auto
  let ?s4 = "s3\<lparr>gg_group := set_node ''b'' (DelBinlog mem_leveldb (gr_node (gg_group s3) ''b'') 1) (gg_group s3)\<rparr>"
  have "gc_step mem_leveldb ''a'' ?M s3 ?s4" by (rule gc_step.delete [OF s3(2)])
  then have "gc_reachable mem_leveldb map_of ''a'' ?M ?s4"
    using gc_reachable_runs [OF s3(1) gc_reachable_runs [OF s2(1) gc_reachable_runs [OF s1(1) sample_gc_reachable]]]
    by (rule gc_next [rotated])
  moreover have "map_of (mem_gc d 1) (IntToString 0) = None" for d
    by (auto simp: mem_gc_def map_of_eq_None_iff)
  then have "ReadSlot mem_leveldb (RemoveSlotBefore mem_leveldb b 1) 0 = Inr None" for b
    by (simp add: ReadSlot_def RemoveSlotBefore_def mem_leveldb_def mem_get_def)
  ultimately show ?thesis using s3(3) by (intro exI [of _ ?s4]) (simp add: DelBinlog_simps)
qed

text \<open>A call of a client, brought to rest: its slot is committed.\<close>

lemma sample_committed:
  "\<exists>s e. gc_reachable mem_leveldb map_of ''a'' [''a'', ''b''] s \<and> 1 \<le> commit_index (gr_node (gg_group s) ''a'') \<and>
     ReadSlot mem_leveldb (binlogger (gr_node (gg_group s) ''a'')) 1 = Inr (Some e)"
proof -
  let ?M = "[''a'', ''b'']"
  have inv0: "gc_inv map_of ''a'' ?M sample_gc" by (rule mem.gc_reachable_inv [OF sample_gc_reachable])
  obtain s1 where s1: "(gc_step mem_leveldb ''a'' ?M)\<^sup>*\<^sup>* sample_gc s1"
    "log_length (gr_node (gg_group s1) ''a'') = 2"
    using mem.one_more_call [OF inv0] sample_group_length by (auto simp: sample_gc_def)
  have inv1: "gc_inv map_of ''a'' ?M s1" by (rule mem.gc_inv_runs [OF s1(1) inv0])
  obtain g where g: "(group_step mem_leveldb ''a'' ?M)\<^sup>*\<^sup>* (gg_group s1) g" "last_applied_index (gr_node g ''a'') = 1"
    using mem.group_converges [of "''a''" ?M "gg_group s1"] inv1 s1(2) by (auto simp: gc_inv_def)
  have runs: "(gc_step mem_leveldb ''a'' ?M)\<^sup>*\<^sup>* sample_gc (s1\<lparr>gg_group := g\<rparr>)"
    using s1(1) mem.gc_runs_group [OF g(1)] by (rule rtranclp_trans)
  obtain lo log where inv: "group_inv map_of lo ''a'' ?M log g"
    using mem.gc_inv_runs [OF runs inv0] by (auto simp: gc_inv_def led_def)
  note srv = group_inv_parts(6) [OF inv, of "''a''"]
  have "1 \<le> commit_index (gr_node g ''a'')" "1 < int (length (log ''a''))" "lo \<le> 1"
    using srv g(2) by (simp_all add: server_ok_def)
  moreover from this have "\<exists>e. ReadSlot mem_leveldb (binlogger (gr_node g ''a'')) 1 = Inr (Some e)"
    using server_ok_read [OF mem.leveldb_available_axioms srv] by fastforce
  ultimately show ?thesis using gc_reachable_runs [OF runs sample_gc_reachable] by (intro exI [of _ "s1\<lparr>gg_group := g\<rparr>"]) auto
qed

section \<open>Properties\<close>

text \<open>
  C2: State machine safety under one leader, with the logs cleaned. In every reachable state, with
  all threads, calls and deletions interleaved, there is one slot from which on every server keeps
  its log; no server's position is before it. Every server's log is a prefix of the leader's, its
  data store is the applied prefix of that log up to its position (one entry further between
  applying and acknowledging), and nobody's position is beyond the leader's commit index.
\<close>

theorem gc_state_machine:
  assumes "leveldb_available L content" and "gc_reachable L content A M s"
  shows "\<exists>lo log. binlog_rel content lo (binlogger (gr_node (gg_group s) A)) log \<and>
    (\<forall>a \<in> set M. (\<exists>k. binlog_rel content lo (binlogger (gr_node (gg_group s) a)) (take k log)) \<and>
       lo \<le> max 0 (last_applied_index (gr_node (gg_group s) a)) \<and>
       last_applied_index (gr_node (gg_group s) a) \<le> commit_index (gr_node (gg_group s) A) \<and>
       store_rel content (data_store (gr_node (gg_group s) a))
         (fold apply_spec (take (nat (last_applied_index (gr_node (gg_group s) a) + 1) +
            (if gr_applied (gg_group s) a then 1 else 0)) log) (\<lambda>_. None)))"
proof -
  obtain lo log where inv: "group_inv content lo A M log (gg_group s)"
    using leveldb_available.gc_reachable_inv [OF assms] by (auto simp: gc_inv_def led_def)
  have "binlog_rel content lo (binlogger (gr_node (gg_group s) A)) (log A)"
    using group_inv_log [OF inv] by simp
  then show ?thesis using leveldb_available.group_inv_state_machine [OF assms(1) inv] by blast
qed

theorem gc_state_machine_witness:
  "\<exists>(s :: mem_db gc_group) lo log. ReadSlot mem_leveldb (binlogger (gr_node (gg_group s) ''b'')) 0 = Inr None \<and>
     binlog_rel map_of lo (binlogger (gr_node (gg_group s) ''a'')) log \<and>
     (\<exists>k. binlog_rel map_of lo (binlogger (gr_node (gg_group s) ''b'')) (take k log)) \<and>
     lo \<le> max 0 (last_applied_index (gr_node (gg_group s) ''b''))"
proof -
  obtain s where s: "gc_reachable mem_leveldb map_of ''a'' [''a'', ''b''] s"
    "ReadSlot mem_leveldb (binlogger (gr_node (gg_group s) ''b'')) 0 = Inr None"
    using sample_cleaned by blast
  have "\<exists>lo log. binlog_rel map_of lo (binlogger (gr_node (gg_group s) ''a'')) log \<and>
      (\<exists>k. binlog_rel map_of lo (binlogger (gr_node (gg_group s) ''b'')) (take k log)) \<and>
      lo \<le> max 0 (last_applied_index (gr_node (gg_group s) ''b''))"
    using gc_state_machine [OF mem.leveldb_available_axioms s(1)] by (simp add: Bex_def) blast
  then show ?thesis using s(2) by blast
qed

text \<open>
  C11: No fault under one leader, with the logs cleaned. In every reachable state in which the
  leader's log has at most 2147483647 entries, the next operation of a replication thread succeeds
  wherever it stands (its thread does not exit, no slot it reads is missing although others are
  being deleted, no assertion of the follower's handler fails), and so does the commit thread's
  next application, whose \<open>int\<close> loop variable can still be incremented.
\<close>

theorem gc_no_fault:
  assumes "leveldb_available L content" and "gc_reachable L content A M s" and "a \<in> set M"
    and "g = gg_group s" and "log_length (gr_node g A) \<le> 2147483647"
  shows "(\<not> gr_applied g a \<and> last_applied_index (gr_node g a) < gr_end g a \<longrightarrow>
      loop_slot (gr_node g a) < 2147483647 \<and>
      (\<exists>n. CommitIndex_apply L (gr_node g a) (loop_slot (gr_node g a)) = Inr n)) \<and>
    (a \<noteq> A \<longrightarrow> (case gr_thread g a of
        Idle \<Rightarrow> \<exists>r. ReplicateLog_prepare L (gr_node g A) a (gr_ok g a) = Inr (gr_node g A, r) \<and> r \<noteq> ReplExit
      | Prepared c \<Rightarrow> \<exists>x. ReplicateLog_collect L (gr_node g A) c = Inr (Some x)
      | Called c mt req \<Rightarrow> \<exists>x. AppendEntries_check L (gr_node g a) req = Inr x
      | Checked c mt req \<Rightarrow> \<exists>x. AppendEntries_write L (gr_node g a) req = Inr x
      | _ \<Rightarrow> True))"
proof -
  obtain lo log where "group_inv content lo A M log g"
    using leveldb_available.gc_reachable_inv [OF assms(1,2)] assms(4) by (auto simp: gc_inv_def led_def)
  from leveldb_available.group_inv_no_fault [OF assms(1) this assms(3,5)] show ?thesis .
qed

theorem gc_no_fault_witness:
  "\<exists>r. ReplicateLog_prepare mem_leveldb (gr_node sample_group ''a'') ''b'' True =
     Inr (gr_node sample_group ''a'', r) \<and> r \<noteq> ReplExit"
proof -
  have "gr_thread sample_group ''b'' = Idle" "gr_ok sample_group ''b'' = True"
    "sample_group = gg_group sample_gc"
    by (simp_all add: sample_group_def sample_gc_def)
  then show ?thesis
    using gc_no_fault [OF mem.leveldb_available_axioms sample_gc_reachable, of "''b''" "sample_group"]
      sample_group_length
    by simp
qed

text \<open>
  C6: Everything logged gets applied everywhere. From every reachable state of a cluster of at
  least two servers whose leader stays and has at most 2147483647 entries in its log, whatever
  calls are under way or lost and whatever was deleted, there is a way on, without another call of
  a client, after which every server has the leader's whole log and has applied all of it, and
  nothing more was logged.
\<close>

theorem gc_convergence:
  assumes "leveldb_available L content" and "gc_reachable L content A M s" and "2 \<le> length M"
    and "log_length (gr_node (gg_group s) A) \<le> 2147483647"
  shows "\<exists>g. (group_step L A M)\<^sup>*\<^sup>* (gg_group s) g \<and> (gc_step L A M)\<^sup>*\<^sup>* s (s\<lparr>gg_group := g\<rparr>) \<and>
    (\<forall>a \<in> set M. log_length (gr_node g a) = log_length (gr_node (gg_group s) A) \<and>
       last_applied_index (gr_node g a) = log_length (gr_node (gg_group s) A) - 1)"
proof -
  have "led content A M (gg_group s)" "sync_inv A M (gr_node (gg_group s) A) (gr_thread (gg_group s))"
    using leveldb_available.gc_reachable_inv [OF assms(1,2)] assms(3) by (auto simp: gc_inv_def)
  from leveldb_available.group_converges [OF assms(1) this(1) assms(3) this(2) assms(4)] show ?thesis
    using leveldb_available.gc_runs_group [OF assms(1)] by blast
qed

theorem gc_convergence_witness:
  "\<exists>(s :: mem_db gc_group) g. ReadSlot mem_leveldb (binlogger (gr_node (gg_group s) ''b'')) 0 = Inr None \<and>
     (group_step mem_leveldb ''a'' [''a'', ''b''])\<^sup>*\<^sup>* (gg_group s) g \<and>
     last_applied_index (gr_node g ''b'') = log_length (gr_node (gg_group s) ''a'') - 1"
proof -
  obtain s where s: "gc_reachable mem_leveldb map_of ''a'' [''a'', ''b''] s"
    "ReadSlot mem_leveldb (binlogger (gr_node (gg_group s) ''b'')) 0 = Inr None"
    "log_length (gr_node (gg_group s) ''a'') = 4"
    using sample_cleaned by blast
  have "\<exists>g. (group_step mem_leveldb ''a'' [''a'', ''b''])\<^sup>*\<^sup>* (gg_group s) g \<and>
      last_applied_index (gr_node g ''b'') = log_length (gr_node (gg_group s) ''a'') - 1"
    using gc_convergence [OF mem.leveldb_available_axioms s(1)] s(3) by auto
  then show ?thesis using s(2) by blast
qed

text \<open>
  C7: An answered \<open>Put\<close> is durable and visible. In a cluster whose leader stays, whenever the leader
  comes to answer a \<open>Put\<close> it accepted, whatever happened and was deleted in between, the caller
  gets success, a majority of the servers hold the entry at the call's slot, and a \<open>Get\<close> on the
  leader at that moment returns the value.
\<close>

theorem gc_put_answered:
  assumes "leveldb_available L content" and "gc_reachable L content A M s"
    and "Put L (gr_node (gg_group s) A) c k v = Inr (Inr (n, es))"
    and "entry_ok (call_entry (gr_node (gg_group s) A) kLockOp k v)" and "k \<noteq> tag_last_applied_index"
    and "(gc_step L A M)\<^sup>*\<^sup>* (s\<lparr>gg_group := set_node A n (gg_group s)\<rparr>) s'"
    and "gr_applied (gg_group s') A"
    and "last_applied_index (gr_node (gg_group s') A) + 1 = log_length (gr_node (gg_group s) A)"
    and "CommitIndex_ack L (gr_node (gg_group s') A) (log_length (gr_node (gg_group s) A)) = (n', es')"
  shows "{SetSuccess c, RunDone (Some c)} \<subseteq> set es' \<and>
    majority M {a \<in> set M. ReadSlot L (binlogger (gr_node (gg_group s') a)) (log_length (gr_node (gg_group s) A)) =
      Inr (Some (call_entry (gr_node (gg_group s) A) kPutOp k v))} \<and>
    Get L n' k = Inr (Some \<lparr>gr_hit = True, gr_success = True, gr_value = v, gr_leader_id = A\<rparr>)"
proof -
  have inv: "gc_inv content A M s" by (rule leveldb_available.gc_reachable_inv [OF assms(1,2)])
  have "client_call L (gr_node (gg_group s) A) n" unfolding client_call_def using assms(3-5) by blast
  then have "gc_inv content A M (s\<lparr>gg_group := set_node A n (gg_group s)\<rparr>)"
    using leveldb_available.gc_step_inv [OF assms(1) gc_step.run [OF group_step.client] inv] by blast
  note kept = leveldb_available.gc_promised_run [OF assms(1,6) this, THEN conjunct2]
  show ?thesis
    by (rule leveldb_available.put_answered_rel [OF assms(1) _ _ assms(3-5) kept assms(7-9)])
      (use inv in \<open>simp_all add: gc_inv_def\<close>)
qed

theorem gc_put_answered_witness:
  "\<exists>s n' es'. CommitIndex_ack mem_leveldb (gr_node (gg_group s) ''a'') 1 = (n', es') \<and> SetSuccess 7 \<in> set es' \<and>
     gc_reachable mem_leveldb map_of ''a'' [''a'', ''b''] s \<and>
     Get mem_leveldb n' ''k'' =
       Inr (Some \<lparr>gr_hit = True, gr_success = True, gr_value = ''v'', gr_leader_id = ''a''\<rparr>)"
proof -
  let ?g = "sample_group" and ?M = "[''a'', ''b'']"
  obtain n g1 where p: "Put mem_leveldb (gr_node ?g ''a'') 7 ''k'' ''v'' = Inr (Inr (n, [BroadcastReplica]))"
    and run: "(group_step mem_leveldb ''a'' ?M)\<^sup>*\<^sup>* (set_node ''a'' n ?g) g1" "gr_applied g1 ''a''"
      "last_applied_index (gr_node g1 ''a'') + 1 = log_length (gr_node ?g ''a'')"
    using mem.put_completes [OF mem.group_reachable_led [OF sample_group_reachable] _
        mem.group_reachable_sync [OF sample_group_reachable] sample_put sample_key, of 7]
      sample_group_length by auto
  obtain n' es' where ack: "CommitIndex_ack mem_leveldb (gr_node g1 ''a'') (log_length (gr_node ?g ''a'')) = (n', es')"
    by fastforce
  let ?s = "sample_gc\<lparr>gg_group := set_node ''a'' n ?g\<rparr>" and ?s1 = "sample_gc\<lparr>gg_group := g1\<rparr>"
  have g: "gg_group sample_gc = ?g" by (simp add: sample_gc_def)
  have steps: "(gc_step mem_leveldb ''a'' ?M)\<^sup>*\<^sup>* ?s ?s1"
    using mem.gc_runs_group [of "''a''" ?M ?s g1] run(1) by simp
  have "client_call mem_leveldb (gr_node ?g ''a'') n"
    unfolding client_call_def using p sample_put sample_key by blast
  then have "gc_step mem_leveldb ''a'' ?M sample_gc ?s"
    using gc_step.run [of mem_leveldb "''a''" ?M sample_gc] group_step.client [of mem_leveldb ?g] g by simp
  then have "gc_reachable mem_leveldb map_of ''a'' ?M ?s1"
    using gc_reachable_runs [OF steps] gc_next [OF sample_gc_reachable] by blast
  then show ?thesis
    using gc_put_answered [OF mem.leveldb_available_axioms sample_gc_reachable, unfolded g,
        OF p sample_put sample_key steps] run(2,3) ack sample_group_length
    by (intro exI [of _ ?s1]) auto
qed

text \<open>
  C5: What is committed stays. In a cluster whose leader stays, take a slot that is committed in a
  reachable state, with the entry the leader reads there, and any run from that state on, with
  calls, losses and log cleaning in any order. Afterwards the slot is still committed, and either
  the leader and a majority of the servers read that entry at the slot, or every server has
  applied it and is past it (only then may its log be cleaned of it). Excepted is a state in which
  nothing but the first slot is committed.
\<close>

theorem stable_commit_durable:
  assumes "leveldb_available L content" and "gc_reachable L content A M s"
    and "0 < commit_index (gr_node (gg_group s) A)"
    and "0 \<le> i" and "i \<le> commit_index (gr_node (gg_group s) A)"
    and "ReadSlot L (binlogger (gr_node (gg_group s) A)) i = Inr (Some e)"
    and "(gc_step L A M)\<^sup>*\<^sup>* s s'"
  shows "i \<le> commit_index (gr_node (gg_group s') A) \<and>
    ((\<forall>a \<in> set M. i < last_applied_index (gr_node (gg_group s') a)) \<or>
     ReadSlot L (binlogger (gr_node (gg_group s') A)) i = Inr (Some e) \<and>
     majority M {a \<in> set M. ReadSlot L (binlogger (gr_node (gg_group s') a)) i = Inr (Some e)})"
  using leveldb_available.committed_stays [OF assms(1) leveldb_available.gc_reachable_inv [OF assms(1,2)] assms(3-7)]
  by blast

theorem stable_commit_durable_witness:
  "\<exists>(s :: mem_db gc_group) e. gc_reachable mem_leveldb map_of ''a'' [''a'', ''b''] s \<and>
     ReadSlot mem_leveldb (binlogger (gr_node (gg_group s) ''a'')) 1 = Inr (Some e) \<and>
     1 \<le> commit_index (gr_node (gg_group s) ''a'') \<and>
     ((\<forall>a \<in> set [''a'', ''b'']. 1 < last_applied_index (gr_node (gg_group s) a)) \<or>
      majority [''a'', ''b'']
        {a \<in> set [''a'', ''b'']. ReadSlot mem_leveldb (binlogger (gr_node (gg_group s) a)) 1 = Inr (Some e)})"
proof -
  obtain s e where s: "gc_reachable mem_leveldb map_of ''a'' [''a'', ''b''] s"
    "1 \<le> commit_index (gr_node (gg_group s) ''a'')"
    "ReadSlot mem_leveldb (binlogger (gr_node (gg_group s) ''a'')) 1 = Inr (Some e)"
    using sample_committed by blast
  then show ?thesis
    using stable_commit_durable [OF mem.leveldb_available_axioms s(1) _ _ s(2,3) rtranclp.rtrancl_refl] by auto
qed

text \<open>
  C8: A \<open>Put\<close> gets answered and reaches everyone. In every reachable state of a cluster of at least
  two servers whose leader stays and has less than 2147483647 entries in its log, with its logs
  cleaned along the way, the leader accepts a \<open>Put\<close> (of an entry that the log can hold, under any
  key but the reserved one), and there is a way on to the moment it answers the caller with
  success, and from there to a state in which every server's data store has the value under the
  key.
\<close>

theorem put_reaches_all:
  assumes "leveldb_available L content" and "gc_reachable L content A M s" and "2 \<le> length M"
    and "entry_ok (call_entry (gr_node (gg_group s) A) kLockOp k v)" and "k \<noteq> tag_last_applied_index"
    and "log_length (gr_node (gg_group s) A) < 2147483647"
  shows "\<exists>n s1 s2. Put L (gr_node (gg_group s) A) c k v = Inr (Inr (n, [BroadcastReplica])) \<and>
    (gc_step L A M)\<^sup>*\<^sup>* (s\<lparr>gg_group := set_node A n (gg_group s)\<rparr>) s1 \<and>
    gr_applied (gg_group s1) A \<and>
    last_applied_index (gr_node (gg_group s1) A) + 1 = log_length (gr_node (gg_group s) A) \<and>
    {SetSuccess c, RunDone (Some c)} \<subseteq>
      set (snd (CommitIndex_ack L (gr_node (gg_group s1) A) (log_length (gr_node (gg_group s) A)))) \<and>
    (gc_step L A M)\<^sup>*\<^sup>* s1 s2 \<and>
    (\<forall>a \<in> set M. StorageKV_Get L (data_store (gr_node (gg_group s2) a)) k = (0, Some (type_and_value kPutOp v)))"
  using leveldb_available.gc_put_completes
    [OF assms(1) leveldb_available.gc_reachable_inv [OF assms(1,2)] assms(3-6), of c] by blast

theorem put_reaches_all_witness:
  "\<exists>(s :: mem_db gc_group) n s2. ReadSlot mem_leveldb (binlogger (gr_node (gg_group s) ''b'')) 0 = Inr None \<and>
     Put mem_leveldb (gr_node (gg_group s) ''a'') 7 ''k'' ''v'' = Inr (Inr (n, [BroadcastReplica])) \<and>
     (gc_step mem_leveldb ''a'' [''a'', ''b''])\<^sup>*\<^sup>* (s\<lparr>gg_group := set_node ''a'' n (gg_group s)\<rparr>) s2 \<and>
     StorageKV_Get mem_leveldb (data_store (gr_node (gg_group s2) ''b'')) ''k'' = (0, Some (type_and_value kPutOp ''v''))"
proof -
  obtain s where s: "gc_reachable mem_leveldb map_of ''a'' [''a'', ''b''] s"
    "ReadSlot mem_leveldb (binlogger (gr_node (gg_group s) ''b'')) 0 = Inr None"
    "log_length (gr_node (gg_group s) ''a'') = 4"
    using sample_cleaned by blast
  obtain n s1 s2 where "Put mem_leveldb (gr_node (gg_group s) ''a'') 7 ''k'' ''v'' =
       Inr (Inr (n, [BroadcastReplica]))"
    "(gc_step mem_leveldb ''a'' [''a'', ''b''])\<^sup>*\<^sup>* (s\<lparr>gg_group := set_node ''a'' n (gg_group s)\<rparr>) s1"
    "(gc_step mem_leveldb ''a'' [''a'', ''b''])\<^sup>*\<^sup>* s1 s2"
    "StorageKV_Get mem_leveldb (data_store (gr_node (gg_group s2) ''b'')) ''k'' = (0, Some (type_and_value kPutOp ''v''))"
    using put_reaches_all [OF mem.leveldb_available_axioms s(1) _
        mem.short_call_ok [OF mem.gc_reachable_inv [OF s(1)]] sample_key, of 7] s(3) by auto
  then show ?thesis using s(2) by (meson rtranclp_trans)
qed

text \<open>
  C15: Cleaning catches up. From every reachable state of a cluster of at least two servers whose
  leader stays and has less than 2147483647 entries in its log, the leader can accept another call
  (of an entry that the log can hold, under any key but the reserved one), and there is a way on after which every server has the task to delete all but the last slot
  the leader had and the one before it.
\<close>

theorem gc_reclaims:
  assumes "leveldb_available L content" and "gc_reachable L content A M s" and "2 \<le> length M"
    and "k \<noteq> tag_last_applied_index"
    and "entry_ok (call_entry (gr_node (gg_group s) A) kLockOp k v)"
    and "log_length (gr_node (gg_group s) A) < 2147483647"
  shows "\<exists>s'. (gc_step L A M)\<^sup>*\<^sup>* s s' \<and>
    (\<forall>a \<in> set M. (a, log_length (gr_node (gg_group s) A) - 2) \<in> gg_tasks s')"
  using leveldb_available.gc_reclaims_rel [OF assms(1) leveldb_available.gc_reachable_inv [OF assms(1,2)] assms(3-6)]
  by blast

theorem gc_reclaims_witness:
  "\<exists>(s :: mem_db gc_group) s'. ReadSlot mem_leveldb (binlogger (gr_node (gg_group s) ''b'')) 0 = Inr None \<and>
     (gc_step mem_leveldb ''a'' [''a'', ''b''])\<^sup>*\<^sup>* s s' \<and>
     (''b'', log_length (gr_node (gg_group s) ''a'') - 2) \<in> gg_tasks s'"
proof -
  obtain s where s: "gc_reachable mem_leveldb map_of ''a'' [''a'', ''b''] s"
    "ReadSlot mem_leveldb (binlogger (gr_node (gg_group s) ''b'')) 0 = Inr None"
    "log_length (gr_node (gg_group s) ''a'') = 4"
    using sample_cleaned by blast
  have bound: "log_length (gr_node (gg_group s) ''a'') < 2147483647" by (simp add: s(3))
  have "\<exists>s'. (gc_step mem_leveldb ''a'' [''a'', ''b''])\<^sup>*\<^sup>* s s' \<and>
     (''b'', log_length (gr_node (gg_group s) ''a'') - 2) \<in> gg_tasks s'"
    using gc_reclaims [OF mem.leveldb_available_axioms s(1) _ sample_key
        mem.short_call_ok [OF mem.gc_reachable_inv [OF s(1)]] bound] by auto
  then show ?thesis using s(2) by blast
qed

end
