(* ===== verification/Simulator.thy ===== *)
theory Simulator
  imports ReplicationSpec ClientSpec
begin

text \<open>
  Runs of a whole cluster as programs: an event names the server or the message that moves next,
  and the simulator runs the handlers of the servers on it. Nothing is sent that no handler sends,
  a message arrives at most once and where it was sent, and no server restarts.
\<close>

section \<open>The state\<close>

text \<open>What is on the wire: calls and answers, with their senders and receivers.\<close>

datatype packet =
    VoteCall string string vote_request
  | VoteReturn string vote_response
  | BeatCall string string append_entries_request
  | BeatReturn string append_entries_response
  | AppendCall string string repl_ctx int append_entries_request
  | AppendReturn string string repl_ctx int append_entries_response

record 'db sim =
  sm_node :: "string \<Rightarrow> 'db node"
  sm_wire :: "packet list"
  sm_tasks :: "(string \<times> string) list"   \<comment> \<open>tasks \<open>ReplicateLog\<close> that have not started\<close>
  sm_idle :: "(string \<times> string) list"    \<comment> \<open>\<open>ReplicateLog\<close> threads at the head of their loop\<close>
  sm_ok :: "string \<times> string \<Rightarrow> bool"      \<comment> \<open>their \<open>latest_replicating_ok\<close>\<close>
  sm_answered :: "call list"              \<comment> \<open>client calls answered with success\<close>

datatype event =
    Timeout string
  | Deliver nat
  | Lose nat
  | Begin string string
  | Turn string string
  | Beat string
  | ClientPut string call string string
  | ClientDelete string call string
  | ClientLock string call string
  | ClientUnLock string call string
  | Commit string

section \<open>The events\<close>

definition put_node :: "string \<Rightarrow> 'db node \<Rightarrow> 'db sim \<Rightarrow> 'db sim" where
  "put_node a n s = s\<lparr>sm_node := (sm_node s)(a := n)\<rparr>"

definition sim_send :: "packet list \<Rightarrow> 'db sim \<Rightarrow> 'db sim" where
  "sim_send ps s = s\<lparr>sm_wire := sm_wire s @ ps\<rparr>"

fun calls_of :: "string \<Rightarrow> effect list \<Rightarrow> packet list" where
  "calls_of a [] = []"
| "calls_of a (AsyncVote b r # es) = VoteCall a b r # calls_of a es"
| "calls_of a (AsyncAppend b r # es) = BeatCall a b r # calls_of a es"
| "calls_of a (e # es) = calls_of a es"

fun tasks_of :: "string \<Rightarrow> effect list \<Rightarrow> (string \<times> string) list" where
  "tasks_of a [] = []"
| "tasks_of a (AddReplicateLog b # es) = (a, b) # tasks_of a es"
| "tasks_of a (e # es) = tasks_of a es"

fun successes_of :: "effect list \<Rightarrow> call list" where
  "successes_of [] = []"
| "successes_of (SetSuccess c # es) = c # successes_of es"
| "successes_of (e # es) = successes_of es"

text \<open>The new state of a server, and what its handler does besides.\<close>

definition sim_moves :: "string \<Rightarrow> 'db node \<times> effect list \<Rightarrow> 'db sim \<Rightarrow> 'db sim" where
  "sim_moves a r s =
     (case r of (n, es) \<Rightarrow>
        put_node a n (s\<lparr>sm_wire := sm_wire s @ calls_of a es, sm_tasks := sm_tasks s @ tasks_of a es,
          sm_answered := sm_answered s @ successes_of es\<rparr>))"

definition ok_of :: "'a res \<Rightarrow> 'a option" where
  "ok_of r = (case r of Inl f \<Rightarrow> None | Inr x \<Rightarrow> Some x)"

text \<open>A message arrives.\<close>

definition sim_digest ::
  "string \<Rightarrow> string \<Rightarrow> repl_ctx \<Rightarrow> int \<Rightarrow> append_entries_response option \<Rightarrow> 'db sim \<Rightarrow> 'db sim"
where
  "sim_digest a b c mt ret s =
     (case ReplicateLog_finish (sm_node s a) b c mt (sm_ok s (a, b)) ret of
        (n, lat, es, go) \<Rightarrow>
          (if go then (sim_moves a (n, es) s)\<lparr>sm_ok := (sm_ok s)((a, b) := lat), sm_idle := (a, b) # sm_idle s\<rparr>
           else sim_moves a (ReplicateLog_exit n b, es) s))"

fun sim_arrive :: "'db leveldb \<Rightarrow> packet \<Rightarrow> 'db sim \<Rightarrow> 'db sim option" where
  "sim_arrive L (VoteCall a b r) s =
     (case Vote (sm_node s b) r of
        (n, None) \<Rightarrow> Some (put_node b n s)
      | (n, Some res) \<Rightarrow> Some (sim_send [VoteReturn a res] (put_node b n s)))"
| "sim_arrive L (VoteReturn a res) s =
     map_option (\<lambda>r. sim_moves a r s) (ok_of (VoteCallBack L (sm_node s a) res False))"
| "sim_arrive L (BeatCall a b req) s =
     map_option (\<lambda>(n, es, res). sim_send [BeatReturn a res] (sim_moves b (n, es) s))
       (ok_of (AppendEntriesImpl L (sm_node s b) req))"
| "sim_arrive L (BeatReturn a res) s = Some (put_node a (HeartBeatCallBack (sm_node s a) res False) s)"
| "sim_arrive L (AppendCall a b c mt req) s =
     map_option (\<lambda>(n, es, res). sim_send [AppendReturn a b c mt res] (sim_moves b (n, es) s))
       (ok_of (AppendEntriesImpl L (sm_node s b) req))"
| "sim_arrive L (AppendReturn a b c mt res) s = Some (sim_digest a b c mt (Some res) s)"

text \<open>A message is lost: the caller of a synchronous call sees it fail.\<close>

fun sim_lose :: "packet \<Rightarrow> 'db sim \<Rightarrow> 'db sim" where
  "sim_lose (AppendCall a b c mt req) s = sim_digest a b c mt None s"
| "sim_lose (AppendReturn a b c mt res) s = sim_digest a b c mt None s"
| "sim_lose p s = s"

definition take_packet :: "nat \<Rightarrow> 'db sim \<Rightarrow> (packet \<times> 'db sim) option" where
  "take_packet k s =
     (if k < length (sm_wire s)
      then Some (sm_wire s ! k, s\<lparr>sm_wire := take k (sm_wire s) @ drop (Suc k) (sm_wire s)\<rparr>)
      else None)"

text \<open>
  One turn of a \<open>ReplicateLog\<close> thread up to its call; it ends when the server does not lead, or when
  a slot it needs is missing.
\<close>

definition sim_exit :: "string \<Rightarrow> string \<Rightarrow> 'db node \<Rightarrow> 'db sim \<Rightarrow> 'db sim" where
  "sim_exit a b n s = put_node a (ReplicateLog_exit n b) (s\<lparr>sm_idle := removeAll (a, b) (sm_idle s)\<rparr>)"

definition sim_turn :: "'db leveldb \<Rightarrow> string \<Rightarrow> string \<Rightarrow> 'db sim \<Rightarrow> 'db sim option" where
  "sim_turn L a b s =
     (if (a, b) \<notin> set (sm_idle s) then None
      else case ReplicateLog_prepare L (sm_node s a) b (sm_ok s (a, b)) of
        Inr (n, ReplSend c) \<Rightarrow>
          (case ReplicateLog_collect L n c of
             Inr (Some (req, mt)) \<Rightarrow>
               Some (sim_send [AppendCall a b c mt req]
                 (put_node a n (s\<lparr>sm_idle := removeAll (a, b) (sm_idle s)\<rparr>)))
           | Inr None \<Rightarrow> Some (sim_exit a b n s)
           | Inl f \<Rightarrow> None)
      | Inr (n, ReplWait) \<Rightarrow> Some (put_node a n s)
      | Inr (n, ReplExit) \<Rightarrow> Some (sim_exit a b n s)
      | Inl f \<Rightarrow> None)"

definition sim_call :: "string \<Rightarrow> 'db call_result \<Rightarrow> 'db sim \<Rightarrow> 'db sim option" where
  "sim_call a r s = (case r of Inr (Inr x) \<Rightarrow> Some (sim_moves a x s) | _ \<Rightarrow> None)"

fun sim_step :: "'db leveldb \<Rightarrow> event \<Rightarrow> 'db sim \<Rightarrow> 'db sim option" where
  "sim_step L (Timeout a) s = Some (sim_moves a (VoteLeader (sm_node s a) 0) s)"
| "sim_step L (Deliver k) s =
     (case take_packet k s of None \<Rightarrow> None | Some (p, s') \<Rightarrow> sim_arrive L p s')"
| "sim_step L (Lose k) s =
     (case take_packet k s of None \<Rightarrow> None | Some (p, s') \<Rightarrow> Some (sim_lose p s'))"
| "sim_step L (Begin a b) s =
     (if (a, b) \<in> set (sm_tasks s)
      then Some (put_node a (ReplicateLog_enter (sm_node s a) b)
        (s\<lparr>sm_tasks := remove1 (a, b) (sm_tasks s), sm_idle := (a, b) # sm_idle s,
           sm_ok := (sm_ok s)((a, b) := True)\<rparr>))
      else None)"
| "sim_step L (Turn a b) s = sim_turn L a b s"
| "sim_step L (Beat a) s = Some (sim_send (calls_of a (BroadCastHeartBeat 0 (sm_node s a))) s)"
| "sim_step L (ClientPut a c k v) s = sim_call a (Put L (sm_node s a) c k v) s"
| "sim_step L (ClientDelete a c k) s = sim_call a (Delete L (sm_node s a) c k) s"
| "sim_step L (ClientLock a c k) s = sim_call a (Lock L (sm_node s a) c k) s"
| "sim_step L (ClientUnLock a c k) s = sim_call a (UnLock L (sm_node s a) c k) s"
| "sim_step L (Commit a) s =
     map_option (\<lambda>r. sim_moves a r s) (ok_of (CommitIndex L (sm_node s a)))"

fun sim_run :: "'db leveldb \<Rightarrow> event list \<Rightarrow> 'db sim \<Rightarrow> 'db sim option" where
  "sim_run L [] s = Some s"
| "sim_run L (e # es) s = (case sim_step L e s of None \<Rightarrow> None | Some s' \<Rightarrow> sim_run L es s')"

definition sim_start :: "string list \<Rightarrow> mem_db sim" where
  "sim_start M = \<lparr>sm_node = (\<lambda>a. sample_node a M []), sm_wire = [], sm_tasks = [], sm_idle = [],
     sm_ok = (\<lambda>_. True), sm_answered = []\<rparr>"

end
