(* ===== verification/SimNetwork.thy ===== *)
theory SimNetwork
  imports Simulator Network
begin

text \<open>
  Every run of the simulator is a run of the network of all handlers: a packet is a message that was
  sent, and an event is a sequence of handlers of one server. So what holds in every reachable state
  of the network holds of the simulated runs.
\<close>

section \<open>The members\<close>

lemma SwitchToLeader_members: "SwitchToLeader L n = Inr (n', es) \<Longrightarrow> all_server_addr n' = all_server_addr n"
  using start_replica_loop_frame [of "n\<lparr>status := kLeader, cur_leader_addr := self_addr n\<rparr>" "all_server_addr n"]
  by (auto simp: SwitchToLeader_def StartReplicaLog_def Let_def bindE_eq_Inr case_prod_beta)

lemma handles_members:
  assumes "handles L n ins n' outs"
  shows "all_server_addr n' = all_server_addr n"
  using assms
proof cases
  case (timer d es b r)
  then show ?thesis by (auto simp: VoteLeader_def Let_def split: if_splits)
next
  case (quiet_timer d es)
  then show ?thesis by (auto simp: VoteLeader_def Let_def split: if_splits)
next
  case (vote r res)
  then show ?thesis by (auto simp: Vote_def Let_def case_prod_beta split: if_splits)
next
  case (callback res failed es)
  then show ?thesis by (auto simp: VoteCallBack_def Let_def dest: SwitchToLeader_members split: if_splits)
next
  case (answer req es res)
  then show ?thesis by (auto simp: AppendEntries_finish_def Let_def)
next
  case (commit_ack i es)
  then show ?thesis by (auto simp: CommitIndex_ack_eq)
next
  case (gc interval answers es b i)
  then show ?thesis by (auto simp: GarbageClean_def Let_def split: if_splits option.splits)
next
  case (quiet_gc interval answers es)
  then show ?thesis by (auto simp: GarbageClean_def Let_def split: if_splits option.splits)
next
  case (commit_apply i)
  then show ?thesis using CommitIndex_apply_steps_down by (auto simp: steps_down_def)
next
  case (digest addr c mt ok res ok' es go)
  then show ?thesis using ReplicateLog_finish_steps_down by (fastforce simp: steps_down_def)
next
  case (failure addr c mt ok ok' es go)
  then show ?thesis using ReplicateLog_finish_steps_down by (fastforce simp: steps_down_def)
qed (use HeartBeatCallBack_steps_down [of n] in \<open>auto simp: steps_down_def ReplicateLog_enter_def ReplicateLog_exit_def DelBinlog_def
    dest!: AppendEntries_check_steps_down AppendEntries_write_steps_down ReplicateLog_prepare_steps_down
      client_call_steps_down\<close>)

lemma net_members: "net_reachable L M t \<Longrightarrow> a \<in> set M \<Longrightarrow> all_server_addr (nt_node t a) = M"
proof (induction rule: net_reachable.induct)
  case (start s)
  then show ?case by (blast dest: AirDBImpl_init_state(2))
next
  case (step s b ins n' outs)
  then show ?case using handles_members [OF step.hyps(4)] by auto
qed

section \<open>The relation\<close>

fun packet_sent :: "string set \<Rightarrow> message set \<Rightarrow> packet \<Rightarrow> bool" where
  "packet_sent A S (VoteCall a b r) \<longleftrightarrow> a \<in> A \<and> b \<in> A \<and> VoteRequest r \<in> S"
| "packet_sent A S (VoteReturn a r) \<longleftrightarrow> a \<in> A \<and> VoteResponse r \<in> S"
| "packet_sent A S (BeatCall a b r) \<longleftrightarrow> a \<in> A \<and> b \<in> A \<and> AppendRequest r \<in> S"
| "packet_sent A S (BeatReturn a r) \<longleftrightarrow> a \<in> A \<and> AppendResponse r \<in> S"
| "packet_sent A S (AppendCall a b c mt r) \<longleftrightarrow> a \<in> A \<and> b \<in> A \<and> Context c \<in> S \<and> AppendRequest r \<in> S"
| "packet_sent A S (AppendReturn a b c mt r) \<longleftrightarrow> a \<in> A \<and> b \<in> A \<and> Context c \<in> S \<and> AppendResponse r \<in> S"

definition sim_rel :: "'db leveldb \<Rightarrow> string list \<Rightarrow> 'db sim \<Rightarrow> 'db net \<Rightarrow> bool" where
  "sim_rel L M s t \<longleftrightarrow>
     net_reachable L M t \<and> nt_node t = sm_node s \<and>
     (\<forall>p \<in> set (sm_wire s). packet_sent (set M) (nt_sent t) p) \<and>
     set (sm_tasks s) \<subseteq> set M \<times> set M \<and> set (sm_idle s) \<subseteq> set M \<times> set M"

lemma packet_sent_mono: "packet_sent A S p \<Longrightarrow> S \<subseteq> S' \<Longrightarrow> packet_sent A S' p"
  by (cases p) auto

lemma sim_rel_members: "sim_rel L M s t \<Longrightarrow> a \<in> set M \<Longrightarrow> all_server_addr (sm_node s a) = M"
  using net_members by (fastforce simp: sim_rel_def)

text \<open>A handler of one server; the rest of the simulator may forget messages and know new ones.\<close>

lemma sim_rel_handles:
  assumes "sim_rel L M s t" and "a \<in> set M" and "set ins \<subseteq> nt_sent t"
    and "handles L (sm_node s a) ins n outs"
  obtains t' where "sim_rel L M (put_node a n s) t'" and "nt_sent t' = nt_sent t \<union> set outs"
proof -
  let ?t = "t\<lparr>nt_node := (nt_node t)(a := n), nt_sent := nt_sent t \<union> set outs\<rparr>"
  have "net_reachable L M ?t"
    using assms by (intro net_reachable.step [where ins = ins]) (auto simp: sim_rel_def)
  then have "sim_rel L M (put_node a n s) ?t"
    using assms(1) by (auto simp: sim_rel_def put_node_def intro: packet_sent_mono)
  then show thesis by (rule that) simp
qed

lemma sim_rel_bag:
  assumes "sim_rel L M s t" and "sm_node s' = sm_node s"
    and "\<forall>p \<in> set (sm_wire s'). p \<in> set (sm_wire s) \<or> packet_sent (set M) (nt_sent t) p"
    and "set (sm_tasks s') \<union> set (sm_idle s') \<subseteq> set (sm_tasks s) \<union> set (sm_idle s) \<union> set M \<times> set M"
  shows "sim_rel L M s' t"
  using assms unfolding sim_rel_def by (metis (no_types, lifting) Un_absorb1 Un_subset_iff)

lemma put_node_put [simp]: "put_node a n' (put_node a n s) = put_node a n' s"
  by (simp add: put_node_def)

lemma put_node_simps [simp]:
  "sm_node (put_node a n s) = (sm_node s)(a := n)" "sm_wire (put_node a n s) = sm_wire s"
  "sm_tasks (put_node a n s) = sm_tasks s" "sm_idle (put_node a n s) = sm_idle s"
  by (simp_all add: put_node_def)

lemma calls_of_sent:
  assumes "\<forall>e \<in> set es. case e of AsyncVote b r \<Rightarrow> b \<in> A \<and> VoteRequest r \<in> S
      | AsyncAppend b r \<Rightarrow> b \<in> A \<and> AppendRequest r \<in> S | _ \<Rightarrow> True" and "a \<in> A"
  shows "\<forall>p \<in> set (calls_of a es). packet_sent A S p"
  using assms by (induction a es rule: calls_of.induct) auto

lemma tasks_of_members: "(\<forall>b. AddReplicateLog b \<in> set es \<longrightarrow> b \<in> A) \<Longrightarrow> a \<in> A \<Longrightarrow> set (tasks_of a es) \<subseteq> A \<times> A"
  by (induction a es rule: tasks_of.induct) auto

text \<open>What the effects of a handler may say when it has run on a member.\<close>

definition effects_ok :: "string set \<Rightarrow> message set \<Rightarrow> effect list \<Rightarrow> bool" where
  "effects_ok A S es \<longleftrightarrow>
     (\<forall>e \<in> set es. case e of AsyncVote b r \<Rightarrow> b \<in> A \<and> VoteRequest r \<in> S
        | AsyncAppend b r \<Rightarrow> b \<in> A \<and> AppendRequest r \<in> S | AddReplicateLog b \<Rightarrow> b \<in> A | _ \<Rightarrow> True)"

lemma effects_ok_Nil [simp]: "effects_ok A S []"
  by (simp add: effects_ok_def)

lemma effects_okD:
  assumes "effects_ok A S es" and "a \<in> A"
  shows "\<forall>p \<in> set (calls_of a es). packet_sent A S p" and "set (tasks_of a es) \<subseteq> A \<times> A"
proof -
  have "\<forall>e \<in> set es. case e of AsyncVote b r \<Rightarrow> b \<in> A \<and> VoteRequest r \<in> S
      | AsyncAppend b r \<Rightarrow> b \<in> A \<and> AppendRequest r \<in> S | _ \<Rightarrow> True"
    using assms(1) unfolding effects_ok_def by (fastforce split: effect.splits)
  then show "\<forall>p \<in> set (calls_of a es). packet_sent A S p" using assms(2) by (rule calls_of_sent)
  show "set (tasks_of a es) \<subseteq> A \<times> A"
    using assms by (intro tasks_of_members) (fastforce simp: effects_ok_def)+
qed

lemma sim_rel_moves:
  assumes rel: "sim_rel L M (put_node a n s) t" and a: "a \<in> set M" and es: "effects_ok (set M) (nt_sent t) es"
  shows "sim_rel L M (sim_moves a (n, es) s) t"
  by (rule sim_rel_bag [OF rel])
    (use effects_okD [OF es a] in \<open>auto simp: sim_moves_def put_node_def\<close>)

lemma sim_rel_send:
  "sim_rel L M s t \<Longrightarrow> \<forall>p \<in> set ps. packet_sent (set M) (nt_sent t) p \<Longrightarrow> sim_rel L M (sim_send ps s) t"
  by (auto simp: sim_rel_def sim_send_def)

section \<open>The events\<close>

text \<open>An event whose server runs one handler.\<close>

lemma sim_rel_handler:
  assumes "sim_rel L M s t" and "a \<in> set M" and "set ins \<subseteq> nt_sent t"
    and "handles L (sm_node s a) ins n outs" and "effects_ok (set M) (nt_sent t \<union> set outs) es"
  shows "\<exists>t'. sim_rel L M (sim_moves a (n, es) s) t' \<and> nt_sent t' = nt_sent t \<union> set outs"
proof -
  obtain t' where t': "sim_rel L M (put_node a n s) t'" "nt_sent t' = nt_sent t \<union> set outs"
    by (rule sim_rel_handles [OF assms(1-4)])
  then show ?thesis using sim_rel_moves [OF t'(1) assms(2)] assms(5) by auto
qed

lemma sim_timeout:
  assumes rel: "sim_rel L M s t" and a: "a \<in> set M"
  shows "\<exists>t'. sim_rel L M (sim_moves a (VoteLeader (sm_node s a) d) s) t'"
proof -
  let ?n = "sm_node s a"
  obtain n es where run: "VoteLeader ?n d = (n, es)" by fastforce
  have m: "all_server_addr ?n = M" by (rule sim_rel_members [OF rel a])
  have same: "\<forall>e \<in> set es. case e of AsyncVote b r \<Rightarrow> b \<in> set M \<and> r = vote_request_of n
      | AsyncAppend b r \<Rightarrow> False | AddReplicateLog b \<Rightarrow> False | _ \<Rightarrow> True"
    using run m by (auto simp: VoteLeader_def Let_def LoopVoteLeader_def split: if_splits)
  show ?thesis
  proof (cases "\<exists>b r. AsyncVote b r \<in> set es")
    case True
    then obtain b where b: "AsyncVote b (vote_request_of n) \<in> set es" using same by force
    have ok: "effects_ok (set M) (nt_sent t \<union> set [VoteRequest (vote_request_of n)]) es"
      using same unfolding effects_ok_def by (force split: effect.splits)
    show ?thesis using sim_rel_handler [OF rel a _ handles.timer [OF run b] ok] run by auto
  next
    case False
    then have "effects_ok (set M) (nt_sent t \<union> set []) es"
      using same unfolding effects_ok_def by (force split: effect.splits)
    then show ?thesis using sim_rel_handler [OF rel a _ handles.quiet_timer [OF run]] run by auto
  qed
qed

lemma sim_beat:
  assumes rel: "sim_rel L M s t" and a: "a \<in> set M"
  shows "\<exists>t'. sim_rel L M (sim_send (calls_of a (BroadCastHeartBeat d (sm_node s a))) s) t'"
proof -
  let ?n = "sm_node s a"
  obtain t' where t': "sim_rel L M (put_node a ?n s) t'"
      "nt_sent t' = nt_sent t \<union> set [AppendRequest (heartbeat_request ?n)]"
    by (rule sim_rel_handles [OF rel a _ handles.heartbeat]) auto
  have same: "put_node a ?n s = s" by (simp add: put_node_def)
  have "effects_ok (set M) (nt_sent t') (BroadCastHeartBeat d ?n)"
    using sim_rel_members [OF rel a] t'(2) by (auto simp: effects_ok_def BroadCastHeartBeat_def)
  from effects_okD(1) [OF this a] show ?thesis using sim_rel_send t'(1) same by fastforce
qed

lemma sim_vote:
  assumes rel: "sim_rel L M s t" and p: "packet_sent (set M) (nt_sent t) (VoteCall a b r)"
    and run: "sim_arrive L (VoteCall a b r) s = Some s'"
  shows "\<exists>t'. sim_rel L M s' t'"
proof -
  have ab: "a \<in> set M" "b \<in> set M" "VoteRequest r \<in> nt_sent t" using p by auto
  obtain n res where v: "Vote (sm_node s b) r = (n, res)" by fastforce
  show ?thesis
  proof (cases res)
    case None
    then have "n = sm_node s b" using v by (auto simp: Vote_def Let_def case_prod_beta split: if_splits)
    then have "s' = s" using run v None by (simp add: put_node_def)
    then show ?thesis using rel by blast
  next
    case (Some x)
    obtain t' where t': "sim_rel L M (put_node b n s) t'" "nt_sent t' = nt_sent t \<union> set [VoteResponse x]"
      by (rule sim_rel_handles [OF rel ab(2) _ handles.vote [OF v [unfolded Some]]]) (use ab in auto)
    then show ?thesis using run v Some ab sim_rel_send [OF t'(1), of "[VoteReturn a x]"] by auto
  qed
qed

lemma SwitchToLeader_effects:
  assumes "SwitchToLeader L n = Inr (n', es)"
  shows "effects_ok (set (all_server_addr n)) S es"
proof -
  have "\<forall>e \<in> set (snd (start_replica_loop m addrs)). \<exists>b \<in> set addrs. e = AddReplicateLog b" for m addrs
    by (induction m addrs rule: start_replica_loop.induct) (auto simp: Let_def case_prod_beta)
  then show ?thesis
    using assms
    by (fastforce simp: SwitchToLeader_def StartReplicaLog_def Let_def bindE_eq_Inr case_prod_beta effects_ok_def)
qed

lemma VoteCallBack_effects:
  assumes "VoteCallBack L n res failed = Inr (n', es)"
  shows "effects_ok (set (all_server_addr n)) S es"
  using assms by (auto simp: VoteCallBack_def Let_def dest: SwitchToLeader_effects [where S = S] split: if_splits)

text \<open>The append handler runs in up to three parts.\<close>

lemma sim_append:
  assumes rel: "sim_rel L M s t" and b: "b \<in> set M" and req: "AppendRequest req \<in> nt_sent t"
    and run: "AppendEntriesImpl L (sm_node s b) req = Inr (n, es, res)"
  shows "\<exists>t'. sim_rel L M (sim_moves b (n, es) s) t' \<and> nt_sent t \<subseteq> nt_sent t' \<and> AppendResponse res \<in> nt_sent t'"
proof -
  obtain n1 reply where c: "AppendEntries_check L (sm_node s b) req = Inr (n1, reply)"
    using run by (auto simp: AppendEntriesImpl_def bindE_eq_Inr)
  show ?thesis
  proof (cases reply)
    case (Some r)
    then have n: "n = n1" "es = []" "r = res" using run c by (auto simp: AppendEntriesImpl_def)
    show ?thesis
      using sim_rel_handler [OF rel b _ handles.refuse [OF c [unfolded Some]], of "[]"] req
      by (auto simp: n effects_ok_def)
  next
    case None
    obtain n2 where w: "AppendEntries_write L n1 req = Inr n2" and f: "AppendEntries_finish n2 req = (n, es, res)"
      using run c None by (auto simp: AppendEntriesImpl_def bindE_eq_Inr)
    have ins: "set [AppendRequest req] \<subseteq> nt_sent t" using req by simp
    obtain t1 where t1: "sim_rel L M (put_node b n1 s) t1" "nt_sent t1 = nt_sent t \<union> set []"
      by (rule sim_rel_handles [OF rel b ins handles.accept [OF c [unfolded None]]])
    obtain t2 where t2: "sim_rel L M (put_node b n2 s) t2" "nt_sent t2 = nt_sent t"
      by (rule sim_rel_handles [OF t1(1) b, of "[AppendRequest req]" n2 "[]"])
        (use t1(2) req w in \<open>auto intro: handles.store\<close>)
    have es: "effects_ok (set M) S es" for S
      using f by (auto simp: AppendEntries_finish_def Let_def effects_ok_def split: if_splits)
    have "handles L (sm_node (put_node b n2 s) b) [AppendRequest req] n [AppendResponse res]"
      using handles.answer [OF f] by simp
    from sim_rel_handles [OF t2(1) b _ this] obtain t3 where
      "sim_rel L M (put_node b n s) t3" "nt_sent t3 = nt_sent t \<union> {AppendResponse res}"
      using t2(2) req by auto
    then show ?thesis using sim_rel_moves [OF _ b es] by fastforce
  qed
qed

lemma update_commit_effects:
  "update_commit_loop m i h k addrs = (m', es) \<Longrightarrow> \<forall>e \<in> set es. e = SignalCommit"
  by (induction m i h k addrs arbitrary: m' es rule: update_commit_loop.induct)
    (auto simp: Let_def split: prod.splits if_splits)

lemma ReplicateLog_finish_effects:
  "ReplicateLog_finish m a c mt lat ret = (m', lat', es, go) \<Longrightarrow> \<forall>e \<in> set es. e = SignalCommit"
  by (auto simp: ReplicateLog_finish_def UpdateCommitIndex_def Let_def dest: update_commit_effects
      split: if_splits option.splits prod.splits)

lemma sim_digest_rel:
  assumes rel: "sim_rel L M s t" and a: "a \<in> set M" and b: "b \<in> set M" and c: "Context c \<in> nt_sent t"
    and ret: "\<forall>res. ret = Some res \<longrightarrow> AppendResponse res \<in> nt_sent t"
  shows "\<exists>t'. sim_rel L M (sim_digest a b c mt ret s) t'"
proof -
  obtain n lat es go where run: "ReplicateLog_finish (sm_node s a) b c mt (sm_ok s (a, b)) ret = (n, lat, es, go)"
    using prod_cases4 by blast
  have "\<forall>e \<in> set es. e = SignalCommit" by (rule ReplicateLog_finish_effects [OF run])
  then have es: "effects_ok (set M) S es" for S by (auto simp: effects_ok_def)
  have h: "\<exists>ins. set ins \<subseteq> nt_sent t \<and> handles L (sm_node s a) ins n []"
  proof (cases ret)
    case None
    show ?thesis using handles.failure [OF run [unfolded None]] c by (intro exI [of _ "[Context c]"]) simp
  next
    case (Some res)
    show ?thesis using handles.digest [OF run [unfolded Some]] c ret Some
      by (intro exI [of _ "[Context c, AppendResponse res]"]) simp
  qed
  then obtain ins where ins: "set ins \<subseteq> nt_sent t" "handles L (sm_node s a) ins n []" by blast
  show ?thesis
  proof (cases go)
    case True
    obtain t' where t': "sim_rel L M (sim_moves a (n, es) s) t'"
      using sim_rel_handler [OF rel a ins es] by blast
    have "sim_rel L M ((sim_moves a (n, es) s)\<lparr>sm_ok := (sm_ok s)((a, b) := lat), sm_idle := (a, b) # sm_idle s\<rparr>) t'"
      by (rule sim_rel_bag [OF t']) (use a b in \<open>auto simp: sim_moves_def\<close>)
    then show ?thesis using True by (auto simp: sim_digest_def run)
  next
    case False
    obtain t1 where t1: "sim_rel L M (put_node a n s) t1" by (rule sim_rel_handles [OF rel a ins])
    obtain t2 where t2: "sim_rel L M (put_node a (ReplicateLog_exit n b) s) t2"
      by (rule sim_rel_handles [OF t1 a, of "[]"]) (auto intro: handles.exit)
    from sim_rel_moves [OF t2 a es] False show ?thesis by (auto simp: sim_digest_def run)
  qed
qed

lemma sim_arrive_rel:
  assumes rel: "sim_rel L M s t" and p: "packet_sent (set M) (nt_sent t) p" and run: "sim_arrive L p s = Some s'"
  shows "\<exists>t'. sim_rel L M s' t'"
proof (cases p)
  case (VoteCall a b r)
  then show ?thesis using sim_vote [OF rel] p run by blast
next
  case (VoteReturn a res)
  then obtain n es where c: "VoteCallBack L (sm_node s a) res False = Inr (n, es)" and s': "s' = sim_moves a (n, es) s"
    using run by (auto simp: ok_of_def split: sum.splits)
  have a: "a \<in> set M" "VoteResponse res \<in> nt_sent t" using p VoteReturn by auto
  show ?thesis
    using sim_rel_handler [OF rel a(1) _ handles.callback [OF c], of es] VoteCallBack_effects [OF c] a
      sim_rel_members [OF rel a(1)] by (auto simp: s')
next
  case (BeatCall a b req)
  then obtain n es res where c: "AppendEntriesImpl L (sm_node s b) req = Inr (n, es, res)"
    and s': "s' = sim_send [BeatReturn a res] (sim_moves b (n, es) s)"
    using run by (auto simp: ok_of_def split: sum.splits)
  have ab: "a \<in> set M" "b \<in> set M" "AppendRequest req \<in> nt_sent t" using p BeatCall by auto
  obtain t' where "sim_rel L M (sim_moves b (n, es) s) t'" "AppendResponse res \<in> nt_sent t'"
    using sim_append [OF rel ab(2,3) c] by blast
  then show ?thesis using sim_rel_send [of L M _ t' "[BeatReturn a res]"] ab by (auto simp: s')
next
  case (BeatReturn a res)
  have a: "a \<in> set M" "set [AppendResponse res] \<subseteq> nt_sent t" using p BeatReturn by auto
  obtain t' where "sim_rel L M (put_node a (HeartBeatCallBack (sm_node s a) res False) s) t'"
    by (rule sim_rel_handles [OF rel a handles.beat_answer])
  then show ?thesis using run BeatReturn by auto
next
  case (AppendCall a b c mt req)
  then obtain n es res where r: "AppendEntriesImpl L (sm_node s b) req = Inr (n, es, res)"
    and s': "s' = sim_send [AppendReturn a b c mt res] (sim_moves b (n, es) s)"
    using run by (auto simp: ok_of_def split: sum.splits)
  have ab: "a \<in> set M" "b \<in> set M" "AppendRequest req \<in> nt_sent t" "Context c \<in> nt_sent t"
    using p AppendCall by auto
  obtain t' where "sim_rel L M (sim_moves b (n, es) s) t'" "nt_sent t \<subseteq> nt_sent t'" "AppendResponse res \<in> nt_sent t'"
    using sim_append [OF rel ab(2,3) r] by blast
  then show ?thesis using sim_rel_send [of L M _ t' "[AppendReturn a b c mt res]"] ab by (auto simp: s')
next
  case (AppendReturn a b c mt res)
  then show ?thesis using sim_digest_rel [OF rel, of a b c "Some res"] p run by auto
qed

lemma sim_lose_rel:
  assumes rel: "sim_rel L M s t" and p: "packet_sent (set M) (nt_sent t) p"
  shows "\<exists>t'. sim_rel L M (sim_lose p s) t'"
  using sim_digest_rel [OF rel, of _ _ _ None] p rel by (cases p) auto

lemma put_node_more: "(put_node a n s)\<lparr>sm_idle := i\<rparr> = put_node a n (s\<lparr>sm_idle := i\<rparr>)"
  by (simp add: put_node_def)

lemma sim_exit_rel:
  assumes "sim_rel L M (put_node a n s) t" and "a \<in> set M"
  shows "\<exists>t'. sim_rel L M (sim_exit a b n s) t'"
proof -
  obtain t' where "sim_rel L M (put_node a (ReplicateLog_exit n b) s) t'"
    by (rule sim_rel_handles [OF assms, of "[]"]) (auto intro: handles.exit)
  from sim_rel_bag [OF this, of "sim_exit a b n s"] show ?thesis by (auto simp: sim_exit_def)
qed

lemma sim_turn_rel:
  assumes rel: "sim_rel L M s t" and run: "sim_turn L a b s = Some s'"
  shows "\<exists>t'. sim_rel L M s' t'"
proof -
  have ab: "a \<in> set M" "b \<in> set M" using rel run by (auto simp: sim_rel_def sim_turn_def split: if_splits)
  obtain n r where p: "ReplicateLog_prepare L (sm_node s a) b (sm_ok s (a, b)) = Inr (n, r)"
    using run by (auto simp: sim_turn_def split: if_splits sum.splits)
  obtain t1 where t1: "sim_rel L M (put_node a n s) t1"
    by (rule sim_rel_handles [OF rel ab(1), of "[]"]) (auto intro: handles.sleep [OF p])
  show ?thesis
  proof (cases r)
    case ReplExit
    then have "s' = sim_exit a b n s" using run p by (auto simp: sim_turn_def split: if_splits)
    then show ?thesis using sim_exit_rel [OF t1 ab(1)] by simp
  next
    case ReplWait
    then show ?thesis using run p t1 by (auto simp: sim_turn_def split: if_splits)
  next
    case (ReplSend c)
    obtain x where x: "ReplicateLog_collect L n c = Inr x"
      using run p ReplSend by (auto simp: sim_turn_def split: if_splits sum.splits)
    show ?thesis
    proof (cases x)
      case None
      then have "s' = sim_exit a b n s" using run p x ReplSend by (auto simp: sim_turn_def split: if_splits)
      then show ?thesis using sim_exit_rel [OF t1 ab(1)] by simp
    next
      case (Some y)
      obtain req mt where y: "y = (req, mt)" by fastforce
      let ?s = "put_node a n (s\<lparr>sm_idle := removeAll (a, b) (sm_idle s)\<rparr>)"
      have s': "s' = sim_send [AppendCall a b c mt req] ?s"
        using run p x ReplSend Some y by (auto simp: sim_turn_def split: if_splits)
      obtain t2 where t2: "sim_rel L M (put_node a n s) t2" "nt_sent t2 = nt_sent t \<union> set [Context c]"
        by (rule sim_rel_handles [OF rel ab(1) _ handles.prepare [OF p [unfolded ReplSend]]]) auto
      have "handles L (sm_node (put_node a n s) a) [Context c] n [AppendRequest req]"
        using handles.collect [of L n c req mt] x Some y by simp
      then obtain t3 where t3: "sim_rel L M (put_node a n s) t3"
          "nt_sent t3 = nt_sent t2 \<union> set [AppendRequest req]"
        by (rule sim_rel_handles [OF t2(1) ab(1), rotated]) (use t2 in simp_all)
      have "sim_rel L M ?s t3" by (rule sim_rel_bag [OF t3(1)]) auto
      then show ?thesis
        using sim_rel_send [of L M ?s t3 "[AppendCall a b c mt req]"] ab t2(2) t3(2) by (auto simp: s')
    qed
  qed
qed

lemma sim_commit_loop:
  assumes "commit_loop L n i e = Inr (n', es)" and "sim_rel L M (put_node a n s) t" and "a \<in> set M"
  shows "\<exists>t'. sim_rel L M (put_node a n' s) t' \<and> nt_sent t' = nt_sent t"
  using assms
proof (induction L n i e arbitrary: es n' t rule: commit_loop.induct)
  case (1 L n i e)
  show ?case
  proof (cases "i \<le> e")
    case False
    then show ?thesis using 1 by (auto simp: commit_loop.simps [of L n i e])
  next
    case True
    obtain n1 es1 n2 es2 where ap: "CommitIndex_apply L n i = Inr n1" and ak: "CommitIndex_ack L n1 i = (n2, es1)"
      and lp: "commit_loop L n2 (i + 1) e = Inr (n', es2)" and i: "i \<noteq> 2147483647"
      using 1(2) True
      by (auto simp: commit_loop.simps [of L n i e] CommitIndex_one_def bindE_eq_Inr split: if_splits)
    obtain t1 where t1: "sim_rel L M (put_node a n1 s) t1" "nt_sent t1 = nt_sent t"
      by (rule sim_rel_handles [OF 1(3,4), of "[]" n1 "[]"]) (auto intro: handles.commit_apply [OF ap])
    obtain t2 where t2: "sim_rel L M (put_node a n2 s) t2" "nt_sent t2 = nt_sent t"
      by (rule sim_rel_handles [OF t1(1) 1(4), of "[]" n2 "[]"]) (use t1(2) in \<open>auto intro: handles.commit_ack [OF ak]\<close>)
    show ?thesis using 1(1) [OF True i lp t2(1) 1(4)] t2(2) by auto
  qed
qed

lemma commit_loop_effects:
  "commit_loop L n i e = Inr (n', es) \<Longrightarrow> effects_ok A S es"
proof (induction L n i e arbitrary: es n' rule: commit_loop.induct)
  case (1 L n i e)
  have ack: "effects_ok A S es1" if "CommitIndex_one L n i = Inr (n1, es1)" for n1 es1
    using that by (auto simp: CommitIndex_one_def CommitIndex_ack_eq answers_at_def ack_effects_def effects_ok_def
        bindE_eq_Inr split: if_splits option.splits)
  show ?case
    using 1 ack by (auto simp: commit_loop.simps [of L n i e] bindE_eq_Inr effects_ok_def split: if_splits)
qed

lemma sim_commit_rel:
  assumes rel: "sim_rel L M s t" and a: "a \<in> set M" and run: "CommitIndex L (sm_node s a) = Inr (n, es)"
  shows "\<exists>t'. sim_rel L M (sim_moves a (n, es) s) t'"
proof -
  have same: "put_node a (sm_node s a) s = s" by (simp add: put_node_def)
  then have rel': "sim_rel L M (put_node a (sm_node s a) s) t" using rel by simp
  show ?thesis
  proof (cases "stop (sm_node s a) \<or> commit_index (sm_node s a) \<le> last_applied_index (sm_node s a)")
    case True
    then have "n = sm_node s a" "es = []" using run by (auto simp: CommitIndex_def)
    then show ?thesis using sim_rel_moves [OF rel' a, of "[]"] by auto
  next
    case False
    then have loop: "commit_loop L (sm_node s a) (i32 (last_applied_index (sm_node s a) + 1))
        (commit_index (sm_node s a)) = Inr (n, es)"
      using run by (simp add: CommitIndex_def)
    obtain t' where "sim_rel L M (put_node a n s) t'" using sim_commit_loop [OF loop rel' a] by blast
    from sim_rel_moves [OF this a commit_loop_effects [OF loop]] show ?thesis by blast
  qed
qed

lemma client_calls_effects:
  "Put L m c k v = Inr (Inr (m', es)) \<Longrightarrow> es = [BroadcastReplica]"
  "Delete L m c k = Inr (Inr (m', es)) \<Longrightarrow> es = [BroadcastReplica]"
  "Lock L m c k = Inr (Inr (m', es)) \<Longrightarrow> es = [BroadcastReplica]"
  "UnLock L m c k = Inr (Inr (m', es)) \<Longrightarrow> es = [BroadcastReplica]"
  by (auto simp: Put_def Delete_def Lock_def UnLock_def waiting_def write_and_wait_def bindE_eq_Inr Let_def
      split: if_splits option.splits)

lemma sim_call_rel:
  assumes rel: "sim_rel L M s t" and a: "a \<in> set M"
    and r: "r \<in> {Put L (sm_node s a) c k v, Delete L (sm_node s a) c k, Lock L (sm_node s a) c k, UnLock L (sm_node s a) c k}"
    and run: "sim_call a r s = Some s'"
  shows "\<exists>t'. sim_rel L M s' t'"
proof -
  obtain n es where x: "r = Inr (Inr (n, es))" and s': "s' = sim_moves a (n, es) s"
    using run by (auto simp: sim_call_def split: sum.splits)
  have call: "Put L (sm_node s a) c k v = Inr (Inr (n, es)) \<or> Delete L (sm_node s a) c k = Inr (Inr (n, es)) \<or>
      Lock L (sm_node s a) c k = Inr (Inr (n, es)) \<or> UnLock L (sm_node s a) c k = Inr (Inr (n, es))"
    using r unfolding x by auto
  then have es: "es = [BroadcastReplica]" by (elim disjE) (rule client_calls_effects, assumption)+
  have h: "handles L (sm_node s a) [] n []"
    using call by (auto intro: handles.put handles.del handles.lock handles.unlock)
  show ?thesis using sim_rel_handler [OF rel a _ h, of es] by (auto simp: s' es effects_ok_def)
qed

section \<open>Runs\<close>

text \<open>The servers an event names.\<close>

fun event_servers :: "event \<Rightarrow> string set" where
  "event_servers (Timeout a) = {a}"
| "event_servers (Beat a) = {a}"
| "event_servers (ClientPut a c k v) = {a}"
| "event_servers (ClientDelete a c k) = {a}"
| "event_servers (ClientLock a c k) = {a}"
| "event_servers (ClientUnLock a c k) = {a}"
| "event_servers (Commit a) = {a}"
| "event_servers e = {}"

lemma take_packet_rel:
  assumes rel: "sim_rel L M s t" and take: "take_packet k s = Some (p, s')"
  shows "sim_rel L M s' t" and "packet_sent (set M) (nt_sent t) p"
proof -
  have k: "k < length (sm_wire s)" and p: "p = sm_wire s ! k"
    and s': "s' = s\<lparr>sm_wire := take k (sm_wire s) @ drop (Suc k) (sm_wire s)\<rparr>"
    using take by (auto simp: take_packet_def split: if_splits)
  show "sim_rel L M s' t"
    by (rule sim_rel_bag [OF rel]) (auto simp: s' dest: in_set_takeD in_set_dropD)
  show "packet_sent (set M) (nt_sent t) p" using rel k by (simp add: sim_rel_def p)
qed

lemma sim_step_rel:
  assumes rel: "sim_rel L M s t" and e: "event_servers e \<subseteq> set M" and run: "sim_step L e s = Some s'"
  shows "\<exists>t'. sim_rel L M s' t'"
proof (cases e)
  case (Timeout a)
  then show ?thesis using sim_timeout [OF rel] e run by auto
next
  case (Deliver k)
  then obtain p s1 where "take_packet k s = Some (p, s1)" "sim_arrive L p s1 = Some s'"
    using run by (auto split: option.splits)
  then show ?thesis using sim_arrive_rel [OF take_packet_rel [OF rel]] by blast
next
  case (Lose k)
  then obtain p s1 where "take_packet k s = Some (p, s1)" "s' = sim_lose p s1"
    using run by (auto split: option.splits)
  then show ?thesis using sim_lose_rel [OF take_packet_rel [OF rel]] by blast
next
  case (Begin a b)
  then have ab: "(a, b) \<in> set (sm_tasks s)" and s': "s' = put_node a (ReplicateLog_enter (sm_node s a) b)
      (s\<lparr>sm_tasks := remove1 (a, b) (sm_tasks s), sm_idle := (a, b) # sm_idle s, sm_ok := (sm_ok s)((a, b) := True)\<rparr>)"
    using run by (auto split: if_splits)
  then have M: "a \<in> set M" "b \<in> set M" using rel by (auto simp: sim_rel_def)
  obtain t' where t': "sim_rel L M (put_node a (ReplicateLog_enter (sm_node s a) b) s) t'"
    by (rule sim_rel_handles [OF rel M(1), of "[]"]) (auto intro: handles.enter)
  have "sim_rel L M s' t'"
    by (rule sim_rel_bag [OF t']) (use M in \<open>auto simp: s' dest: notin_set_remove1\<close>)
  then show ?thesis by blast
next
  case (Turn a b)
  then show ?thesis using sim_turn_rel [OF rel] run by simp
next
  case (Beat a)
  then show ?thesis using sim_beat [OF rel] e run by auto
next
  case (ClientPut a c k v)
  then show ?thesis
    using sim_call_rel [OF rel, of a "Put L (sm_node s a) c k v"] e run by (simp, blast)
next
  case (ClientDelete a c k)
  then show ?thesis
    using sim_call_rel [OF rel, of a "Delete L (sm_node s a) c k"] e run by (simp, blast)
next
  case (ClientLock a c k)
  then show ?thesis
    using sim_call_rel [OF rel, of a "Lock L (sm_node s a) c k"] e run by (simp, blast)
next
  case (ClientUnLock a c k)
  then show ?thesis
    using sim_call_rel [OF rel, of a "UnLock L (sm_node s a) c k"] e run by (simp, blast)
next
  case (Commit a)
  then show ?thesis using sim_commit_rel [OF rel, of a] e run by (auto simp: ok_of_def split: sum.splits)
qed

lemma sim_run_rel:
  "sim_run L es s = Some s' \<Longrightarrow> sim_rel L M s t \<Longrightarrow> \<forall>e \<in> set es. event_servers e \<subseteq> set M \<Longrightarrow> \<exists>t'. sim_rel L M s' t'"
proof (induction es arbitrary: s t)
  case (Cons e es)
  then show ?case using sim_step_rel [OF Cons.prems(2), of e] by (auto split: option.splits)
qed auto

text \<open>The start: every server has been constructed, and nothing is on the wire.\<close>

definition sim_init :: "'db leveldb \<Rightarrow> string list \<Rightarrow> 'db sim \<Rightarrow> bool" where
  "sim_init L M s \<longleftrightarrow>
     (\<forall>a \<in> set M. \<exists>b ds d es. AirDBImpl_init L a M b ds d = Inr (sm_node s a, es) \<and>
        0 \<le> bl_length b \<and> -1 \<le> last_applied_index (sm_node s a)) \<and>
     sm_wire s = [] \<and> sm_tasks s = [] \<and> sm_idle s = []"

lemma sim_init_rel: "sim_init L M s \<Longrightarrow> sim_rel L M s \<lparr>nt_node = sm_node s, nt_sent = {}\<rparr>"
  by (auto simp: sim_rel_def sim_init_def intro!: net_reachable.start)

lemma sim_start_init: "sim_init mem_leveldb M (sim_start M)"
  using sample_node_init [of _ M "[]" 0] binlog_rel_length [OF mem_binlog_rel [of "[]"]]
  by (fastforce simp: sim_init_def sim_start_def)

section \<open>Runs\<close>

text \<open>
  From constructed servers, every run of the simulator over events of members ends in a state that
  the network of all handlers reaches.
\<close>

lemma sim_run_network:
  assumes "sim_init L M s" and "sim_run L es s = Some s'" and "\<forall>e \<in> set es. event_servers e \<subseteq> set M"
  shows "\<exists>t. net_reachable L M t \<and> nt_node t = sm_node s'"
proof -
  obtain t where "sim_rel L M s' t" using sim_run_rel [OF assms(2) sim_init_rel [OF assms(1)] assms(3)] by blast
  then show ?thesis by (auto simp: sim_rel_def)
qed

end
