(* ===== verification/LeaderChange.thy ===== *)
theory LeaderChange
  imports SimNetwork
begin

text \<open>
  What a change of leader does to the clients. Both runs below are programs of the simulator: three
  servers, none restarts, no message is lost or duplicated, and some are only slow. The cause is the
  same in both: a follower appends the entries of a new leader behind the entries of the old one
  (the call of \<open>Truncate\<close> before \<open>WriteEntryList\<close> is commented out) and its commit index then covers
  entries the new leader never had.
\<close>

definition three :: "string list" where
  "three = [''a'', ''b'', ''c'']"

definition case_run :: "event list \<Rightarrow> (mem_db sim \<Rightarrow> bool) \<Rightarrow> bool" where
  "case_run es P = (case sim_run mem_leveldb es (sim_start three) of None \<Rightarrow> False | Some s \<Rightarrow> P s)"

text \<open>
  Server \<open>a\<close> leads term 1, commits its first slot everywhere and logs a \<open>Put\<close> of \<open>x\<close> (call 6) that
  it does not get to send; \<open>b\<close> is elected for term 2 with the vote of \<open>c\<close>.
\<close>

definition two_leaders_run :: "event list" where
  "two_leaders_run =
     [Timeout ''a'', Deliver 0, Deliver 1, Deliver 0, Begin ''a'' ''b'', Begin ''a'' ''c'',
      Turn ''a'' ''b'', Deliver 1, Deliver 1, Turn ''a'' ''c'', Deliver 1, Deliver 1,
      ClientPut ''a'' 6 ''x'' ''1'', Timeout ''b'', Timeout ''b'', Deliver 2, Deliver 2,
      Begin ''b'' ''a'', Begin ''b'' ''c'', Turn ''b'' ''c'', Deliver 2, Deliver 2,
      Turn ''b'' ''a'', Deliver 2, Deliver 2, Turn ''a'' ''b'', Turn ''a'' ''c'']"

text \<open>Then \<open>b\<close> answers a \<open>Put\<close> of \<open>y\<close> (call 7), and \<open>a\<close> is elected for term 3.\<close>

definition lost_run :: "event list" where
  "lost_run = two_leaders_run @
     [Commit ''a'', ClientPut ''b'' 7 ''y'' ''2'', Turn ''b'' ''c'', Deliver 2, Deliver 2, Commit ''b'',
      Beat ''b'', Deliver 2, Commit ''a'', Turn ''b'' ''a'', Deliver 4, Deliver 4,
      Turn ''b'' ''a'', Deliver 4, Deliver 4, Timeout ''a'', Timeout ''a'', Deliver 5, Deliver 5]"

text \<open>The same, with a slow commit thread on \<open>a\<close>, which catches up as leader of term 3.\<close>

definition stale_run :: "event list" where
  "stale_run = two_leaders_run @
     [ClientPut ''b'' 7 ''y'' ''2'', Turn ''b'' ''c'', Deliver 2, Deliver 2,
      Turn ''b'' ''a'', Deliver 2, Deliver 2, Turn ''b'' ''a'', Deliver 2, Deliver 2,
      Timeout ''a'', Timeout ''a'', Deliver 3, Deliver 3, Commit ''a'']"

text \<open>The keys of a server's log.\<close>

definition logged_keys :: "'db leveldb \<Rightarrow> 'db node \<Rightarrow> string list" where
  "logged_keys L n = map (\<lambda>i. case ReadSlot L (binlogger n) (int i) of
     Inr (Some e) \<Rightarrow> be_key e | _ \<Rightarrow> []) [0..<nat (log_length n)]"

text \<open>Both runs are runs of the network of all handlers.\<close>

lemma runs_reachable:
  assumes "es \<in> {lost_run, stale_run}" and "sim_run mem_leveldb es (sim_start three) = Some s"
  shows "\<exists>t. net_reachable mem_leveldb three t \<and> nt_node t = sm_node s"
proof -
  have "\<forall>e \<in> set es. event_servers e \<subseteq> set three"
    using assms(1) by (auto simp: lost_run_def stale_run_def two_leaders_run_def three_def)
  then obtain t where "sim_rel mem_leveldb three s t"
    using sim_run_rel [OF assms(2) sim_init_rel [OF sim_start_init]] by blast
  then show ?thesis by (auto simp: sim_rel_def)
qed

section \<open>Properties\<close>

text \<open>
  C9: An answered \<open>Put\<close> can be lost. In a run of three servers without restarts and without losses
  or duplicates on the network, the leader of term 2 answers the \<open>Put\<close> of \<open>y\<close> with success; all
  three servers hold its entry in slot 2; and the leader of term 3, which has applied slot 2, does
  not have the key. It has instead the \<open>x\<close> of a \<open>Put\<close> that was never answered and is in no log.
\<close>

theorem answered_put_lost:
  "\<exists>s. sim_run mem_leveldb lost_run (sim_start three) = Some s \<and>
     (\<exists>t. net_reachable mem_leveldb three t \<and> nt_node t = sm_node s) \<and>
     sm_answered s = [7] \<and> status (sm_node s ''a'') = kLeader \<and> current_term (sm_node s ''a'') = 3 \<and>
     2 \<le> last_applied_index (sm_node s ''a'') \<and>
     list_all (\<lambda>q. ReadSlot mem_leveldb (binlogger (sm_node s q)) 2 = Inr (Some
        \<lparr>be_op = kPutOp, be_key = ''y'', be_value = ''2'', be_term = 2\<rparr>)) three \<and>
     Get mem_leveldb (sm_node s ''a'') ''y'' = Inr None \<and>
     Get mem_leveldb (sm_node s ''a'') ''x'' = Inr (Some
       \<lparr>gr_hit = True, gr_success = True, gr_value = ''1'', gr_leader_id = ''a''\<rparr>)"
proof -
  have "case_run lost_run (\<lambda>s.
     sm_answered s = [7] \<and> status (sm_node s ''a'') = kLeader \<and> current_term (sm_node s ''a'') = 3 \<and>
     2 \<le> last_applied_index (sm_node s ''a'') \<and>
     list_all (\<lambda>q. ReadSlot mem_leveldb (binlogger (sm_node s q)) 2 = Inr (Some
        \<lparr>be_op = kPutOp, be_key = ''y'', be_value = ''2'', be_term = 2\<rparr>)) three \<and>
     Get mem_leveldb (sm_node s ''a'') ''y'' = Inr None \<and>
     Get mem_leveldb (sm_node s ''a'') ''x'' = Inr (Some
       \<lparr>gr_hit = True, gr_success = True, gr_value = ''1'', gr_leader_id = ''a''\<rparr>))"
    by code_simp
  then show ?thesis using runs_reachable by (auto simp: case_run_def split: option.splits)
qed

text \<open>
  C10: A lost \<open>Put\<close> can be answered with success. In such a run the entry of call 6 is cut from the
  log of the server that took the call and is on no other; when that server leads again and applies
  the slot, now another leader's empty entry, it answers call 6 with success.
\<close>

theorem lost_put_answered:
  "\<exists>s. sim_run mem_leveldb stale_run (sim_start three) = Some s \<and>
     (\<exists>t. net_reachable mem_leveldb three t \<and> nt_node t = sm_node s) \<and> sm_answered s = [6] \<and>
     list_all (\<lambda>q. ''x'' \<notin> set (logged_keys mem_leveldb (sm_node s q)) \<and>
        StorageKV_Get mem_leveldb (data_store (sm_node s q)) ''x'' = (-1, None)) three"
proof -
  have "case_run stale_run (\<lambda>s. sm_answered s = [6] \<and>
     list_all (\<lambda>q. ''x'' \<notin> set (logged_keys mem_leveldb (sm_node s q)) \<and>
        StorageKV_Get mem_leveldb (data_store (sm_node s q)) ''x'' = (-1, None)) three)"
    by code_simp
  then show ?thesis using runs_reachable by (auto simp: case_run_def split: option.splits)
qed

end
