(* ===== verification/Availability.thy ===== *)
theory Availability
  imports LeaderChange StableLeader
begin

text \<open>
  What it takes to have a leader. From every state that the simulated cluster reaches, whatever has
  been lost and whoever led before, there is a way on to a leader whom all others follow; a cluster
  of a single server is the exception, since the votes are counted only when an answer arrives.
\<close>

section \<open>What every server keeps\<close>

lemma handles_cases:
  assumes "handles L n ins n' outs"
  obtains (round) d es where "VoteLeader n d = (n', es)"
  | (votes) r res where "Vote n r = (n', Some res)"
  | (counts) res failed es where "VoteCallBack L n res failed = Inr (n', es)" "VoteResponse res \<in> set ins"
  | (server) "server_step L n n'"
  | (same) "n' = n"
  using assms by cases (auto intro: server_step.intros that)

lemma ReplicateLog_finish_stop:
  "ReplicateLog_finish n addr c mt ok ret = (n', ok', es, go) \<Longrightarrow> stop n' = stop n"
  by (auto simp: ReplicateLog_finish_def Let_def SwitchToFollower_def dest!: UpdateCommitIndex_eq
      split: if_splits option.splits prod.splits)

lemma server_step_stop: "server_step L n n' \<Longrightarrow> stop n' = stop n"
  by (induction rule: server_step.induct)
    (auto simp: AppendEntries_check_def AppendEntries_write_def AppendEntries_finish_def
      ReplicateLog_enter_def ReplicateLog_exit_def HeartBeatCallBack_def SwitchToFollower_def
      DelBinlog_def Put_def Delete_def Lock_def UnLock_def write_and_wait_def bindE_eq_Inr Let_def
      CommitIndex_apply_def CommitIndex_ack_eq GarbageClean_def ReplicateLog_prepare_def
      dest: ReplicateLog_finish_stop split: if_splits option.splits)

lemma election_stop:
  "VoteLeader n d = (n', es) \<Longrightarrow> stop n' = stop n"
  "Vote n r = (n', res) \<Longrightarrow> stop n' = stop n"
  "VoteCallBack L n x failed = Inr (n', es) \<Longrightarrow> stop n' = stop n"
  by (auto simp: VoteLeader_def Vote_def VoteCallBack_def Let_def case_prod_beta SwitchToFollower_def
      elim!: SwitchToLeader_frame split: if_splits)

lemma VoteLeader_node_inv:
  assumes "VoteLeader n d = (n', es)" and "node_inv M a n"
  shows "node_inv M a n'"
proof (cases "starts_round n")
  case True
  from VoteLeader_round(1-6) [OF this assms(1)] assms(2) show ?thesis by (auto simp: node_inv_def)
next
  case False
  from steps_down_node_inv [OF assms(2) VoteLeader_idle(1) [OF this assms(1)]] show ?thesis .
qed

lemma Vote_node_inv: "Vote n r = (n', res) \<Longrightarrow> node_inv M a n \<Longrightarrow> node_inv M a n'"
  by (erule Vote_cases) (auto intro: steps_down_node_inv, auto simp: node_inv_def)

lemma VoteCallBack_node_inv:
  assumes "VoteCallBack L n res failed = Inr (n', es)" and "node_inv M a n"
  shows "node_inv M a n'"
proof (cases "vote_counts n res failed")
  case True
  from VoteCallBack_counts [OF this assms(1)] assms(2) True show ?thesis
    by (auto simp: node_inv_def vote_counts_def)
next
  case False
  from steps_down_node_inv [OF assms(2) VoteCallBack_other [OF this assms(1)]] show ?thesis .
qed

lemma handles_node_inv:
  assumes "handles L n ins n' outs" and "node_inv M a n"
  shows "node_inv M a n'"
  using assms(1)
  by (cases rule: handles_cases; use assms(2) in \<open>blast intro: VoteLeader_node_inv Vote_node_inv
    VoteCallBack_node_inv steps_down_node_inv server_step_steps_down\<close>)

lemma handles_stop: "handles L n ins n' outs \<Longrightarrow> stop n' = stop n"
  by (cases rule: handles_cases) (auto dest: election_stop server_step_stop)

lemma AirDBImpl_init_node_inv:
  assumes "AirDBImpl_init L a M b ds d = Inr (n, es)"
  shows "node_inv M a n \<and> \<not> stop n"
proof -
  have "\<not> stop n"
    using assms by (auto simp: AirDBImpl_init_def Let_def bindE_eq_Inr split: prod.splits option.splits)
  then show ?thesis using AirDBImpl_init_state [OF assms] by (simp add: node_inv_def)
qed

lemma net_node_inv:
  "net_reachable L M t \<Longrightarrow> a \<in> set M \<Longrightarrow> node_inv M a (nt_node t a) \<and> \<not> stop (nt_node t a)"
proof (induction rule: net_reachable.induct)
  case (start s)
  obtain b ds d es where "AirDBImpl_init L a M b ds d = Inr (nt_node s a, es)"
    using start.hyps(1) [OF start.prems] by blast
  then show ?case by (rule AirDBImpl_init_node_inv)
next
  case (step s b ins n' outs)
  then show ?case using handles_node_inv [OF step.hyps(4)] handles_stop [OF step.hyps(4)] by auto
qed

section \<open>A server alone\<close>

text \<open>Nobody asks for its vote, so nobody answers, and only an answer can make a leader.\<close>

lemma lone_net:
  "net_reachable L [a] t \<Longrightarrow> status (nt_node t a) \<noteq> kLeader \<and>
     VoteRequest r \<notin> nt_sent t \<and> VoteResponse res \<notin> nt_sent t"
proof (induction arbitrary: r res rule: net_reachable.induct)
  case (start s)
  then show ?case using AirDBImpl_init_state(3) by fastforce
next
  case (step s b ins n' outs)
  have b: "b = a" using step.hyps(2) by simp
  have inv: "node_inv [a] a (nt_node s a)" using net_node_inv [OF step.hyps(1)] by simp
  have no: "VoteRequest r \<notin> set ins" "VoteResponse res \<notin> set ins" for r res
    using step.IH step.hyps(3) by blast+
  have "status n' \<noteq> kLeader"
    using step.hyps(4)
  proof (cases rule: handles_cases)
    case (round d es)
    then show ?thesis using step.IH by (auto simp: b VoteLeader_def Let_def split: if_splits)
  next
    case (votes r res)
    then show ?thesis using step.IH by (auto simp: b Vote_def Let_def case_prod_beta split: if_splits)
  next
    case (counts res failed es)
    then show ?thesis using no by blast
  next
    case server
    then show ?thesis using server_step_steps_down step.IH by (fastforce simp: b steps_down_def)
  qed (use step.IH b in simp)
  moreover have "VoteRequest r \<notin> set outs" for r
    using step.hyps(4)
  proof cases
    case (timer d b' r' es)
    then show ?thesis
      using inv VoteLeader_round(7) VoteLeader_idle(2) by (fastforce simp: b node_inv_def)
  qed auto
  moreover have "VoteResponse res \<notin> set outs" for res
    using step.hyps(4) by cases (use no in auto)
  ultimately show ?case using step.IH by (simp add: b)
qed

section \<open>Ways on\<close>

definition can_reach :: "'db leveldb \<Rightarrow> string list \<Rightarrow> 'db sim \<Rightarrow> 'db sim \<Rightarrow> bool" where
  "can_reach L M s s' \<longleftrightarrow>
     (\<exists>es. (\<forall>e \<in> set es. event_servers e \<subseteq> set M) \<and> sim_run L es s = Some s')"

definition live :: "'db leveldb \<Rightarrow> string list \<Rightarrow> 'db sim \<Rightarrow> bool" where
  "live L M s \<longleftrightarrow> (\<exists>t. sim_rel L M s t)"

lemma can_reach_refl [simp, intro]: "can_reach L M s s"
  unfolding can_reach_def by (rule exI [of _ "[]"]) simp

lemma sim_run_append: "sim_run L es s = Some s1 \<Longrightarrow> sim_run L (es @ es') s = sim_run L es' s1"
  by (induction es arbitrary: s) (auto split: option.splits)

lemma can_reach_trans [trans]: "can_reach L M s s1 \<Longrightarrow> can_reach L M s1 s2 \<Longrightarrow> can_reach L M s s2"
  unfolding can_reach_def by (metis (no_types, lifting) Un_iff set_append sim_run_append)

lemma can_reach_step: "sim_step L e s = Some s' \<Longrightarrow> event_servers e \<subseteq> set M \<Longrightarrow> can_reach L M s s'"
  unfolding can_reach_def by (rule exI [of _ "[e]"]) simp

lemma can_reach_live: "can_reach L M s s' \<Longrightarrow> live L M s \<Longrightarrow> live L M s'"
  unfolding can_reach_def live_def using sim_run_rel by blast

lemma live_node:
  assumes "live L M s" and "a \<in> set M"
  shows "node_inv M a (sm_node s a)" and "\<not> stop (sm_node s a)"
    and "self_addr (sm_node s a) = a" and "all_server_addr (sm_node s a) = M"
  using assms net_node_inv by (fastforce simp: live_def sim_rel_def node_inv_def)+

text \<open>One server moves, one message is used up, and what else is on the wire stays there.\<close>

definition moves_to ::
  "'db leveldb \<Rightarrow> string list \<Rightarrow> 'db sim \<Rightarrow> string \<Rightarrow> 'db node \<Rightarrow> packet set \<Rightarrow> packet set \<Rightarrow> 'db sim \<Rightarrow> bool"
where
  "moves_to L M s a n used sent s' \<longleftrightarrow>
     can_reach L M s s' \<and> sm_node s' = (sm_node s)(a := n) \<and>
     set (sm_wire s) - used \<union> sent \<subseteq> set (sm_wire s')"

lemma arrive:
  assumes "p \<in> set (sm_wire s)"
    and "\<And>w. \<exists>s'. sim_arrive L p (s\<lparr>sm_wire := w\<rparr>) = Some s' \<and> sm_node s' = (sm_node s)(a := n) \<and>
      set w \<union> sent \<subseteq> set (sm_wire s')"
  shows "\<exists>s'. moves_to L M s a n {p} sent s'"
proof -
  obtain xs ys where w: "sm_wire s = xs @ p # ys" using assms(1) split_list by metis
  then have take: "take_packet (length xs) s = Some (p, s\<lparr>sm_wire := xs @ ys\<rparr>)"
    by (simp add: take_packet_def)
  obtain s' where s': "sim_arrive L p (s\<lparr>sm_wire := xs @ ys\<rparr>) = Some s'" "sm_node s' = (sm_node s)(a := n)"
    "set (xs @ ys) \<union> sent \<subseteq> set (sm_wire s')"
    using assms(2) by blast
  have "can_reach L M s s'"
    using take s'(1) by (intro can_reach_step [of L "Deliver (length xs)"]) simp_all
  then show ?thesis using s'(2,3) w by (auto simp: moves_to_def)
qed

lemma arrives:
  "VoteCall a b r \<in> set (sm_wire s) \<Longrightarrow> Vote (sm_node s b) r = (n, Some res) \<Longrightarrow>
     \<exists>s'. moves_to L M s b n {VoteCall a b r} {VoteReturn a res} s'"
  "VoteReturn a res' \<in> set (sm_wire s) \<Longrightarrow> VoteCallBack L (sm_node s a) res' False = Inr (n, es) \<Longrightarrow>
     \<exists>s'. moves_to L M s a n {VoteReturn a res'} {} s'"
  "BeatCall a b q \<in> set (sm_wire s) \<Longrightarrow> AppendEntriesImpl L (sm_node s b) q = Inr (n, es, ans) \<Longrightarrow>
     \<exists>s'. moves_to L M s b n {BeatCall a b q} {BeatReturn a ans} s'"
  "BeatReturn a ans \<in> set (sm_wire s) \<Longrightarrow>
     \<exists>s'. moves_to L M s a (HeartBeatCallBack (sm_node s a) ans False) {BeatReturn a ans} {} s'"
  by (rule arrive; auto simp: sim_send_def sim_moves_def put_node_def ok_of_def)+

lemma calls_of_append [simp]: "calls_of a (es @ es') = calls_of a es @ calls_of a es'"
  by (induction a es rule: calls_of.induct) auto

lemma calls_of_member:
  "AsyncVote b r \<in> set es \<Longrightarrow> VoteCall a b r \<in> set (calls_of a es)"
  "AsyncAppend b q \<in> set es \<Longrightarrow> BeatCall a b q \<in> set (calls_of a es)"
  by (induction a es rule: calls_of.induct) auto

lemma beat_all:
  assumes "live L M s" and a: "a \<in> set M" and "status (sm_node s a) = kLeader"
  obtains s' where "moves_to L M s a (sm_node s a) {}
    {BeatCall a b (heartbeat_request (sm_node s a)) | b. b \<in> set M \<and> b \<noteq> a} s'"
proof -
  let ?s' = "sim_send (calls_of a (BroadCastHeartBeat 0 (sm_node s a))) s"
  have "can_reach L M s ?s'" using a by (intro can_reach_step [of L "Beat a"]) simp_all
  moreover have "BeatCall a b (heartbeat_request (sm_node s a)) \<in> set (sm_wire ?s')"
    if "b \<in> set M" "b \<noteq> a" for b
    using live_node(2-4) [OF assms(1,2)] assms(3) that
    by (auto simp: sim_send_def BroadCastHeartBeat_def intro: calls_of_member(2))
  ultimately have "moves_to L M s a (sm_node s a) {}
      {BeatCall a b (heartbeat_request (sm_node s a)) | b. b \<in> set M \<and> b \<noteq> a} ?s'"
    by (auto simp: moves_to_def sim_send_def)
  then show thesis by (rule that)
qed

lemma moves_to_live:
  assumes "moves_to L M s a n used sent s'" and "live L M s"
  shows "live L M s'" and "can_reach L M s s'" and "sm_node s' = (sm_node s)(a := n)"
    and "p \<in> set (sm_wire s) \<Longrightarrow> p \<notin> used \<Longrightarrow> p \<in> set (sm_wire s')" and "p \<in> sent \<Longrightarrow> p \<in> set (sm_wire s')"
  using assms can_reach_live by (auto simp: moves_to_def)

section \<open>Heartbeats settle who leads\<close>

lemma heartbeat_refused:
  "current_term m < current_term n \<Longrightarrow> AppendEntriesImpl L n (heartbeat_request m) =
     Inr (n, [], ae_reply n False (log_length n) False)"
  by (simp add: AppendEntriesImpl_def AppendEntries_check_def heartbeat_request_def)

lemma heartbeat_obeyed:
  assumes "current_term n \<le> current_term m"
  obtains n' es ans where "AppendEntriesImpl L n (heartbeat_request m) = Inr (n', es, ans)"
    and "status n' = kFollower" and "current_term n' = current_term m"
  using assms
  by (auto simp: AppendEntriesImpl_def AppendEntries_check_def AppendEntries_write_def AppendEntries_finish_def
      heartbeat_request_def Let_def)

text \<open>A leader steps down when a server of a later term refuses its heartbeat.\<close>

lemma depose:
  assumes s: "live L M s" and a: "a \<in> set M" "status (sm_node s a) = kLeader"
    and b: "b \<in> set M" "current_term (sm_node s a) < current_term (sm_node s b)"
  shows "\<exists>s'. can_reach L M s s' \<and>
    sm_node s' = (sm_node s)(a := SwitchToFollower (sm_node s a) (current_term (sm_node s b)))"
proof -
  let ?a = "sm_node s a" and ?b = "sm_node s b"
  let ?ans = "ae_reply ?b False (log_length ?b) False" and ?req = "heartbeat_request ?a"
  have ab: "b \<noteq> a" using b(2) by auto
  obtain s1 where m1: "moves_to L M s a ?a {} {BeatCall a b ?req | b. b \<in> set M \<and> b \<noteq> a} s1"
    by (rule beat_all [OF s a])
  have n1: "sm_node s1 = sm_node s" using moves_to_live(3) [OF m1 s] by simp
  have "BeatCall a b ?req \<in> set (sm_wire s1)" using moves_to_live(5) [OF m1 s] b ab by blast
  moreover have "AppendEntriesImpl L (sm_node s1 b) ?req = Inr (?b, [], ?ans)"
    using heartbeat_refused [OF b(2)] by (simp add: n1)
  ultimately obtain s2 where m2: "moves_to L M s1 b ?b {BeatCall a b ?req} {BeatReturn a ?ans} s2"
    using arrives(3) by blast
  have s1: "live L M s1" by (rule moves_to_live(1) [OF m1 s])
  have n2: "sm_node s2 = sm_node s" using moves_to_live(3) [OF m2 s1] by (simp add: n1)
  have "BeatReturn a ?ans \<in> set (sm_wire s2)" using moves_to_live(5) [OF m2 s1] by blast
  then obtain s3 where m3: "moves_to L M s2 a (HeartBeatCallBack (sm_node s2 a) ?ans False) {BeatReturn a ?ans} {} s3"
    using arrives(4) by blast
  have "sm_node s3 = (sm_node s)(a := SwitchToFollower ?a (current_term ?b))"
    using moves_to_live(3) [OF m3 moves_to_live(1) [OF m2 s1]] a(2) b(2)
    by (simp add: n2 HeartBeatCallBack_def ae_reply_def)
  moreover have "can_reach L M s s3"
    using m1 m2 m3 by (meson can_reach_trans moves_to_def)
  ultimately show ?thesis by blast
qed

text \<open>The server \<open>a\<close> leads and all others follow it in its term.\<close>

definition leads_all :: "string list \<Rightarrow> (string \<Rightarrow> 'db node) \<Rightarrow> string \<Rightarrow> bool" where
  "leads_all M nodes a \<longleftrightarrow>
     a \<in> set M \<and> status (nodes a) = kLeader \<and>
     (\<forall>b \<in> set M - {a}. status (nodes b) = kFollower \<and> current_term (nodes b) = current_term (nodes a))"

lemma beats_arrive:
  assumes "live L M s" and "distinct bs" and "a \<notin> set bs"
    and "\<And>b. b \<in> set bs \<Longrightarrow> BeatCall a b (heartbeat_request m) \<in> set (sm_wire s)"
    and "\<And>b. b \<in> set bs \<Longrightarrow> current_term (sm_node s b) \<le> current_term m"
  shows "\<exists>s'. can_reach L M s s' \<and> (\<forall>x. x \<notin> set bs \<longrightarrow> sm_node s' x = sm_node s x) \<and>
    (\<forall>b \<in> set bs. status (sm_node s' b) = kFollower \<and> current_term (sm_node s' b) = current_term m)"
  using assms
proof (induction bs arbitrary: s)
  case Nil
  then show ?case by auto
next
  case (Cons b bs)
  let ?req = "heartbeat_request m"
  have "current_term (sm_node s b) \<le> current_term m" using Cons.prems(5) by simp
  then obtain n es ans where run: "AppendEntriesImpl L (sm_node s b) ?req = Inr (n, es, ans)"
    and n: "status n = kFollower" "current_term n = current_term m"
    by (rule heartbeat_obeyed)
  obtain s1 where m1: "moves_to L M s b n {BeatCall a b ?req} {BeatReturn a ans} s1"
    using arrives(3) [OF _ run] Cons.prems(4) by fastforce
  note s1 = moves_to_live [OF m1 Cons.prems(1)]
  have "\<exists>s'. can_reach L M s1 s' \<and> (\<forall>x. x \<notin> set bs \<longrightarrow> sm_node s' x = sm_node s1 x) \<and>
      (\<forall>b \<in> set bs. status (sm_node s' b) = kFollower \<and> current_term (sm_node s' b) = current_term m)"
    (is "\<exists>s'. ?P s'")
  proof (rule Cons.IH [OF s1(1)])
    show "BeatCall a c ?req \<in> set (sm_wire s1)" if "c \<in> set bs" for c
      using s1(4) Cons.prems(2,4) that by auto
    show "current_term (sm_node s1 c) \<le> current_term m" if "c \<in> set bs" for c
      using Cons.prems(2,5) that by (auto simp: s1(3))
  qed (use Cons.prems(2,3) in simp_all)
  then obtain s' where s': "?P s'" by blast
  then have "can_reach L M s s'" using can_reach_trans [OF s1(2)] by blast
  moreover have "sm_node s' b = n" using s' Cons.prems(2) by (simp add: s1(3))
  ultimately show ?case using s' n by (intro exI [of _ s']) (simp add: s1(3))
qed

lemma settle:
  assumes s: "live L M s" and M: "distinct M" and a: "a \<in> set M" "status (sm_node s a) = kLeader"
    and top: "\<And>b. b \<in> set M \<Longrightarrow> current_term (sm_node s b) \<le> current_term (sm_node s a)"
  shows "\<exists>s'. can_reach L M s s' \<and> leads_all M (sm_node s') a"
proof -
  let ?a = "sm_node s a"
  obtain s1 where m1: "moves_to L M s a ?a {} {BeatCall a b (heartbeat_request ?a) | b. b \<in> set M \<and> b \<noteq> a} s1"
    by (rule beat_all [OF s a])
  note s1 = moves_to_live [OF m1 s]
  have "\<exists>s'. can_reach L M s1 s' \<and> (\<forall>x. x \<notin> set (remove1 a M) \<longrightarrow> sm_node s' x = sm_node s1 x) \<and>
      (\<forall>b \<in> set (remove1 a M). status (sm_node s' b) = kFollower \<and> current_term (sm_node s' b) = current_term ?a)"
    (is "\<exists>s'. ?P s'")
    by (rule beats_arrive [OF s1(1)]) (use M top s1(3,5) in auto)
  then obtain s' where s': "?P s'" by blast
  then have "can_reach L M s s'" using can_reach_trans [OF s1(2)] by blast
  moreover have "sm_node s' a = ?a" using s' M by (simp add: s1(3))
  ultimately show ?thesis using s' a M by (intro exI [of _ s']) (simp add: leads_all_def)
qed

section \<open>A campaign\<close>

lemma timeout_moves:
  assumes "VoteLeader (sm_node s a) 0 = (n, es)" and "a \<in> set M"
  shows "\<exists>s'. moves_to L M s a n {} {VoteCall a b r | b r. AsyncVote b r \<in> set es} s'"
proof -
  have "can_reach L M s (sim_moves a (n, es) s)"
    using assms by (intro can_reach_step [of L "Timeout a"]) simp_all
  then have "moves_to L M s a n {} {VoteCall a b r | b r. AsyncVote b r \<in> set es} (sim_moves a (n, es) s)"
    by (auto simp: moves_to_def sim_moves_def put_node_def intro: calls_of_member(1))
  then show ?thesis ..
qed

text \<open>The candidate \<open>a\<close> in term \<open>k\<close>, with its own vote and its calls to the others on the wire.\<close>

definition campaigns :: "string list \<Rightarrow> 'db sim \<Rightarrow> string \<Rightarrow> int \<Rightarrow> bool" where
  "campaigns M s a k \<longleftrightarrow>
     (let n = sm_node s a in
      status n = kCandidate \<and> current_term n = k \<and> vote_pass n k = Some 1 \<and>
      (\<forall>b \<in> set M - {a}. VoteCall a b (vote_request_of n) \<in> set (sm_wire s)))"

lemma timeout_campaigns:
  assumes s: "live L M s" and a: "a \<in> set M" and go: "starts_round (sm_node s a)"
  shows "\<exists>s'. can_reach L M s s' \<and> campaigns M s' a (current_term (sm_node s a) + 1) \<and>
    (\<forall>x. x \<noteq> a \<longrightarrow> sm_node s' x = sm_node s x) \<and> binlogger (sm_node s' a) = binlogger (sm_node s a) \<and>
    (elect_step L)\<^sup>*\<^sup>* (sm_node s a) (sm_node s' a)"
proof -
  let ?n = "sm_node s a"
  obtain n es where run: "VoteLeader ?n 0 = (n, es)" by fastforce
  note n = VoteLeader_round [OF go run] and self = live_node [OF s a]
  have log: "binlogger n = binlogger ?n" using run by (auto simp: VoteLeader_def Let_def split: if_splits)
  have one: "vote_pass n (current_term n) = Some 1"
    using self(1) n(3,6) by (simp add: node_inv_def at_default_def)
  obtain s' where m: "moves_to L M s a n {} {VoteCall a b r | b r. AsyncVote b r \<in> set es} s'"
    using timeout_moves [OF run a] by blast
  note s' = moves_to_live [OF m s]
  have "VoteCall a b (vote_request_of n) \<in> set (sm_wire s')" if "b \<in> set M - {a}" for b
    using s'(5) n(7) self(3,4) that by blast
  moreover have "(elect_step L)\<^sup>*\<^sup>* (sm_node s a) n" using elect_step.round [OF run] by (rule r_into_rtranclp)
  ultimately show ?thesis using s'(2,3) n(3,4) log one by (intro exI [of _ s']) (simp add: campaigns_def)
qed

text \<open>A heartbeat delays the campaign by one timeout.\<close>

lemma next_round:
  assumes s: "live L M s" and a: "a \<in> set M" "status (sm_node s a) \<noteq> kLeader"
  shows "\<exists>s'. can_reach L M s s' \<and> campaigns M s' a (current_term (sm_node s a) + 1) \<and>
    (\<forall>x. x \<noteq> a \<longrightarrow> sm_node s' x = sm_node s x) \<and> binlogger (sm_node s' a) = binlogger (sm_node s a) \<and>
    (elect_step L)\<^sup>*\<^sup>* (sm_node s a) (sm_node s' a)"
    (is "\<exists>s'. ?P s s'")
proof (cases "starts_round (sm_node s a)")
  case True
  then show ?thesis by (rule timeout_campaigns [OF s a(1)])
next
  case False
  let ?n = "(sm_node s a)\<lparr>headbeat_cnt := 0\<rparr>"
  obtain es where run: "VoteLeader (sm_node s a) 0 = (?n, es)"
    using False a(2) by (auto simp: starts_round_def VoteLeader_def Let_def)
  obtain s1 where m: "moves_to L M s a ?n {} {VoteCall a b r | b r. AsyncVote b r \<in> set es} s1"
    using timeout_moves [OF run a(1)] by blast
  note s1 = moves_to_live [OF m s]
  have "starts_round (sm_node s1 a)" using a(2) by (simp add: s1(3) starts_round_def)
  from timeout_campaigns [OF s1(1) a(1) this] obtain s' where s': "?P s1 s'" by blast
  then have "can_reach L M s s'" using can_reach_trans [OF s1(2)] by blast
  moreover have "(elect_step L)\<^sup>*\<^sup>* (sm_node s a) (sm_node s' a)"
    using s' elect_step.round [OF run, of L] converse_rtranclp_into_rtranclp by (fastforce simp: s1(3))
  ultimately show ?thesis using s' by (intro exI [of _ s']) (simp add: s1(3))
qed

lemma later_round:
  assumes s: "live L M s" and a: "a \<in> set M" "status (sm_node s a) \<noteq> kLeader"
  shows "\<exists>s'. can_reach L M s s' \<and> campaigns M s' a (current_term (sm_node s a) + 1 + int m) \<and>
    (\<forall>x. x \<noteq> a \<longrightarrow> sm_node s' x = sm_node s x) \<and> binlogger (sm_node s' a) = binlogger (sm_node s a) \<and>
    (elect_step L)\<^sup>*\<^sup>* (sm_node s a) (sm_node s' a)"
    (is "\<exists>s'. ?P m s s'")
proof (induction m)
  case 0
  show ?case using next_round [OF assms] by simp
next
  case (Suc m)
  then obtain s1 where s1: "?P m s s1" by blast
  have c: "status (sm_node s1 a) \<noteq> kLeader" "current_term (sm_node s1 a) = current_term (sm_node s a) + 1 + int m"
    using s1 by (simp_all add: campaigns_def Let_def)
  have l: "live L M s1" using s1 s by (blast intro: can_reach_live)
  from next_round [OF l a(1) c(1)] obtain s' where s': "?P 0 s1 s'" by auto
  then have "can_reach L M s s'" using s1 can_reach_trans by blast
  moreover have "(elect_step L)\<^sup>*\<^sup>* (sm_node s a) (sm_node s' a)" using s1 s' by (metis rtranclp_trans)
  ultimately show ?case using s1 s' by (intro exI [of _ s']) (simp add: c(2) add.assoc)
qed

text \<open>Whether a candidate's log is up to date for a voter.\<close>

definition up_to_date :: "vote_request \<Rightarrow> 'db node \<Rightarrow> bool" where
  "up_to_date r n \<longleftrightarrow>
     (case GetLocalLogTermIndex n of (i, t) \<Rightarrow>
        t < vq_last_log_term r \<or> t = vq_last_log_term r \<and> i \<le> vq_last_log_index r)"

lemma Vote_grants:
  assumes "status n \<noteq> kLeader" and "current_term n < vq_term r" and "up_to_date r n"
    and "vote_for n (vq_term r) = None"
  obtains n' where "Vote n r = (n', Some \<lparr>vr_term = vq_term r, vr_vote_pass = True\<rparr>)"
    and "status n' = kFollower" and "current_term n' = vq_term r"
  using assms by (auto simp: Vote_def up_to_date_def Let_def split: prod.splits)

lemma best_log:
  assumes "M \<noteq> []"
  obtains a where "a \<in> set M" and "\<And>b m. b \<in> set M \<Longrightarrow> binlogger m = binlogger (nodes a) \<Longrightarrow> up_to_date (vote_request_of m) (nodes b)"
proof -
  define key where "key a = (case GetLocalLogTermIndex (nodes a) of (i, t) \<Rightarrow> (t, i))" for a
  have less: "fst (key b) < fst (key a) \<or> fst (key b) = fst (key a) \<and> snd (key b) \<le> snd (key a) \<or>
      fst (key a) < fst (key b) \<or> fst (key a) = fst (key b) \<and> snd (key a) < snd (key b)" for a b by linarith
  have "\<exists>a \<in> set M. \<forall>b \<in> set M. fst (key b) < fst (key a) \<or> fst (key b) = fst (key a) \<and> snd (key b) \<le> snd (key a)"
    using assms
  proof (induction M rule: list_nonempty_induct)
    case (cons x xs)
    then obtain a where a: "a \<in> set xs" "\<forall>b \<in> set xs. fst (key b) < fst (key a) \<or> fst (key b) = fst (key a) \<and> snd (key b) \<le> snd (key a)"
      by blast
    show ?case
    proof (cases "fst (key x) < fst (key a) \<or> fst (key x) = fst (key a) \<and> snd (key x) \<le> snd (key a)")
      case True
      then show ?thesis using a by auto
    next
      case False
      then have "fst (key b) < fst (key x) \<or> fst (key b) = fst (key x) \<and> snd (key b) \<le> snd (key x)"
        if "b \<in> set xs" for b using a(2) that less [of x a] by (smt (verit))
      then show ?thesis by auto
    qed
  qed simp
  then show thesis
    by (auto simp: key_def up_to_date_def vote_request_of_def GetLocalLogTermIndex_def split: prod.splits
        intro: that)
qed

lemma nop_entry_dumps: "\<exists>str. DumpBinLogEntry (nop_entry t) = Inr str"
proof -
  have "i32 (entry_size (nop_entry t)) = entry_size (nop_entry t)" "0 \<le> entry_size (nop_entry t)"
    by (auto intro!: i32_id simp: in_i32_def entry_size_def nop_entry_def)
  then show ?thesis by (simp add: DumpBinLogEntry_def)
qed

text \<open>The candidate after some votes: it has won, or it has \<open>v\<close> of them and needs more.\<close>

definition has_votes :: "string list \<Rightarrow> 'db node \<Rightarrow> int \<Rightarrow> int \<Rightarrow> bool" where
  "has_votes M n k v \<longleftrightarrow>
     current_term n = k \<and>
     (status n = kLeader \<or> status n = kCandidate \<and> vote_pass n k = Some v \<and> v \<le> int (length M div 2))"

context leveldb_available
begin

lemma SwitchToLeader_total: "\<exists>n' es. SwitchToLeader L n = Inr (n', es)"
proof -
  let ?n = "fst (start_replica_loop (n\<lparr>status := kLeader, cur_leader_addr := self_addr n\<rparr>) (all_server_addr n))"
  have "\<exists>b'. WriteEntry L (binlogger ?n) (nop_entry (current_term ?n)) = Inr b'"
    using nop_entry_dumps [of "current_term ?n"] write_avail
    by (auto simp: WriteEntry_def Let_def case_prod_beta)
  then show ?thesis
    by (auto simp: SwitchToLeader_def StartReplicaLog_def Let_def case_prod_beta)
qed

lemma count_vote:
  assumes n: "has_votes M n k v" and M: "all_server_addr n = M"
  shows "\<exists>n' es. VoteCallBack L n \<lparr>vr_term = k, vr_vote_pass = True\<rparr> False = Inr (n', es) \<and> has_votes M n' k (v + 1)"
    (is "\<exists>n' es. VoteCallBack L n ?ok False = Inr (n', es) \<and> _")
proof (cases "status n = kLeader")
  case True
  then show ?thesis using n by (simp add: VoteCallBack_def has_votes_def)
next
  case False
  then have c: "vote_counts n ?ok False" and v: "vote_pass n k = Some v" and k: "current_term n = k"
    using n by (auto simp: has_votes_def vote_counts_def)
  have "\<exists>n' es. VoteCallBack L n ?ok False = Inr (n', es)"
    using c SwitchToLeader_total [of "n\<lparr>vote_pass := (vote_pass n)(k := Some (v + 1))\<rparr>"]
    by (auto simp: VoteCallBack_def vote_counts_def k v at_default_def Let_def)
  then obtain n' es where run: "VoteCallBack L n ?ok False = Inr (n', es)" by blast
  show ?thesis
    using run VoteCallBack_counts [OF c run] by (auto simp: has_votes_def k v M at_default_def)
qed

text \<open>The votes of the servers \<open>bs\<close> arrive.\<close>

lemma votes_arrive:
  assumes "live L M s" and "a \<in> set M" and "distinct bs" and "set bs \<subseteq> set M - {a}"
    and "has_votes M (sm_node s a) k v" and "vq_term r = k" "vq_candidate_addr r = a"
    and "\<And>b. b \<in> set bs \<Longrightarrow> VoteCall a b r \<in> set (sm_wire s) \<and> status (sm_node s b) \<noteq> kLeader \<and>
      current_term (sm_node s b) < k \<and> up_to_date r (sm_node s b)"
  shows "\<exists>s'. can_reach L M s s' \<and> has_votes M (sm_node s' a) k (v + int (length bs)) \<and>
    (\<forall>b \<in> set bs. status (sm_node s' b) = kFollower \<and> current_term (sm_node s' b) = k) \<and>
    (\<forall>x. x \<notin> insert a (set bs) \<longrightarrow> sm_node s' x = sm_node s x) \<and>
    (\<forall>x. (elect_step L)\<^sup>*\<^sup>* (sm_node s x) (sm_node s' x))"
  using assms
proof (induction bs arbitrary: s v)
  case Nil
  then show ?case by auto
next
  case (Cons b bs)
  let ?ok = "\<lparr>vr_term = k, vr_vote_pass = True\<rparr>"
  have b: "b \<in> set M" "b \<noteq> a" "VoteCall a b r \<in> set (sm_wire s)" "status (sm_node s b) \<noteq> kLeader"
    "current_term (sm_node s b) < k" "up_to_date r (sm_node s b)"
    using Cons.prems(4,8) by auto
  have "vote_for (sm_node s b) (vq_term r) = None"
    using live_node(1) [OF Cons.prems(1) b(1)] b(5) Cons.prems(6) by (simp add: node_inv_def)
  then obtain n where vote: "Vote (sm_node s b) r = (n, Some ?ok)" and n: "status n = kFollower" "current_term n = k"
    using Vote_grants [of "sm_node s b" r] b(4-6) Cons.prems(6) by metis
  obtain s1 where m1: "moves_to L M s b n {VoteCall a b r} {VoteReturn a ?ok} s1"
    using arrives(1) [OF b(3) vote] by blast
  note s1 = moves_to_live [OF m1 Cons.prems(1)]
  have "has_votes M (sm_node s1 a) k v" "all_server_addr (sm_node s1 a) = M"
    using Cons.prems(5) live_node(4) [OF s1(1) Cons.prems(2)] b(2) by (simp_all add: s1(3))
  then obtain n' es where ret: "VoteCallBack L (sm_node s1 a) ?ok False = Inr (n', es)"
    and n': "has_votes M n' k (v + 1)" using count_vote by blast
  have "VoteReturn a ?ok \<in> set (sm_wire s1)" using s1(5) by simp
  then obtain s2 where m2: "moves_to L M s1 a n' {VoteReturn a ?ok} {} s2"
    using arrives(2) ret by blast
  note s2 = moves_to_live [OF m2 s1(1)]
  have nodes: "sm_node s2 = (sm_node s)(b := n, a := n')" by (simp add: s2(3) s1(3))
  have "\<exists>s'. can_reach L M s2 s' \<and> has_votes M (sm_node s' a) k (v + 1 + int (length bs)) \<and>
      (\<forall>b \<in> set bs. status (sm_node s' b) = kFollower \<and> current_term (sm_node s' b) = k) \<and>
      (\<forall>x. x \<notin> insert a (set bs) \<longrightarrow> sm_node s' x = sm_node s2 x) \<and>
      (\<forall>x. (elect_step L)\<^sup>*\<^sup>* (sm_node s2 x) (sm_node s' x))" (is "\<exists>s'. ?P s'")
  proof (rule Cons.IH [OF s2(1) Cons.prems(2)])
    show "VoteCall a c r \<in> set (sm_wire s2) \<and> status (sm_node s2 c) \<noteq> kLeader \<and>
        current_term (sm_node s2 c) < k \<and> up_to_date r (sm_node s2 c)" if c: "c \<in> set bs" for c
    proof -
      have ne: "c \<noteq> b" "c \<noteq> a" using Cons.prems(3,4) c by auto
      have "VoteCall a c r \<in> set (sm_wire s2)" using s2(4) s1(4) Cons.prems(8) c ne by simp
      then show ?thesis using Cons.prems(8) c ne by (simp add: nodes)
    qed
    show "has_votes M (sm_node s2 a) k (v + 1)" using n' by (simp add: nodes)
  qed (use Cons.prems(3,4,6,7) in simp_all)
  then obtain s' where s': "?P s'" by blast
  have "sm_node s' b = n" using s' b(2) Cons.prems(3) by (simp add: nodes)
  moreover have "can_reach L M s2 s'" using s' by blast
  from can_reach_trans [OF can_reach_trans [OF s1(2) s2(2)] this] have "can_reach L M s s'" .
  moreover have "(elect_step L)\<^sup>*\<^sup>* (sm_node s x) (sm_node s' x)" for x
  proof -
    have "(elect_step L)\<^sup>*\<^sup>* (sm_node s x) (sm_node s2 x)"
      using elect_step.ballot [OF vote] elect_step.count [OF ret] b(2) by (auto simp: nodes s1(3))
    then show ?thesis using s' by (meson rtranclp_trans)
  qed
  moreover have "v + int (length (b # bs)) = v + 1 + int (length bs)" by simp
  ultimately show ?case
    using s' n b(2) by (intro exI [of _ s']) (simp add: nodes ac_simps)
qed

lemma campaign_wins:
  assumes s: "live L M s" and M: "distinct M" "2 \<le> length M"
    and none: "\<And>b. b \<in> set M \<Longrightarrow> status (sm_node s b) \<noteq> kLeader"
  shows "\<exists>s' a. can_reach L M s s' \<and> leads_all M (sm_node s') a \<and>
    (\<exists>b \<in> set M. current_term (sm_node s' a) = current_term (sm_node s b) + 1) \<and>
    (\<forall>x. (elect_step L)\<^sup>*\<^sup>* (sm_node s x) (sm_node s' x))"
proof -
  have "M \<noteq> []" using M(2) by auto
  then obtain a where a: "a \<in> set M" and best: "\<And>b m. b \<in> set M \<Longrightarrow>
      binlogger m = binlogger (sm_node s a) \<Longrightarrow> up_to_date (vote_request_of m) (sm_node s b)"
    by (rule best_log [where nodes = "sm_node s"]) blast
  let ?t = "\<lambda>b. current_term (sm_node s b)"
  define top where "top = Max (?t ` set M)"
  have max: "?t b \<le> top" if "b \<in> set M" for b using that by (simp add: top_def)
  define k where "k = ?t a + 1 + int (nat (top - ?t a))"
  have later: "?t b < k" if "b \<in> set M" for b using max [OF that] max [OF a] by (simp add: k_def)
  have "top \<in> ?t ` set M" unfolding top_def using a by (intro Max_in) auto
  then have k: "\<exists>b \<in> set M. k = ?t b + 1" using max [OF a] by (auto simp: k_def)
  obtain s1 where r1: "can_reach L M s s1" and c: "campaigns M s1 a k"
    and same: "\<And>x. x \<noteq> a \<Longrightarrow> sm_node s1 x = sm_node s x" and log: "binlogger (sm_node s1 a) = binlogger (sm_node s a)"
    and e1: "(elect_step L)\<^sup>*\<^sup>* (sm_node s a) (sm_node s1 a)"
    using later_round [OF s a none [OF a], of "nat (top - ?t a)"] unfolding k_def by blast
  note s1 = can_reach_live [OF r1 s]
  let ?r = "vote_request_of (sm_node s1 a)"
  have "\<exists>s'. can_reach L M s1 s' \<and> has_votes M (sm_node s' a) k (1 + int (length (remove1 a M))) \<and>
    (\<forall>b \<in> set (remove1 a M). status (sm_node s' b) = kFollower \<and> current_term (sm_node s' b) = k) \<and>
    (\<forall>x. x \<notin> insert a (set (remove1 a M)) \<longrightarrow> sm_node s' x = sm_node s1 x) \<and>
    (\<forall>x. (elect_step L)\<^sup>*\<^sup>* (sm_node s1 x) (sm_node s' x))" (is "\<exists>s'. ?P s'")
  proof (rule votes_arrive [OF s1 a])
    show "has_votes M (sm_node s1 a) k 1" using c M(2) by (simp add: campaigns_def has_votes_def Let_def)
    show "vq_term ?r = k" using c by (simp add: campaigns_def Let_def)
    show "vq_candidate_addr ?r = a" using live_node(3) [OF s1 a] by simp
    show "VoteCall a b ?r \<in> set (sm_wire s1) \<and> status (sm_node s1 b) \<noteq> kLeader \<and>
        current_term (sm_node s1 b) < k \<and> up_to_date ?r (sm_node s1 b)" if b: "b \<in> set (remove1 a M)" for b
      using c b M(1) none later best [OF _ log] same by (auto simp: campaigns_def Let_def)
  qed (use M(1) in auto)
  then obtain s' where s': "?P s'" by blast
  have "1 + int (length (remove1 a M)) = int (length M)"
    using a M(2) by (simp add: length_remove1 of_nat_diff)
  then have votes: "has_votes M (sm_node s' a) k (int (length M))" using s' by simp
  have "\<not> int (length M) \<le> int (length M div 2)" using M(2) by simp
  then have "status (sm_node s' a) = kLeader" and t: "current_term (sm_node s' a) = k"
    using votes by (simp_all only: has_votes_def simp_thms)
  moreover have "\<forall>b \<in> set M - {a}. status (sm_node s' b) = kFollower \<and> current_term (sm_node s' b) = k"
    using s' M(1) by simp
  ultimately have "leads_all M (sm_node s') a" using a by (simp add: leads_all_def)
  moreover have "can_reach L M s s'" using s' can_reach_trans [OF r1] by blast
  moreover have "(elect_step L)\<^sup>*\<^sup>* (sm_node s x) (sm_node s' x)" for x
    using s' e1 same by (cases "x = a") (metis rtranclp_trans, metis)
  ultimately show ?thesis using k t by blast
qed

text \<open>
  Unless some leader is of the latest term, every leader can be deposed, one after the other.
\<close>

lemma leader_possible:
  assumes "live L M s" and M: "distinct M" "2 \<le> length M"
  shows "\<exists>s' a. can_reach L M s s' \<and> leads_all M (sm_node s') a"
  using assms(1)
proof (induction "card {a \<in> set M. status (sm_node s a) = kLeader}" arbitrary: s rule: less_induct)
  case less
  let ?ls = "\<lambda>s. {a \<in> set M. status (sm_node s a) = kLeader}"
  consider (none) "?ls s = {}"
    | (top) a where "a \<in> ?ls s" "\<And>b. b \<in> set M \<Longrightarrow> current_term (sm_node s b) \<le> current_term (sm_node s a)"
    | (stale) a b where "a \<in> ?ls s" "b \<in> set M" "current_term (sm_node s a) < current_term (sm_node s b)"
    by fastforce
  then show ?case
  proof cases
    case none
    then show ?thesis using campaign_wins [OF less.prems M] by blast
  next
    case top
    then show ?thesis using settle [OF less.prems M(1), of a] by blast
  next
    case stale
    then obtain s1 where r: "can_reach L M s s1"
      and n: "sm_node s1 = (sm_node s)(a := SwitchToFollower (sm_node s a) (current_term (sm_node s b)))"
      using depose [OF less.prems, of a b] by blast
    have "?ls s1 \<subset> ?ls s" using stale(1) by (auto simp: n)
    then have "card (?ls s1) < card (?ls s)" by (intro psubset_card_mono) auto
    from less.hyps [OF this can_reach_live [OF r less.prems]] obtain s' a' where
      "can_reach L M s1 s'" "leads_all M (sm_node s') a'" by blast
    then show ?thesis using can_reach_trans [OF r] by blast
  qed
qed

end

lemma lone_live: "live L [a] s \<Longrightarrow> status (sm_node s a) \<noteq> kLeader"
  using lone_net by (fastforce simp: live_def sim_rel_def)

section \<open>Properties\<close>

text \<open>
  C3: A leader can always be elected, if there are two servers. From every state that a cluster of
  distinct members reaches from its start, whatever messages were lost and whoever led before, there
  is a way on to a state in which one member leads and all others follow it in its term, exactly
  when there are at least two members: a server alone never leads.
\<close>

theorem leader_electable:
  assumes "leveldb_available L content" and "distinct M" and "sim_init L M s\<^sub>0"
    and "sim_run L es s\<^sub>0 = Some s" and "\<forall>e \<in> set es. event_servers e \<subseteq> set M"
  shows "(\<exists>s' a. can_reach L M s s' \<and> leads_all M (sm_node s') a) \<longleftrightarrow> 2 \<le> length M"
proof -
  have s: "live L M s" using sim_run_rel [OF assms(4) sim_init_rel [OF assms(3)] assms(5)] by (simp add: live_def)
  have "False" if "can_reach L M s s'" "leads_all M (sm_node s') a" "length M < 2" for s' a
  proof -
    have "M = [a]" using that(2,3) by (cases M) (auto simp: leads_all_def less_2_cases_iff)
    then show False using lone_live can_reach_live [OF that(1) s] that(2) by (auto simp: leads_all_def)
  qed
  then show ?thesis
    using leveldb_available.leader_possible [OF assms(1) s assms(2)] by (meson not_le)
qed

theorem leader_electable_witness:
  "\<exists>(s :: mem_db sim) s' a. sim_run mem_leveldb two_leaders_run (sim_start three) = Some s \<and>
     can_reach mem_leveldb three s s' \<and> leads_all three (sm_node s') a"
proof -
  have "case_run two_leaders_run (\<lambda>s. True)" by code_simp
  then obtain s where s: "sim_run mem_leveldb two_leaders_run (sim_start three) = Some s"
    by (auto simp: case_run_def split: option.splits)
  have "distinct three" "\<forall>e \<in> set two_leaders_run. event_servers e \<subseteq> set three" "2 \<le> length three"
    by (simp_all add: three_def two_leaders_run_def)
  then show ?thesis
    using leader_electable [OF mem.leveldb_available_axioms _ sim_start_init s] s by blast
qed

end
