(* ===== verification/StableNetwork.thy ===== *)
theory StableNetwork
  imports Availability StableGc
begin

text \<open>
  The cluster under one leader is a part of the whole: from the start of the servers there is a
  way, by an election, to a state where it begins, and each of its steps (the cleaning of the logs
  included) is a sequence of handlers of the network. So what holds in every reachable state of the
  network holds there, and what is shown there is about states that the program gets to.
\<close>

section \<open>The relation\<close>

fun pc_sent :: "message set \<Rightarrow> repl_pc \<Rightarrow> bool" where
  "pc_sent S Idle \<longleftrightarrow> True"
| "pc_sent S (Prepared c) \<longleftrightarrow> Context c \<in> S"
| "pc_sent S (Called c mt req) \<longleftrightarrow> Context c \<in> S \<and> AppendRequest req \<in> S"
| "pc_sent S (Checked c mt req) \<longleftrightarrow> Context c \<in> S \<and> AppendRequest req \<in> S"
| "pc_sent S (Written c mt req) \<longleftrightarrow> Context c \<in> S \<and> AppendRequest req \<in> S"
| "pc_sent S (Returned c mt ret) \<longleftrightarrow> Context c \<in> S \<and> (\<forall>res. ret = Some res \<longrightarrow> AppendResponse res \<in> S)"

definition group_sent :: "message set \<Rightarrow> 'db group \<Rightarrow> bool" where
  "group_sent S g \<longleftrightarrow>
     (\<forall>a. pc_sent S (gr_thread g a)) \<and> AppendRequest ` gr_beats g \<subseteq> S \<and> AppendResponse ` gr_answers g \<subseteq> S"

definition group_rel :: "'db leveldb \<Rightarrow> string \<Rightarrow> string list \<Rightarrow> 'db group \<Rightarrow> 'db net \<Rightarrow> bool" where
  "group_rel L A M g t \<longleftrightarrow>
     net_reachable L M t \<and> nt_node t = gr_node g \<and> A \<in> set M \<and> group_sent (nt_sent t) g"

definition gc_rel :: "'db leveldb \<Rightarrow> string \<Rightarrow> string list \<Rightarrow> 'db gc_group \<Rightarrow> 'db net \<Rightarrow> bool" where
  "gc_rel L A M s t \<longleftrightarrow>
     group_rel L A M (gg_group s) t \<and>
     (\<forall>r. Some r \<in> set (gg_polled s) \<longrightarrow> StatusResponse r \<in> nt_sent t) \<and>
     (\<forall>(a, i) \<in> gg_cleans s. a \<in> set M \<and> CleanRequest i \<in> nt_sent t) \<and>
     (\<forall>(a, k) \<in> gg_tasks s. a \<in> set M \<and> Deletion k \<in> nt_sent t)"

lemma pc_sent_mono: "pc_sent S pc \<Longrightarrow> S \<subseteq> S' \<Longrightarrow> pc_sent S' pc"
  by (cases "(S, pc)" rule: pc_sent.cases) auto

lemma group_sent_mono: "group_sent S g \<Longrightarrow> S \<subseteq> S' \<Longrightarrow> group_sent S' g"
  by (auto simp: group_sent_def intro: pc_sent_mono)

lemma group_sent_updates [simp]:
  "group_sent S (set_node a n g) = group_sent S g"
  "group_sent S (g\<lparr>gr_ok := ok\<rparr>) = group_sent S g"
  "group_sent S (g\<lparr>gr_end := fin\<rparr>) = group_sent S g"
  "group_sent S (g\<lparr>gr_applied := ap\<rparr>) = group_sent S g"
  "group_sent S (set_thread b pc (set_node a n g)) = group_sent S (set_thread b pc g)"
  "group_sent S (set_thread b pc (g\<lparr>gr_ok := ok\<rparr>)) = group_sent S (set_thread b pc g)"
  by (simp_all add: group_sent_def set_node_def set_thread_def)

lemma group_sent_thread:
  "group_sent S g \<Longrightarrow> S \<subseteq> S' \<Longrightarrow> pc_sent S' pc \<Longrightarrow> group_sent S' (set_thread a pc g)"
  using group_sent_mono [of S g S'] by (simp add: group_sent_def set_thread_def)

lemma group_sent_pc: "group_sent S g \<Longrightarrow> gr_thread g a = pc \<Longrightarrow> pc_sent S pc"
  by (auto simp: group_sent_def)

text \<open>A handler of one member.\<close>

lemma group_rel_handles:
  assumes "group_rel L A M g t" and "a \<in> set M" and "set ins \<subseteq> nt_sent t"
    and "handles L (gr_node g a) ins n outs"
  obtains t' where "group_rel L A M (set_node a n g) t'" and "nt_sent t' = nt_sent t \<union> set outs"
proof -
  let ?t = "t\<lparr>nt_node := (nt_node t)(a := n), nt_sent := nt_sent t \<union> set outs\<rparr>"
  have "net_reachable L M ?t"
    using assms by (intro net_reachable.step [where ins = ins]) (auto simp: group_rel_def)
  then have "group_rel L A M (set_node a n g) ?t"
    using assms(1) by (auto simp: group_rel_def intro: group_sent_mono)
  then show thesis by (rule that) simp
qed

text \<open>What else a step of the group changes is not in the network.\<close>

lemma group_rel_same:
  "group_rel L A M g t \<Longrightarrow> gr_node g' = gr_node g \<Longrightarrow> group_sent (nt_sent t) g' \<Longrightarrow> group_rel L A M g' t"
  by (simp add: group_rel_def)

lemma group_rel_beat_handled:
  assumes rel: "group_rel L A M g t" and b: "b \<in> set M" and req: "AppendRequest req \<in> nt_sent t"
    and run: "AppendEntriesImpl L (gr_node g b) req = Inr (n, es, res)"
  obtains t' where "group_rel L A M (set_node b n g) t'" and "nt_sent t \<subseteq> nt_sent t'"
    and "AppendResponse res \<in> nt_sent t'"
proof -
  obtain n1 reply where c: "AppendEntries_check L (gr_node g b) req = Inr (n1, reply)"
    using run by (auto simp: AppendEntriesImpl_def bindE_eq_Inr)
  have ins: "set [AppendRequest req] \<subseteq> nt_sent t" using req by simp
  show thesis
  proof (cases reply)
    case (Some r)
    then have n: "n = n1" "r = res" using run c by (auto simp: AppendEntriesImpl_def)
    from group_rel_handles [OF rel b ins handles.refuse [OF c [unfolded Some]]] show thesis
      by (metis Un_upper1 UnI2 list.set_intros(1) n that)
  next
    case None
    obtain n2 where w: "AppendEntries_write L n1 req = Inr n2" and f: "AppendEntries_finish n2 req = (n, es, res)"
      using run c None by (auto simp: AppendEntriesImpl_def bindE_eq_Inr)
    obtain t1 where t1: "group_rel L A M (set_node b n1 g) t1" "nt_sent t1 = nt_sent t"
      by (rule group_rel_handles [OF rel b ins handles.accept [OF c [unfolded None]]]) simp
    have "handles L (gr_node (set_node b n1 g) b) [AppendRequest req] n2 []"
      using w by (auto intro: handles.store)
    from group_rel_handles [OF t1(1) b _ this] ins t1(2) obtain t2 where
      t2: "group_rel L A M (set_node b n2 (set_node b n1 g)) t2" "nt_sent t2 = nt_sent t" by auto
    have "handles L (gr_node (set_node b n2 (set_node b n1 g)) b) [AppendRequest req] n [AppendResponse res]"
      using f by (auto intro: handles.answer)
    from group_rel_handles [OF t2(1) b _ this] ins t2(2) obtain t3 where
      t3: "group_rel L A M (set_node b n (set_node b n2 (set_node b n1 g))) t3"
      "nt_sent t3 = nt_sent t \<union> {AppendResponse res}" by auto
    have "group_rel L A M (set_node b n g) t3" using t3(1) by (simp add: set_node_def)
    then show thesis using t3(2) by (intro that [of t3]) auto
  qed
qed

section \<open>The steps\<close>

text \<open>A step that runs one handler and then at most moves a thread.\<close>

lemma group_rel_move:
  assumes rel: "group_rel L A M g t" and a: "a \<in> set M" and ins: "set ins \<subseteq> nt_sent t"
    and run: "handles L (gr_node g a) ins n outs"
    and nodes: "gr_node g' = (gr_node g)(a := n)"
    and sent: "group_sent (nt_sent t \<union> set outs) g'"
  shows "\<exists>t'. group_rel L A M g' t' \<and> nt_sent t \<subseteq> nt_sent t'"
proof -
  obtain t' where t': "group_rel L A M (set_node a n g) t'" "nt_sent t' = nt_sent t \<union> set outs"
    by (rule group_rel_handles [OF rel a ins run])
  have "group_rel L A M g' t'" by (rule group_rel_same [OF t'(1)]) (use nodes sent t'(2) in simp_all)
  then show ?thesis using t'(2) by blast
qed

lemma client_call_handles: "client_call L n n' \<Longrightarrow> handles L n [] n' []"
  by (auto simp: client_call_def intro: handles.put handles.del handles.lock handles.unlock)

lemma group_step_rel:
  assumes step: "group_step L A M g g'" and rel: "group_rel L A M g t"
  shows "\<exists>t'. group_rel L A M g' t' \<and> nt_sent t \<subseteq> nt_sent t'"
proof -
  have A: "A \<in> set M" and sent: "group_sent (nt_sent t) g" using rel by (simp_all add: group_rel_def)
  note pc = group_sent_pc [OF sent] and mono = group_sent_thread [OF sent]
  show ?thesis
    using step
  proof cases
    case (client n)
    show ?thesis
      by (rule group_rel_move [OF rel A _ client_call_handles [OF client(2)]]) (use sent in \<open>simp_all add: client(1)\<close>)
  next
    case (prepare a n c)
    show ?thesis
      by (rule group_rel_move [OF rel A _ handles.prepare [OF prepare(4)]])
        (auto simp: prepare(1) intro: mono)
  next
    case (collect a c req mt)
    show ?thesis
      by (rule group_rel_move [OF rel A _ handles.collect [OF collect(4)]])
        (use pc [OF collect(3)] in \<open>auto simp: collect(1) intro: mono\<close>)
  next
    case (lose a c mt req)
    have "group_rel L A M g' t"
      by (rule group_rel_same [OF rel]) (use pc [OF lose(3)] sent in \<open>auto simp: lose(1) intro: mono\<close>)
    then show ?thesis by blast
  next
    case (inspect a c mt req n reply)
    have a: "a \<in> set M" using inspect(2) by simp
    show ?thesis
    proof (cases reply)
      case None
      show ?thesis
        by (rule group_rel_move [OF rel a _ handles.accept [OF inspect(4) [unfolded None]]])
          (use pc [OF inspect(3)] sent in \<open>auto simp: inspect(1) None intro: mono\<close>)
    next
      case (Some res)
      show ?thesis
        by (rule group_rel_move [OF rel a _ handles.refuse [OF inspect(4) [unfolded Some]]])
          (use pc [OF inspect(3)] in \<open>auto simp: inspect(1) Some intro: mono\<close>)
    qed
  next
    case (store a c mt req n)
    show ?thesis
      by (rule group_rel_move [OF rel _ _ handles.store [OF store(4)]])
        (use pc [OF store(3)] sent store(2) in \<open>auto simp: store(1) intro: mono\<close>)
  next
    case (answer a c mt req n es res)
    show ?thesis
      by (rule group_rel_move [OF rel _ _ handles.answer [OF answer(4)]])
        (use pc [OF answer(3)] answer(2) in \<open>auto simp: answer(1) intro: mono\<close>)
  next
    case (turn a c mt ret n ok es go)
    have p: "pc_sent (nt_sent t) (Returned c mt ret)" by (rule pc [OF turn(3)])
    show ?thesis
    proof (cases ret)
      case None
      show ?thesis
        by (rule group_rel_move [OF rel A _ handles.failure [OF turn(4) [unfolded None]]])
          (use p sent in \<open>auto simp: turn(1) intro: mono\<close>)
    next
      case (Some res)
      show ?thesis
        by (rule group_rel_move [OF rel A _ handles.digest [OF turn(4) [unfolded Some]]])
          (use p Some sent in \<open>auto simp: turn(1) intro: mono\<close>)
    qed
  next
    case beat
    show ?thesis
      by (rule group_rel_move [OF rel A _ handles.heartbeat])
        (use sent in \<open>auto simp: beat group_sent_def intro: pc_sent_mono\<close>)
  next
    case (beat_handled a req n es res)
    have "AppendRequest req \<in> nt_sent t" using beat_handled(3) sent by (auto simp: group_sent_def)
    then obtain t' where t': "group_rel L A M (set_node a n g) t'" "nt_sent t \<subseteq> nt_sent t'"
      "AppendResponse res \<in> nt_sent t'"
      using group_rel_beat_handled [OF rel _ _ beat_handled(4)] beat_handled(2) by blast
    have "group_rel L A M g' t'"
      by (rule group_rel_same [OF t'(1)])
        (use t' in \<open>auto simp: beat_handled(1) group_rel_def group_sent_def set_node_def\<close>)
    then show ?thesis using t'(2) by blast
  next
    case (beat_answered failed res)
    show ?thesis
    proof (cases "res \<in> gr_answers g")
      case True
      then have "set [AppendResponse res] \<subseteq> nt_sent t" using sent by (auto simp: group_sent_def)
      then show ?thesis
        by (rule group_rel_move [OF rel A _ handles.beat_answer]) (use sent in \<open>simp_all add: beat_answered(1)\<close>)
    next
      case False
      then have "HeartBeatCallBack (gr_node g A) res failed = gr_node g A"
        using beat_answered(2) by (simp add: HeartBeatCallBack_def)
      then have "g' = g" by (simp add: beat_answered(1) set_node_def)
      then show ?thesis using rel by blast
    qed
  next
    case (timer a d n es)
    show ?thesis
      by (rule group_rel_move [OF rel timer(2) _ handles.quiet_timer [OF timer(4)]])
        (use sent in \<open>simp_all add: timer(1)\<close>)
  next
    case (wake a)
    have "group_rel L A M g' t" by (rule group_rel_same [OF rel]) (use sent in \<open>simp_all add: wake(1)\<close>)
    then show ?thesis by blast
  next
    case (apply_entry a n)
    show ?thesis
      by (rule group_rel_move [OF rel apply_entry(2) _ handles.commit_apply [OF apply_entry(6)]])
        (use sent in \<open>simp_all add: apply_entry(1)\<close>)
  next
    case (acknowledge a n es)
    show ?thesis
      by (rule group_rel_move [OF rel acknowledge(2) _ handles.commit_ack [OF acknowledge(4)]])
        (use sent in \<open>simp_all add: acknowledge(1)\<close>)
  qed
qed

section \<open>The cleaning of the logs\<close>

lemma gc_rel_grows:
  assumes rel: "gc_rel L A M s t" and g: "group_rel L A M (gg_group s') t'" and "nt_sent t \<subseteq> nt_sent t'"
    and "\<And>r. Some r \<in> set (gg_polled s') \<Longrightarrow> Some r \<in> set (gg_polled s) \<or> StatusResponse r \<in> nt_sent t'"
    and "\<And>a i. (a, i) \<in> gg_cleans s' \<Longrightarrow> (a, i) \<in> gg_cleans s \<or> a \<in> set M \<and> CleanRequest i \<in> nt_sent t'"
    and "\<And>a k. (a, k) \<in> gg_tasks s' \<Longrightarrow> (a, k) \<in> gg_tasks s \<or> a \<in> set M \<and> Deletion k \<in> nt_sent t'"
  shows "gc_rel L A M s' t'"
  using assms unfolding gc_rel_def by blast

lemma gc_step_rel:
  assumes step: "gc_step L A M s s'" and rel: "gc_rel L A M s t"
  shows "\<exists>t'. gc_rel L A M s' t'"
proof -
  have g: "group_rel L A M (gg_group s) t" and polled: "\<And>r. Some r \<in> set (gg_polled s) \<Longrightarrow> StatusResponse r \<in> nt_sent t"
    and cleans: "\<And>a i. (a, i) \<in> gg_cleans s \<Longrightarrow> a \<in> set M \<and> CleanRequest i \<in> nt_sent t"
    and tasks: "\<And>a k. (a, k) \<in> gg_tasks s \<Longrightarrow> a \<in> set M \<and> Deletion k \<in> nt_sent t"
    using rel by (auto simp: gc_rel_def)
  have A: "A \<in> set M" and sent: "group_sent (nt_sent t) (gg_group s)" using g by (simp_all add: group_rel_def)
  have same: "set_node a (gr_node (gg_group s) a) (gg_group s) = gg_group s" for a
    by (simp add: set_node_def fun_upd_idem)
  show ?thesis
    using step
  proof cases
    case (run g')
    obtain t' where "group_rel L A M g' t'" "nt_sent t \<subseteq> nt_sent t'"
      using group_step_rel [OF run(2) g] by blast
    then have "gc_rel L A M s' t'" by (intro gc_rel_grows [OF rel]) (simp_all add: run(1))
    then show ?thesis ..
  next
    case poll
    let ?a = "M ! length (gg_polled s)"
    have a: "?a \<in> set M" using poll(2) by simp
    obtain t' where t': "group_rel L A M (gg_group s) t'"
      "nt_sent t' = nt_sent t \<union> {StatusResponse (ShowStatus (gr_node (gg_group s) ?a))}"
      using group_rel_handles [OF g a _ handles.show_status] unfolding same by force
    then have "gc_rel L A M s' t'" by (intro gc_rel_grows [OF rel]) (auto simp: poll(1))
    then show ?thesis ..
  next
    case poll_failed
    have "gc_rel L A M s' t" by (rule gc_rel_grows [OF rel]) (use g in \<open>auto simp: poll_failed(1)\<close>)
    then show ?thesis ..
  next
    case (clean interval n es)
    have M: "all_server_addr (gr_node (gg_group s) A) = M" using net_members g A by (fastforce simp: group_rel_def)
    have ins: "set [StatusResponse r. Some r \<leftarrow> gg_polled s] \<subseteq> nt_sent t" using polled by auto
    have es: "c \<in> set M \<and> j = i"
      if "SyncCleanBinlog a i \<in> set es" "SyncCleanBinlog c j \<in> set es" for a c i j
      using that clean(3) M by (auto simp: GarbageClean_def Let_def split: if_splits option.splits)
    show ?thesis
    proof (cases "\<exists>a i. SyncCleanBinlog a i \<in> set es")
      case True
      then obtain a i where ai: "SyncCleanBinlog a i \<in> set es" by blast
      obtain t' where t': "group_rel L A M (set_node A n (gg_group s)) t'" "nt_sent t' = nt_sent t \<union> {CleanRequest i}"
        using group_rel_handles [OF g A ins handles.gc [OF clean(3) ai]] by force
      have "gc_rel L A M s' t'"
        by (rule gc_rel_grows [OF rel]) (use t' es [OF ai] in \<open>auto simp: clean(1)\<close>)
      then show ?thesis ..
    next
      case False
      obtain t' where t': "group_rel L A M (set_node A n (gg_group s)) t'" "nt_sent t' = nt_sent t"
        using group_rel_handles [OF g A ins handles.quiet_gc [OF clean(3)]] by force
      have "gc_rel L A M s' t'" by (rule gc_rel_grows [OF rel]) (use t' False in \<open>auto simp: clean(1)\<close>)
      then show ?thesis ..
    qed
  next
    case (request a i ok es)
    have a: "a \<in> set M" and ins: "set [CleanRequest i] \<subseteq> nt_sent t" using cleans [OF request(2)] by simp_all
    show ?thesis
    proof (cases "\<exists>k. AddDelBinlog k \<in> set es")
      case True
      then obtain k where k: "AddDelBinlog k \<in> set es" by blast
      then have one: "k' = k" if "AddDelBinlog k' \<in> set es" for k'
        using that request(3) by (auto simp: CleanBinlog_def split: if_splits)
      obtain t' where t': "group_rel L A M (gg_group s) t'" "nt_sent t' = nt_sent t \<union> {Deletion k}"
        using group_rel_handles [OF g a ins handles.clean [OF request(3) k]] unfolding same by force
      have "gc_rel L A M s' t'" by (rule gc_rel_grows [OF rel]) (use t' a one in \<open>auto simp: request(1)\<close>)
      then show ?thesis ..
    next
      case False
      have "gc_rel L A M s' t" by (rule gc_rel_grows [OF rel]) (use g False in \<open>auto simp: request(1)\<close>)
      then show ?thesis ..
    qed
  next
    case (delete a k)
    have a: "a \<in> set M" and ins: "set [Deletion k] \<subseteq> nt_sent t" using tasks [OF delete(2)] by simp_all
    obtain t' where t': "group_rel L A M (set_node a (DelBinlog L (gr_node (gg_group s) a) k) (gg_group s)) t'"
      "nt_sent t' = nt_sent t"
      using group_rel_handles [OF g a ins handles.del_binlog] by force
    have "gc_rel L A M s' t'" by (rule gc_rel_grows [OF rel]) (use t' in \<open>auto simp: delete(1)\<close>)
    then show ?thesis ..
  qed
qed

lemma gc_runs_rel: "(gc_step L A M)\<^sup>*\<^sup>* s s' \<Longrightarrow> gc_rel L A M s t \<Longrightarrow> \<exists>t'. gc_rel L A M s' t'"
proof (induction arbitrary: t rule: rtranclp_induct)
  case (step s1 s2)
  then show ?case using gc_step_rel by blast
qed auto

section \<open>From the start to a leader\<close>

text \<open>The cluster under one leader, at its beginning.\<close>

definition begin_group :: "(string \<Rightarrow> 'db node) \<Rightarrow> 'db gc_group" where
  "begin_group nodes =
     \<lparr>gg_group = \<lparr>gr_node = nodes, gr_thread = (\<lambda>_. Idle), gr_ok = (\<lambda>_. True), gr_end = (\<lambda>_. -1),
        gr_applied = (\<lambda>_. False), gr_beats = {}, gr_answers = {}\<rparr>,
      gg_polled = [], gg_cleans = {}, gg_tasks = {}\<rparr>"

definition fresh_cluster ::
  "'db leveldb \<Rightarrow> ('db \<Rightarrow> string \<Rightarrow> string option) \<Rightarrow> string list \<Rightarrow> 'db sim \<Rightarrow> bool"
where
  "fresh_cluster L content M s \<longleftrightarrow>
     (\<forall>a \<in> set M. fresh_node L content M a (sm_node s a)) \<and> sm_wire s = [] \<and> sm_tasks s = [] \<and> sm_idle s = []"

lemma begin_group_rel:
  "live L M s \<Longrightarrow> A \<in> set M \<Longrightarrow> \<exists>t. gc_rel L A M (begin_group (sm_node s)) t"
  by (auto simp: live_def sim_rel_def gc_rel_def group_rel_def group_sent_def begin_group_def)

context leveldb_available
begin

lemma fresh_cluster_live: "fresh_cluster L content M s \<Longrightarrow> live L M s"
proof -
  assume s: "fresh_cluster L content M s"
  have "\<exists>b ds d es. AirDBImpl_init L a M b ds d = Inr (sm_node s a, es) \<and> 0 \<le> bl_length b \<and>
      -1 \<le> last_applied_index (sm_node s a)" if "a \<in> set M" for a
  proof -
    have fresh: "fresh_node L content M a (sm_node s a)" using s that by (simp add: fresh_cluster_def)
    then obtain b ds d es where "AirDBImpl_init L a M b ds d = Inr (sm_node s a, es)" "binlog_rel content 0 b []"
      by (auto simp: fresh_node_def)
    then show ?thesis using fresh_quiet [OF fresh] binlog_rel_length by (fastforce simp: quiet_def)
  qed
  then have "sim_init L M s" using s by (simp add: sim_init_def fresh_cluster_def)
  from sim_init_rel [OF this] show ?thesis by (auto simp: live_def)
qed

lemma first_election:
  assumes s0: "fresh_cluster L content M s\<^sub>0" and M: "distinct M" "2 \<le> length M"
  obtains A s where "can_reach L M s\<^sub>0 s" and "gc_start L content A M (begin_group (sm_node s))"
proof -
  have fresh: "fresh_node L content M a (sm_node s\<^sub>0 a)" if "a \<in> set M" for a
    using s0 that by (simp add: fresh_cluster_def)
  have st: "status (sm_node s\<^sub>0 a) = kFollower \<and> current_term (sm_node s\<^sub>0 a) = 0" if "a \<in> set M" for a
    using fresh [OF that] AirDBImpl_init_state(3,6) by (fastforce simp: fresh_node_def)
  obtain s A where s: "can_reach L M s\<^sub>0 s" "leads_all M (sm_node s) A"
    and t: "\<exists>b \<in> set M. current_term (sm_node s A) = current_term (sm_node s\<^sub>0 b) + 1"
    and runs: "\<forall>x. (elect_step L)\<^sup>*\<^sup>* (sm_node s\<^sub>0 x) (sm_node s x)"
    using campaign_wins [OF fresh_cluster_live [OF s0] M] st by auto
  have "only_elections L content M a (sm_node s a)" if "a \<in> set M" for a
    using fresh [OF that] runs by (auto simp: only_elections_def)
  moreover have "in_i64 (current_term (sm_node s A))" using t st by (auto simp: in_i64_def)
  ultimately have "gc_start L content A M (begin_group (sm_node s))"
    using s(2) M(1) by (auto simp: gc_start_def group_start_def begin_group_def leads_all_def)
  with s(1) show thesis by (rule that)
qed

end

section \<open>Properties\<close>

text \<open>
  C4: The cluster under one leader is what the program gets to. From the construction of at least two
  servers on empty databases there is a way, by an election with every message delivered, to
  a state where the cluster under one leader begins, and whatever that cluster then does, the
  cleaning of its logs included, is a run of the network of all handlers.
\<close>

theorem stable_cluster_arises:
  assumes "leveldb_available L content" and "distinct M" and "2 \<le> length M" and "fresh_cluster L content M s\<^sub>0"
  shows "\<exists>A s. can_reach L M s\<^sub>0 s \<and> gc_start L content A M (begin_group (sm_node s)) \<and>
    (\<forall>s'. (gc_step L A M)\<^sup>*\<^sup>* (begin_group (sm_node s)) s' \<longrightarrow>
       (\<exists>t. net_reachable L M t \<and> nt_node t = gr_node (gg_group s')))"
proof -
  obtain A s where s: "can_reach L M s\<^sub>0 s" "gc_start L content A M (begin_group (sm_node s))"
    by (rule leveldb_available.first_election [OF assms(1,4,2,3)])
  have "live L M s" by (rule can_reach_live [OF s(1) leveldb_available.fresh_cluster_live [OF assms(1,4)]])
  moreover have "A \<in> set M" using s(2) by (auto simp: gc_start_def group_start_def)
  ultimately obtain t where t: "gc_rel L A M (begin_group (sm_node s)) t" using begin_group_rel by blast
  have "\<exists>t. net_reachable L M t \<and> nt_node t = gr_node (gg_group s')"
    if "(gc_step L A M)\<^sup>*\<^sup>* (begin_group (sm_node s)) s'" for s'
    using gc_runs_rel [OF that t] by (auto simp: gc_rel_def group_rel_def)
  then show ?thesis using s by blast
qed

theorem stable_cluster_arises_witness:
  "\<exists>A (s :: mem_db sim). can_reach mem_leveldb three (sim_start three) s \<and>
     gc_start mem_leveldb map_of A three (begin_group (sm_node s)) \<and>
     (\<exists>t. net_reachable mem_leveldb three t \<and> nt_node t = sm_node s)"
proof -
  have "fresh_cluster mem_leveldb map_of three (sim_start three)"
    using sample_node_fresh by (simp add: fresh_cluster_def sim_start_def)
  moreover have "distinct three" "2 \<le> length three" by (simp_all add: three_def)
  ultimately show ?thesis
    using stable_cluster_arises [OF mem.leveldb_available_axioms] by (fastforce simp: begin_group_def)
qed

end
