(* ===== verification/Programs.thy ===== *)
theory Programs
  imports Sdk Startup
begin

text \<open>
  The two programs of the repository, from their flags to their exit codes: the server
  \<open>src/airdb_main.cc\<close> and the command line tool \<open>sdk/airdb_cli_main.cc\<close>. \<open>boost::split\<close>, the RPC
  library and the signals that arrive are parameters.
\<close>

section \<open>The server\<close>

text \<open>Its own address among the members; \<open>at\<close> throws when the number is out of range.\<close>

definition server_id_of :: "string list \<Rightarrow> int \<Rightarrow> string res" where
  "server_id_of members server_id =
     (let i = server_id - 1 in
      if 0 \<le> i \<and> i < int (length members) then Inr (members ! nat i) else Inl OutOfRange)"

text \<open>
  The RPC server, on the state of the world. Signals are given as a list for every test of the
  loop: those that arrived since the test before (or since the handlers were installed), of the two
  kinds that are handled.
\<close>

record 'w rpc_server =
  RegisterService :: "'w \<Rightarrow> 'w \<times> bool"
  StartServer :: "string \<Rightarrow> 'w \<Rightarrow> 'w \<times> bool"

datatype handled = SIGINT | SIGTERM

definition SignalIntHandler :: "handled \<Rightarrow> bool \<Rightarrow> bool" where
  "SignalIntHandler sig s_quit = True"

text \<open>The waiting loop, which may go on for ever; its value is the number of pauses.\<close>

partial_function (option) wait_for_quit :: "(nat \<Rightarrow> handled list) \<Rightarrow> bool \<Rightarrow> nat \<Rightarrow> nat option" where
  "wait_for_quit sigs s_quit i =
     (let s_quit' = fold SignalIntHandler (sigs i) s_quit
      in if s_quit' then Some i else wait_for_quit sigs s_quit' (i + 1))"

datatype ending = Crashed fault | Exited int | Serving

text \<open>What \<open>main\<close> does to the world, what it prints, and how it ends.\<close>

definition airdb_main ::
  "('db, 'w) system \<Rightarrow> 'db leveldb \<Rightarrow> (string \<Rightarrow> string list) \<Rightarrow> flags \<Rightarrow> int \<Rightarrow> 'w rpc_server \<Rightarrow>
     (nat \<Rightarrow> handled list) \<Rightarrow> 'w \<Rightarrow> 'w \<times> string \<times> ending"
where
  "airdb_main S L split fl r srv sigs w =
     (let s_quit = False;
          members = split (FLAGS_cluster_members fl)
      in case server_id_of members (FLAGS_server_id fl) of
           Inl f \<Rightarrow> (w, [], Crashed f)
         | Inr server_id \<Rightarrow>
             (case AirDBImpl_new S L fl server_id members r w of
                (w1, Inl f) \<Rightarrow> (w1, [], Crashed f)
              | (w1, Inr db_node) \<Rightarrow>
                  let (w2, registered) = RegisterService srv w1 in
                  if \<not> registered then (w2, [], Exited (-1))
                  else
                    let out = ''==== start server_id is '' @ server_id @ newline;
                        (w3, started) = StartServer srv server_id w2
                    in if \<not> started then (w3, out, Exited (-2))
                       else (w3, out,
                         case wait_for_quit sigs s_quit 0 of None \<Rightarrow> Serving | Some n \<Rightarrow> Exited 0)))"

section \<open>The command line tool\<close>

text \<open>The remote procedures the library calls, for a cluster whose state is the world.\<close>

record 'w airdb_stub =
  stub_ShowStatus :: "(unit, show_status_response, 'w) rpc"
  stub_Put :: "(string \<times> string, sdk_reply, 'w) rpc"
  stub_Get :: "(string, get_response, 'w) rpc"
  stub_Delete :: "(string, sdk_reply, 'w) rpc"

text \<open>The library's call for the command, on the members from the flags.\<close>

definition cli_command :: "'w airdb_stub \<Rightarrow> sdk \<Rightarrow> flags \<Rightarrow> 'w \<Rightarrow> cli_result \<times> 'w" where
  "cli_command stub s fl w =
     (if FLAGS_airdb_cmd fl = ''show'' then
        (case ShowClusterStatus (stub_ShowStatus stub) s w of
           (infos, printed, s', w') \<Rightarrow> (CliShow infos printed, w'))
      else if FLAGS_airdb_cmd fl = ''put'' then
        (case AirDBSdk_Put (stub_Put stub) s (FLAGS_airdb_key fl) (FLAGS_airdb_value fl) w of
           (ret, s', w') \<Rightarrow> (CliPut ret, w'))
      else if FLAGS_airdb_cmd fl = ''get'' then
        (case AirDBSdk_Get (stub_Get stub) s (FLAGS_airdb_key fl) w of
           ((ret, val), s', w') \<Rightarrow> (CliGet ret (case val of None \<Rightarrow> [] | Some v \<Rightarrow> v), w'))
      else if FLAGS_airdb_cmd fl = ''del'' then
        (case AirDBSdk_Delete (stub_Delete stub) s (FLAGS_airdb_key fl) w of
           (ret, s', w') \<Rightarrow> (CliDel (FLAGS_airdb_key fl) ret, w'))
      else (CliOther, w))"

definition airdb_cli ::
  "'w airdb_stub \<Rightarrow> (string \<Rightarrow> string list) \<Rightarrow> flags \<Rightarrow> int \<Rightarrow> int \<Rightarrow> 'w \<Rightarrow> ('w \<times> string \<times> int) res"
where
  "airdb_cli stub split fl start_time end_time w =
     bindE (ParseFlagFromArgs split (FLAGS_cluster_members fl)) (\<lambda>members.
       case cli_command stub (AirDBSdk_init members) fl w of
         (r, w') \<Rightarrow> Inr (w', cli_main r (FLAGS_airdb_key fl) start_time end_time))"

section \<open>Lemmas\<close>

lemma handle_signals: "fold SignalIntHandler xs q \<longleftrightarrow> xs \<noteq> [] \<or> q"
  by (induction xs arbitrary: q) (auto simp: SignalIntHandler_def)

text \<open>The loop returns at the first test before which a signal arrived.\<close>

lemma wait_for_quit_some:
  assumes "wait_for_quit sigs q i = Some n"
  shows "i \<le> n \<and> (q \<or> sigs n \<noteq> [])"
proof (rule wait_for_quit.raw_induct [where P = "\<lambda>sigs q i n. i \<le> n \<and> (q \<or> sigs n \<noteq> [])", OF _ assms])
  fix wait :: "(nat \<Rightarrow> handled list) \<Rightarrow> bool \<Rightarrow> nat \<Rightarrow> nat option" and sigs q i n
  assume rest: "\<And>sigs q i n. wait sigs q i = Some n \<Longrightarrow> i \<le> n \<and> (q \<or> sigs n \<noteq> [])"
    and run: "(let s_quit' = fold SignalIntHandler (sigs i) q
      in if s_quit' then Some i else wait sigs s_quit' (i + 1)) = Some n"
  show "i \<le> n \<and> (q \<or> sigs n \<noteq> [])"
  proof (cases "sigs i = [] \<and> \<not> q")
    case True
    then have "wait sigs False (i + 1) = Some n" using run by (simp add: Let_def handle_signals)
    then show ?thesis using rest by fastforce
  qed (use run in \<open>auto simp: Let_def handle_signals\<close>)
qed

lemma wait_for_quit_returns:
  "sigs (i + d) \<noteq> [] \<Longrightarrow> wait_for_quit sigs False i \<noteq> None"
proof (induction d arbitrary: i)
  case (Suc d)
  then show ?case using Suc.IH [of "i + 1"]
    by (subst wait_for_quit.simps) (simp add: Let_def handle_signals)
qed (subst wait_for_quit.simps, simp add: Let_def handle_signals)

lemma wait_for_quit_none: "wait_for_quit sigs False 0 = None \<longleftrightarrow> (\<forall>k. sigs k = [])"
  using wait_for_quit_some [of sigs False 0] wait_for_quit_returns [of sigs 0]
  by (cases "wait_for_quit sigs False 0") auto

section \<open>Properties\<close>

text \<open>
  C31: How the server ends. It serves for ever exactly when it came up and no signal ever arrives, and
  exits with 0 exactly when it came up and one does; to come up its number must name a member, its
  databases must open, and the RPC library must register the service and start on its address. It
  announces its address when it is registered, before it is known that the address can be used.
\<close>

theorem airdb_main_ending:
  fixes S L split fl r srv sigs w
  defines "members \<equiv> split (FLAGS_cluster_members fl)"
  defines "run \<equiv> airdb_main S L split fl r srv sigs w"
  defines "up \<equiv> (\<lambda>a w3. 1 \<le> FLAGS_server_id fl \<and> FLAGS_server_id fl \<le> int (length members) \<and>
    a = members ! nat (FLAGS_server_id fl - 1) \<and>
    (\<exists>n w1 w2. AirDBImpl_new S L fl a members r w = (w1, Inr n) \<and> RegisterService srv w1 = (w2, True) \<and>
       StartServer srv a w2 = (w3, True)))"
  shows "(snd (snd run) = Serving \<longleftrightarrow> (\<exists>a w3. up a w3) \<and> (\<forall>k. sigs k = [])) \<and>
    (snd (snd run) = Exited 0 \<longleftrightarrow> (\<exists>a w3. up a w3) \<and> (\<exists>k. sigs k \<noteq> [])) \<and>
    (\<forall>a w3. up a w3 \<longrightarrow> fst run = w3 \<and> fst (snd run) = ''==== start server_id is '' @ a @ newline) \<and>
    (snd (snd run) = Exited (-1) \<longrightarrow> fst (snd run) = []) \<and>
    (snd (snd run) = Exited (-2) \<longrightarrow> fst (snd run) \<noteq> [])"
proof (cases "server_id_of members (FLAGS_server_id fl)")
  case (Inl f)
  then have "\<not> up a w3" for a w3 by (auto simp: server_id_of_def up_def Let_def split: if_splits)
  then show ?thesis using Inl by (simp add: run_def airdb_main_def members_def)
next
  case (Inr a)
  then have a: "a = members ! nat (FLAGS_server_id fl - 1)" "1 \<le> FLAGS_server_id fl"
    "FLAGS_server_id fl \<le> int (length members)"
    by (auto simp: server_id_of_def Let_def split: if_splits)
  obtain w1 n where new: "AirDBImpl_new S L fl a members r w = (w1, n)" by fastforce
  obtain w2 reg where reg: "RegisterService srv w1 = (w2, reg)" by fastforce
  obtain w3 st where st: "StartServer srv a w2 = (w3, st)" by fastforce
  have up: "up b w4 \<longleftrightarrow> b = a \<and> w4 = w3 \<and> (\<exists>m. n = Inr m) \<and> reg \<and> st" for b w4
    using a new reg st by (auto simp: up_def)
  have run: "run = (case n of Inl f \<Rightarrow> (w1, [], Crashed f) | Inr m \<Rightarrow>
      if \<not> reg then (w2, [], Exited (-1)) else
      if \<not> st then (w3, ''==== start server_id is '' @ a @ newline, Exited (-2)) else
      (w3, ''==== start server_id is '' @ a @ newline,
        case wait_for_quit sigs False 0 of None \<Rightarrow> Serving | Some n \<Rightarrow> Exited 0))"
    using Inr new reg st by (simp add: run_def airdb_main_def members_def Let_def split: sum.split)
  show ?thesis
    using wait_for_quit_none [of sigs]
    by (cases n; cases "wait_for_quit sigs False 0") (auto simp: run up)
qed

definition sample_rpc :: "unit rpc_server" where
  "sample_rpc = \<lparr>RegisterService = (\<lambda>w. (w, True)), StartServer = (\<lambda>a w. (w, True))\<rparr>"

theorem airdb_main_ending_witness:
  "snd (airdb_main (sample_system []) mem_leveldb (\<lambda>_. [''a'', ''b'']) default_flags 5 sample_rpc
     (\<lambda>k. []) ()) = (''==== start server_id is a'' @ newline, Serving) \<and>
   snd (snd (airdb_main (sample_system []) mem_leveldb (\<lambda>_. [''a'', ''b'']) default_flags 5 sample_rpc
     (\<lambda>k. if k = 3 then [SIGINT] else []) ())) = Exited 0"
proof -
  have "case snd (AirDBImpl_new (sample_system []) mem_leveldb default_flags ''a'' [''a'', ''b''] 5 ()) of
      Inr n \<Rightarrow> True | Inl f \<Rightarrow> False"
    by code_simp
  then obtain n where n: "AirDBImpl_new (sample_system []) mem_leveldb default_flags ''a'' [''a'', ''b''] 5 () = ((), Inr n)"
    by (cases "AirDBImpl_new (sample_system []) mem_leveldb default_flags ''a'' [''a'', ''b''] 5 ()")
      (auto split: sum.splits)
  note run = airdb_main_ending [where S = "sample_system []" and L = mem_leveldb and r = 5 and w = "()"
      and split = "\<lambda>_. [''a'', ''b'']" and fl = default_flags and srv = sample_rpc]
  have fl: "FLAGS_server_id default_flags = 1" by (simp add: default_flags_def)
  show ?thesis
    using run [of "\<lambda>k. []"] run [of "\<lambda>k. if k = 3 then [SIGINT] else []"] n
    by (auto simp: fl sample_rpc_def prod_eq_iff)
qed

end
