(* ===== verification/Deployment.thy ===== *)
theory Deployment
  imports Programs LeaderChange
begin

text \<open>
  All programs together: the command line tool, the client library, the RPC channels and three
  simulated servers behind them. A call that the leader accepts is answered when the cluster comes
  to rest, by a schedule that lets everything go on that can: messages, threads, commit threads.
\<close>

section \<open>The cluster behind the channels\<close>

text \<open>The next event: a message, a new thread, a turn that has something to send, a commit thread.\<close>

definition next_event :: "string list \<Rightarrow> 'db sim \<Rightarrow> event option" where
  "next_event M s =
     (if sm_wire s \<noteq> [] then Some (Deliver 0)
      else case sm_tasks s of
        (a, b) # ts \<Rightarrow> Some (Begin a b)
      | [] \<Rightarrow>
          (case filter (\<lambda>(a, b). status (sm_node s a) = kLeader \<and>
               next_index (sm_node s a) b \<noteq> Some (log_length (sm_node s a))) (sm_idle s) of
             (a, b) # ps \<Rightarrow> Some (Turn a b)
           | [] \<Rightarrow>
               (case filter (\<lambda>a. last_applied_index (sm_node s a) < commit_index (sm_node s a)) M of
                  a # as \<Rightarrow> Some (Commit a)
                | [] \<Rightarrow> None)))"

fun settle :: "'db leveldb \<Rightarrow> string list \<Rightarrow> nat \<Rightarrow> 'db sim \<Rightarrow> 'db sim" where
  "settle L M 0 s = s"
| "settle L M (Suc k) s =
     (case next_event M s of
        None \<Rightarrow> s
      | Some e \<Rightarrow> (case sim_step L e s of None \<Rightarrow> s | Some s' \<Rightarrow> settle L M k s'))"

text \<open>The world: the cluster, the number of the next call, and how long a caller waits.\<close>

record world =
  wd_sim :: "mem_db sim"
  wd_next :: call
  wd_patience :: nat

definition rpc_write ::
  "string list \<Rightarrow> (mem_db node \<Rightarrow> call \<Rightarrow> mem_db call_result) \<Rightarrow> string \<Rightarrow> world \<Rightarrow> world \<times> sdk_reply option"
where
  "rpc_write M handler a w =
     (let c = wd_next w; w' = w\<lparr>wd_next := c + 1\<rparr> in
      case handler (sm_node (wd_sim w) a) c of
        Inl f \<Rightarrow> (w', None)
      | Inr (Inl reply) \<Rightarrow> (w', Some reply)
      | Inr (Inr x) \<Rightarrow>
          let s = settle mem_leveldb M (wd_patience w) (sim_moves a x (wd_sim w))
          in (w'\<lparr>wd_sim := s\<rparr>,
              if c \<in> set (sm_answered s) then Some \<lparr>rp_success = True, rp_leader_id = []\<rparr> else None))"

definition cluster_stub :: "string list \<Rightarrow> world airdb_stub" where
  "cluster_stub M = \<lparr>
     stub_ShowStatus = (\<lambda>ch q w. (w, Some (ShowStatus (sm_node (wd_sim w) (ch_server ch))))),
     stub_Put = (\<lambda>ch q w. rpc_write M (\<lambda>n c. Put mem_leveldb n c (fst q) (snd q)) (ch_server ch) w),
     stub_Get = (\<lambda>ch q w. (w, case Get mem_leveldb (sm_node (wd_sim w) (ch_server ch)) q of
        Inr r \<Rightarrow> r | Inl f \<Rightarrow> None)),
     stub_Delete = (\<lambda>ch q w. rpc_write M (\<lambda>n c. Delete mem_leveldb n c q) (ch_server ch) w)\<rparr>"

section \<open>A session\<close>

text \<open>\<open>boost::split\<close> at the commas.\<close>

fun split_commas :: "string \<Rightarrow> string list" where
  "split_commas [] = [[]]"
| "split_commas (c # cs) =
     (if c = CHR '','' then [] # split_commas cs
      else case split_commas cs of x # xs \<Rightarrow> (c # x) # xs | [] \<Rightarrow> [[c]])"

definition cli_flags :: "string \<Rightarrow> string \<Rightarrow> string \<Rightarrow> flags" where
  "cli_flags cmd k v = default_flags\<lparr>FLAGS_cluster_members := ''a,b,c'', FLAGS_airdb_cmd := cmd,
     FLAGS_airdb_key := k, FLAGS_airdb_value := v\<rparr>"

text \<open>One run of the tool after the other, on the same cluster: what each prints and exits with.\<close>

fun session :: "string list \<Rightarrow> flags list \<Rightarrow> world \<Rightarrow> ((string \<times> int) list \<times> world) option" where
  "session M [] w = Some ([], w)"
| "session M (fl # fls) w =
     (case airdb_cli (cluster_stub M) split_commas fl 0 3000 w of
        Inl f \<Rightarrow> None
      | Inr (w', r) \<Rightarrow> map_option (\<lambda>(rs, w''). (r # rs, w'')) (session M fls w'))"

definition elected :: "mem_db sim" where
  "elected = (case sim_step mem_leveldb (Timeout ''b'') (sim_start three) of
     Some s \<Rightarrow> settle mem_leveldb three 60 s | None \<Rightarrow> sim_start three)"

definition first_world :: world where
  "first_world = \<lparr>wd_sim = elected, wd_next = 1, wd_patience = 60\<rparr>"

section \<open>What the session does is done by the servers\<close>

definition sound_world :: "string list \<Rightarrow> world \<Rightarrow> bool" where
  "sound_world M w \<longleftrightarrow> (\<exists>t. sim_rel mem_leveldb M (wd_sim w) t)"

lemma next_event_servers:
  assumes "next_event M s = Some e"
  shows "event_servers e \<subseteq> set M"
proof (cases e)
  case (Commit a)
  obtain as where "filter (\<lambda>a. last_applied_index (sm_node s a) < commit_index (sm_node s a)) M = a # as"
    using assms unfolding Commit next_event_def by (simp split: if_splits list.splits prod.splits)
  then have "a \<in> set (filter (\<lambda>a. last_applied_index (sm_node s a) < commit_index (sm_node s a)) M)" by simp
  then show ?thesis by (simp add: Commit)
qed (use assms in \<open>simp_all add: next_event_def split: if_splits list.splits prod.splits\<close>)

lemma settle_rel: "sim_rel L M s t \<Longrightarrow> \<exists>t'. sim_rel L M (settle L M k s) t'"
proof (induction L M k s arbitrary: t rule: settle.induct)
  case (2 L M k s)
  show ?case
  proof (cases "next_event M s")
    case (Some e)
    show ?thesis
    proof (cases "sim_step L e s")
      case None
      then show ?thesis using 2(2) Some by auto
    next
      case step: (Some s')
      obtain t' where "sim_rel L M s' t'" using sim_step_rel [OF 2(2) next_event_servers [OF Some] step] by blast
      then show ?thesis using 2(1) [OF Some step] Some step by simp
    qed
  qed (use 2(2) in auto)
qed auto

lemma rpc_write_sound:
  assumes sound: "sound_world M w" and a: "a \<in> set M"
    and event: "\<And>c. event_servers (ev c) \<subseteq> set M"
    and step: "\<And>c s. sim_step mem_leveldb (ev c) s = sim_call a (handler (sm_node s a) c) s"
  shows "sound_world M (fst (rpc_write M handler a w))"
proof (cases "handler (sm_node (wd_sim w) a) (wd_next w)")
  case (Inr r)
  show ?thesis
  proof (cases r)
    case (Inl reply)
    then show ?thesis using sound Inr by (simp add: rpc_write_def sound_world_def)
  next
    case run: (Inr x)
    have "sim_step mem_leveldb (ev (wd_next w)) (wd_sim w) = Some (sim_moves a x (wd_sim w))"
      by (simp add: step Inr run sim_call_def)
    then obtain t where "sim_rel mem_leveldb M (sim_moves a x (wd_sim w)) t"
      using sound sim_step_rel event unfolding sound_world_def by blast
    then show ?thesis using settle_rel [of mem_leveldb M] Inr run
      by (simp add: rpc_write_def sound_world_def Let_def)
  qed
qed (use sound in \<open>simp add: rpc_write_def sound_world_def\<close>)

lemma stub_sound:
  assumes "sound_world M w" and "ch_server ch \<in> set M"
  shows "sound_world M (fst (stub_Put (cluster_stub M) ch kv w))"
    and "sound_world M (fst (stub_Delete (cluster_stub M) ch k w))"
    and "fst (stub_Get (cluster_stub M) ch k w) = w" and "fst (stub_ShowStatus (cluster_stub M) ch u w) = w"
  using rpc_write_sound [OF assms, of "\<lambda>c. ClientPut (ch_server ch) c (fst kv) (snd kv)"
      "\<lambda>n c. Put mem_leveldb n c (fst kv) (snd kv)"] rpc_write_sound [OF assms, of "\<lambda>c. ClientDelete (ch_server ch) c k"
      "\<lambda>n c. Delete mem_leveldb n c k"] assms(2)
  by (simp_all add: cluster_stub_def)

text \<open>The loop over the servers keeps what every single call keeps.\<close>

lemma ask_servers_keeps:
  assumes keeps: "\<And>ch w. P w \<Longrightarrow> ch_server ch \<in> A \<Longrightarrow> P (fst (rpc ch request w))"
    and "set servers \<subseteq> A" and "P w" and "rpc_client_ok c"
  shows "P (snd (snd (ask_servers rpc request accepts servers c w)))"
  using assms(2-4)
proof (induction servers arbitrary: c w)
  case (Cons x servers)
  obtain ch c1 where stub: "GetStub c x = (ch, c1)" by fastforce
  obtain w1 r where call: "rpc ch request w = (w1, r)" by fastforce
  note ok = GetStub_ok [OF Cons.prems(3) stub]
  have "P w1" using keeps [OF Cons.prems(2), of ch] Cons.prems(1) ok(2) call by simp
  then show ?case using Cons.IH [of w1 c1] Cons.prems(1) ok(1) stub call
    by (auto simp: SendRequest_def split: option.splits)
qed simp

lemma ask_sound:
  assumes keeps: "\<And>ch w. P w \<Longrightarrow> ch_server ch \<in> set M \<Longrightarrow> P (fst (rpc ch request w))" and "P w"
    and run: "ask rpc request accepts (AirDBSdk_init M) w = (r, s', w')"
  shows "P w'"
  using ask_servers_keeps [of P "set M" rpc request M w RpcClient_init accepts] assms
  by (auto simp: ask_def AirDBSdk_init_def split: prod.splits)

lemma show_servers_same:
  assumes "\<And>ch w. fst (rpc ch () w) = w"
  shows "snd (snd (snd (show_servers rpc servers c w))) = w"
proof (induction servers arbitrary: c w)
  case (Cons x servers)
  obtain ch c1 where "GetStub c x = (ch, c1)" by fastforce
  moreover obtain r where "rpc ch () w = (w, r)" using assms [of ch w] by (cases "rpc ch () w") auto
  ultimately show ?case
    using Cons.IH [of c1 w] by (auto simp: SendRequest_def split: prod.splits option.splits)
qed simp

lemma cli_command_sound:
  assumes "sound_world M w" and "cli_command (cluster_stub M) (AirDBSdk_init M) fl w = (r, w')"
  shows "sound_world M w'"
proof -
  consider (status) "FLAGS_airdb_cmd fl = ''show''" | (put) "FLAGS_airdb_cmd fl = ''put''"
    | (get) "FLAGS_airdb_cmd fl = ''get''" | (del) "FLAGS_airdb_cmd fl = ''del''"
    | (other) "FLAGS_airdb_cmd fl \<notin> {''show'', ''put'', ''get'', ''del''}" by blast
  then show ?thesis
  proof cases
    case status
    have "fst (stub_ShowStatus (cluster_stub M) ch () v) = v" for ch v by (simp add: cluster_stub_def)
    then show ?thesis
      using assms status show_servers_same [of "stub_ShowStatus (cluster_stub M)" M RpcClient_init w]
      by (auto simp: cli_command_def ShowClusterStatus_def AirDBSdk_init_def split: prod.splits)
  next
    case put
    then obtain x s' where "ask (stub_Put (cluster_stub M)) (FLAGS_airdb_key fl, FLAGS_airdb_value fl) rp_success
        (AirDBSdk_init M) w = (x, s', w')"
      using assms(2) by (auto simp: cli_command_def AirDBSdk_Put_def Let_def split: prod.splits)
    from ask_sound [of "sound_world M", OF _ assms(1) this] show ?thesis using stub_sound(1) by blast
  next
    case get
    then obtain x s' where run: "ask (stub_Get (cluster_stub M)) (FLAGS_airdb_key fl) (\<lambda>res. gr_hit res \<and> gr_success res)
        (AirDBSdk_init M) w = (x, s', w')"
      using assms(2) by (auto simp: cli_command_def AirDBSdk_Get_def Let_def split: prod.splits)
    have "sound_world M (fst (stub_Get (cluster_stub M) ch k v))" if "sound_world M v" for ch k v
      using that by (simp add: cluster_stub_def)
    then show ?thesis using ask_sound [of "sound_world M", OF _ assms(1) run] by blast
  next
    case del
    then obtain x s' where "ask (stub_Delete (cluster_stub M)) (FLAGS_airdb_key fl) rp_success (AirDBSdk_init M) w =
        (x, s', w')"
      using assms(2) by (auto simp: cli_command_def AirDBSdk_Delete_def Let_def split: prod.splits)
    from ask_sound [of "sound_world M", OF _ assms(1) this] show ?thesis using stub_sound(2) by blast
  next
    case other
    then show ?thesis using assms by (simp add: cli_command_def)
  qed
qed

lemma session_sound:
  assumes "\<forall>fl \<in> set fls. split_commas (FLAGS_cluster_members fl) = M" and "sound_world M w"
    and "session M fls w = Some (rs, w')"
  shows "sound_world M w'"
  using assms
proof (induction fls arbitrary: w rs)
  case (Cons fl fls)
  obtain r w1 where "cli_command (cluster_stub M) (AirDBSdk_init M) fl w = (r, w1)" by fastforce
  then show ?case
    using Cons.IH [of w1] Cons.prems cli_command_sound [OF Cons.prems(2)]
    by (auto simp: airdb_cli_def ParseFlagFromArgs_def Let_def split: if_splits)
qed simp

text \<open>The first world: \<open>b\<close> has been elected, and the cluster has come to rest.\<close>

lemma first_world_sound: "sound_world three first_world"
proof -
  obtain s where s: "sim_step mem_leveldb (Timeout ''b'') (sim_start three) = Some s" by simp
  then obtain t where "sim_rel mem_leveldb three s t"
    using sim_step_rel [OF sim_init_rel [OF sim_start_init], of "Timeout ''b''" three s] by (auto simp: three_def)
  then show ?thesis
    using settle_rel [of mem_leveldb three s t 60] s by (simp add: sound_world_def first_world_def elected_def)
qed

section \<open>An example\<close>

text \<open>
  A session with the command line tool, through all layers. On three servers that have elected
  a leader, which is not the first one the tool asks, a key that is put is got back, and after it is
  deleted there is nothing to get; every run of the tool prints and exits as it should. The servers'
  states are ones the network of all handlers reaches.
\<close>

lemma tool_session:
  "\<exists>w. session three
     [cli_flags ''put'' ''k'' ''v'', cli_flags ''get'' ''k'' [], cli_flags ''del'' ''k'' [],
      cli_flags ''get'' ''k'' []] first_world =
     Some ([(time_used 0 3000, 0), (''key:k;value:v'' @ newline @ time_used 0 3000, 0),
       (''del key[k] success'' @ newline, 0), (''get failed '' @ newline @ time_used 0 3000, 0)], w) \<and>
     (\<exists>t. net_reachable mem_leveldb three t \<and> nt_node t = sm_node (wd_sim w))"
proof -
  let ?fls = "[cli_flags ''put'' ''k'' ''v'', cli_flags ''get'' ''k'' [], cli_flags ''del'' ''k'' [],
      cli_flags ''get'' ''k'' []]"
  have "map_option fst (session three ?fls first_world) =
     Some [(time_used 0 3000, 0), (''key:k;value:v'' @ newline @ time_used 0 3000, 0),
       (''del key[k] success'' @ newline, 0), (''get failed '' @ newline @ time_used 0 3000, 0)]"
    by code_simp
  moreover have "\<forall>fl \<in> set ?fls. split_commas (FLAGS_cluster_members fl) = three"
    by (simp add: cli_flags_def three_def)
  ultimately show ?thesis
    using session_sound [OF _ first_world_sound] by (fastforce simp: sound_world_def sim_rel_def)
qed

end
