(* ===== verification/Spec2Isabelle.thy ===== *)
theory Spec2Isabelle
  imports Prelude LevelDB Codec Binlog BinlogSpec Storage Node Election Replication Service
    GarbageCollection Cluster ReplicationSpec ApplySpec ClientSpec Timing ThreadPool TPrinter Sdk
    GcSpec Anomalies StableLeader StableInv StableSafety StableProgress StableClient Mutex MutexUse
    WriteRace Startup Network StableGc Simulator SimNetwork LeaderChange Availability
    StableNetwork Programs Deployment
begin

text \<open>
  AirDB is a replicated key-value store in C++: a small cluster of servers elects a leader, the leader
  keeps a log of the clients' writing calls and copies it to the others, and every server applies the
  committed prefix of its log to a local database. This library models the program (the server under
  \<open>src/src\<close>, its support classes under \<open>src/common\<close>, the client library and the
  command line tool under \<open>src/sdk\<close>, the flags under \<open>src/flags\<close>) and proves
  what makes it correct, and where it is not.

  \<^bold>\<open>How the program works.\<close>
  A server is one object \<open>AirDBImpl\<close> whose fields are guarded by one mutex
  \<open>mu_\<close>. RPC handlers (\<open>Vote\<close>, \<open>AppendEntries\<close>, the five client
  calls, \<open>CleanBinlog\<close>, \<open>ShowStatus\<close>), the callbacks of the calls it makes
  itself, and tasks of its thread pools (the election timer \<open>VoteLeader\<close>, the heartbeat, the
  cleaner \<open>GarbageClean\<close>, one \<open>ReplicateLog\<close> loop for every follower, the thread
  \<open>CommitIndex\<close>) lock it, work, and wait on condition variables. The log is a
  \<open>BinLogger\<close> and the data a \<open>StorageKV\<close>, both on LevelDB. A client's writing
  call is written to the leader's log, copied by the \<open>ReplicateLog\<close> threads, committed by
  \<open>UpdateCommitIndex\<close>, applied by \<open>CommitIndex\<close>, and answered from there.

  \<^bold>\<open>How it is modelled.\<close>
  A record stands for a class, a function on it for a method, split where the method releases the mutex
  (\<open>AppendEntriesImpl\<close>, \<open>ReplicateLog\<close> and \<open>CommitIndex\<close> are each
  several functions, so that other threads can run in between). Pointers to callbacks, messages that are
  sent and conditions that are signalled are returned as values (\<open>effect\<close> in Node). A failed
  assertion, an abort, an exception nobody catches and undefined behaviour are the left side of a sum
  (\<open>fault\<close> in Prelude). 64-bit indices and terms are integers whose ranges are stated where a
  result needs them; where the code narrows (\<open>int32_t\<close> sizes, \<open>>> int\<close>) the
  wrap-around or the clamping is written out. Loops are structural recursion on a list or a number of
  remaining rounds, or \<open>function\<close>s with a measure; \<open>RemoveSubString\<close>, which may
  not end, is a \<open>partial_function\<close> whose value \<open>None\<close> is not returning.

  \<^bold>\<open>The theories.\<close>
  \<^item> Prelude: the result type, faults, \<open>std::map\<close> indexing, narrowing, lemmas on
    lists and maps, the collection \<open>model_defs\<close>.
  \<^item> Codec: \<open>IntToString\<close>, \<open>StringToInt\<close>,
    \<open>DumpBinLogEntry\<close>, \<open>LoadBinLogEntry\<close> of \<open>src/binlog.cc\<close>, the
    entry of \<open>src/binlog.h\<close>. Round trips, and the slots an \<open>int\<close> cannot hold.
  \<^item> LevelDB: the parameter for the database, with the locale \<open>leveldb_laws\<close> (what a
    successful call does to the contents) and \<open>leveldb_available\<close> (no call fails), and an
    association list that satisfies both.
  \<^item> Binlog, BinlogSpec: \<open>BinLogger\<close> and its contract. \<open>binlog_rel content lo b
    log\<close> says that a logger holds the list \<open>log\<close>, of which the slots below
    \<open>lo\<close> may be deleted; the locale \<open>log_store\<close> is the interface that
    replication and the client calls use.
  \<^item> Storage: \<open>StorageKV\<close>, behind the locale \<open>kv_store\<close>, and the
    operation byte of a value (\<open>ParseValue\<close>).
  \<^item> Node: the state of \<open>AirDBImpl\<close>, the messages of \<open>airdb_node.proto\<close>,
    the effects, the constructor's initial state, \<open>LoopVoteLeader\<close>,
    \<open>ShowStatus\<close>.
  \<^item> Election: \<open>VoteLeader\<close>, \<open>Vote\<close>, \<open>VoteCallBack\<close>,
    \<open>SwitchToLeader\<close>, \<open>SwitchToFollower\<close>.
  \<^item> Replication, ReplicationSpec: \<open>AppendEntries\<close>, \<open>ReplicateLog\<close>,
    \<open>UpdateCommitIndex\<close>, heartbeats; and \<open>follower_spec\<close>,
    \<open>append_spec\<close> (with its refusals) and \<open>round_spec\<close>, what they do to lists
    of entries.
  \<^item> Service, ApplySpec, ClientSpec: \<open>Put\<close>, \<open>Get\<close>,
    \<open>Delete\<close>, \<open>Lock\<close>, \<open>UnLock\<close>, \<open>CommitIndex\<close>; the
    data store as a map that entries are applied to (\<open>apply_spec\<close>); a call from its request
    to its answer.
  \<^item> GarbageCollection, GcSpec: \<open>GarbageClean\<close>, \<open>CleanBinlog\<close>,
    \<open>DelBinlog\<close>.
  \<^item> Cluster: servers that exchange votes over a network that loses, delays and reorders. All
    other messages may have any content, so election safety rests on the vote alone.
  \<^item> Network: all handlers, the log cleaning included, with a network that carries only what was
    sent; lower bounds of counters, terms, lengths and indices.
  \<^item> StableLeader, StableInv, StableSafety, StableProgress, StableClient, StableGc: a whole cluster
    under one leader, at the granularity of the mutexes; its invariant (from which slot on the logs are
    kept is a parameter of it), what follows for the data stores, that it can always make progress, and
    what a client is promised; StableGc adds the cleaning of the logs (the constructor always starts
    the cleaner), with polls, calls and deletions as steps of their own, and has the properties. The
    commit thread's loop variable is an \<open>int\<close> (\<open>loop_slot\<close>): a server that
    has applied slot 2147483647 applies nothing more. It begins with servers that have run nothing but elections (any number of
    rounds) since they were constructed on empty databases, one of which has won.
  \<^item> Simulator, SimNetwork: the cluster as an executable program over a list of events (who moves,
    which message arrives or is lost), and that each of its runs is a run of Network.
  \<^item> LeaderChange: two runs of the simulator in which leaders change, and what the clients see.
  \<^item> Availability: the ways from any reachable state of the simulator to a leader that all others
    follow (heartbeats depose the stale leaders, then the server with the best log campaigns), and why a
    server alone never leads.
  \<^item> StableNetwork: that the cluster under one leader is what the program gets to from its start, and
    that each of its steps is a sequence of handlers of Network.
  \<^item> Mutex, MutexUse: \<open>Mutex\<close>, \<open>MutexLock\<close>, \<open>CondVar\<close> of
    \<open>common/mutex.h\<close> between any two of their instructions; the order of lock calls in the
    handlers; the destructor of \<open>AirDBImpl\<close>.
  \<^item> WriteRace: \<open>BinLogger::WriteEntry\<close>, whose lock is commented out, in separate
    instructions.
  \<^item> ThreadPool: \<open>common/thread_pool.h\<close>. The delayed tasks' order is an instance of
    \<open>linorder\<close>, the heap is behind the locale \<open>max_queue\<close>.
  \<^item> Timing: \<open>common/timer.h\<close> and the deadline of \<open>CondVar::TimeWait\<close>.
  \<^item> Startup: the flags, \<open>GetRandTimeOut\<close> with its \<open>float\<close> rounding, the
    constructors of \<open>BinLogger\<close>, \<open>StorageKV\<close> and \<open>AirDBImpl\<close>.
  \<^item> TPrinter: \<open>common/tprinter.cc\<close>.
  \<^item> Sdk: \<open>RpcClient\<close>, \<open>AirDBSdk\<close> and what the command line tool
    prints.
  \<^item> Programs, Deployment: the two \<open>main\<close> functions from the flags to the exit code, and, as
    an example, a session of the tool with three simulated servers behind its channels.
  \<^item> Anomalies: runs of the program that the protocol it implements does not allow.

  \<^bold>\<open>What is proved.\<close>
  Elections are safe as long as nobody restarts (Cluster, for any content of the other messages), and
  votes are final; from every reachable state there is a way to a leader that all others follow, if there
  are two servers at all (Availability). Under one leader, with all threads of all servers interleaved where they release their
  mutexes and the logs cleaned meanwhile, every log is a prefix of the leader's and every data store an
  applied prefix of it; as long as the leader's log has at most 2147483647 entries no operation meets a
  missing slot or an assertion, and there is always a way to a state in which everything is applied
  everywhere (StableGc, over the invariant of StableInv). What is committed stays committed, and is held
  by a majority until every server has applied it (StableGc). A client's \<open>Put\<close> in such a cluster is
  answered with success only when a majority holds its entry, a \<open>Get\<close> then returns its value
  and, with less than 2147483647 entries in the log, there is always a way to its answer and to all
  servers having the value, and to cleaning all but the last two slots (StableGc). Below these are the
  refinements of the handlers (the append handler, a turn of \<open>ReplicateLog\<close>, a round of the
  commit thread) to functions on lists, the exact conditions under which votes are granted, leaders made
  and slots committed, the contract of the log (append, overwrite, reopen, round trip of its encoding),
  the client calls from request to answer, restart, a crash between applying an entry and saving the
  position, the agreement of servers whose logs agree, and garbage collection. The support classes
  have their own properties: mutual exclusion, the pool's tasks at most once and in order, the printer,
  the timers, the order in which the client library asks the servers and the channels it caches. The
  programs have theirs: when the server comes up and ends. Other theorems state what the program does wrong: a server alone that never
  leads, an answered \<open>Put\<close> lost and a lost one answered when leaders change, votes forgotten by a restart, a
  heartbeat that commits entries nobody sent, the first slot committed without a majority, a lock that
  excludes nobody and an unlock that does not unlock, a write without its lock, a double unlock, and a
  destructor that waits for ever.

  \<^bold>\<open>Bounds.\<close>
  Convergence of one follower (ReplicationSpec) needs at most \<open>next_index + 1\<close> turns: each
  failed turn lowers the next index by one and the first successful one copies the rest. Convergence of
  the cluster (StableProgress) gives a schedule whose length is not fixed in advance: calls under way are
  ended, then each thread takes undisturbed turns until the follower has the whole log, one more to learn
  the commit index, and the commit threads run until they are level with it. The loops of the commit
  thread and of the entry collection run over a number of rounds that is the difference of two indices,
  which is what the C++ loops count, so no fuel is needed. The simulator runs over a finite list of
  events; in Deployment a caller waits for at most 60 events, and the cluster comes to rest before. The
  waiting loop of the server is a \<open>partial_function\<close>, for it may go on for ever. An entry is
  assumed to fit its \<open>int32_t\<close> size (\<open>entry_ok\<close>) where it is written. What is said of
  the progress and of the faults of a cluster under one leader is said of logs of at most 2147483647
  entries, for the commit thread counts slots in an \<open>int\<close> although they are 64-bit numbers; beyond
  that it stops for ever. What is said of safety needs no such bound. The election timeout is exact for
  flags less than \<open>2^24\<close> apart, and otherwise lies within their rounded difference.

  \<^bold>\<open>What is assumed.\<close>
  LevelDB, the RPC library, the arrival of signals, boost (\<open>split\<close>, \<open>function\<close>),
  gflags, \<open>mkdir\<close>, the clock and \<open>rand\<close> are not part of the repository: they are
  parameters, with the documented behaviour the code relies on as hypotheses (\<open>leveldb_laws\<close>
  and \<open>leveldb_available\<close> for LevelDB; \<open>RAND_MAX\<close> is \<open>2^31 - 1\<close>).
  The pthread calls behave as POSIX says. In Cluster and Network no server restarts. In the theories on a
  stable leader, the leader stays: no election timer starts a round, nobody restarts, and the answer of an
  append request that was handled is not lost (a request may be, and anything may be delayed).
  LeaderChange shows what goes wrong when leaders change. In StableGc the second unlock of
  \<open>GarbageClean\<close> (MutexUse) is taken to have no effect. That the answer is not lost is
  needed: the handler no longer cuts the log before it appends, so a repeated request duplicates its
  entries (ReplicationSpec). Where databases are opened for the first time they are assumed empty, and
  Network begins with a log length of at least 0 and a saved position of at least -1.

  \<^bold>\<open>Not modelled.\<close>
  The RPC server and the parsing of the command line in \<open>airdb_main.cc\<close> and
  \<open>airdb_cli_main.cc\<close> are library calls and parameters; log messages have no effect; the
  macro of \<open>common/macro.h\<close> is unused; the destructors of \<open>BinLogger\<close>,
  \<open>StorageKV\<close>, \<open>RpcClient\<close>, \<open>TPrinter\<close> and \<open>AirDBSdk\<close>
  only free what they own; failing pthread calls abort, which is not followed further;
  \<open>MUTEX_DEBUG\<close> is never defined, so the bookkeeping it turns on has no effect. Memory is not
  modelled; a leak is listed with the findings.
\<close>

end
